theory Spec2Isabelle
  imports Complex_Main "HOL-Library.Extended_Nat" "HOL-Library.Multiset"
begin

text \<open>The only exception the modelled code can raise is the TypeError of reading a property of \<^verbatim>\<open>undefined\<close>.\<close>

datatype js_error = TypeError

section \<open>Sorting visualizer: bars, animation events and recorders\<close>

datatype BarState = Default | Comparing | Sorted | Pivot

record ArrayBar =
  bar_value :: int
  bar_state :: BarState

datatype Animation =
    Compare int int
  | Swap int int
  | Reset "int list"
  | SortedEv "int list"
  | PivotEv int
  | ResetPivot int
  | Overwrite int int

text \<open>
  A recorder works on \<^verbatim>\<open>arrayCopy\<close> and pushes onto \<^verbatim>\<open>animations\<close>: its state is the pair.
\<close>

type_synonym rec_state = "ArrayBar list \<times> Animation list"

fun push :: "rec_state \<Rightarrow> Animation list \<Rightarrow> rec_state" where
  "push (arr, anims) es = (arr, anims @ es)"

subsection \<open>bubbleSort\<close>

function bubble_inner :: "nat \<Rightarrow> nat \<Rightarrow> nat \<Rightarrow> rec_state \<Rightarrow> rec_state" where
  "bubble_inner n i j (arr, anims) =
     (if j < n - i - 1 then
        (if bar_value (arr ! j) > bar_value (arr ! (j + 1))
         then bubble_inner n i (j + 1)
                (arr[j := arr ! (j + 1), j + 1 := arr ! j],
                 anims @ [Compare (int j) (int j + 1), Swap (int j) (int j + 1),
                          Reset [int j, int j + 1]])
         else bubble_inner n i (j + 1)
                (arr, anims @ [Compare (int j) (int j + 1), Reset [int j, int j + 1]]))
      else (arr, anims))"
  by pat_completeness auto
termination
  by (relation "measure (\<lambda>(n, i, j, st). n - i - 1 - j)") auto

declare bubble_inner.simps [simp del]

function bubble_outer :: "nat \<Rightarrow> nat \<Rightarrow> rec_state \<Rightarrow> rec_state" where
  "bubble_outer n i st =
     (if i < n
      then bubble_outer n (i + 1) (push (bubble_inner n i 0 st) [SortedEv [int n - int i - 1]])
      else st)"
  by pat_completeness auto
termination
  by (relation "measure (\<lambda>(n, i, st). n - i)") auto

declare bubble_outer.simps [simp del]

definition bubbleSort :: "ArrayBar list \<Rightarrow> Animation list" where
  "bubbleSort array = snd (bubble_outer (length array) 0 (array, []))"

subsection \<open>mergeSort\<close>

text \<open>\<^verbatim>\<open>Array.prototype.slice\<close>: a negative bound counts from the end, both are clamped.\<close>

definition js_slice :: "'a list \<Rightarrow> int \<Rightarrow> int \<Rightarrow> 'a list" where
  "js_slice xs s e =
     (let n = int (length xs);
          s' = (if s < 0 then max (n + s) 0 else min s n);
          e' = (if e < 0 then max (n + e) 0 else min e n)
      in take (nat (e' - s')) (drop (nat s') xs))"

text \<open>The first loop of \<^verbatim>\<open>merge\<close>; it returns the loop variables with the state.\<close>

function merge_both ::
  "ArrayBar list \<Rightarrow> ArrayBar list \<Rightarrow> int \<Rightarrow> int \<Rightarrow> nat \<Rightarrow> nat \<Rightarrow> int \<Rightarrow> rec_state
     \<Rightarrow> nat \<times> nat \<times> int \<times> rec_state" where
  "merge_both left right start mid i j k (arr, anims) =
     (if i < length left \<and> j < length right then
        (if bar_value (left ! i) \<le> bar_value (right ! j)
         then merge_both left right start mid (i + 1) j (k + 1)
                (arr[nat k := left ! i],
                 anims @ [Compare (start + int i) (mid + 1 + int j),
                          Overwrite k (bar_value (left ! i)),
                          Reset [start + int (i + 1) - 1, mid + 1 + int j - 1]])
         else merge_both left right start mid i (j + 1) (k + 1)
                (arr[nat k := right ! j],
                 anims @ [Compare (start + int i) (mid + 1 + int j),
                          Overwrite k (bar_value (right ! j)),
                          Reset [start + int i - 1, mid + 1 + int (j + 1) - 1]]))
      else (i, j, k, (arr, anims)))"
  by pat_completeness auto
termination
  by (relation "measure (\<lambda>(left, right, start, mid, i, j, k, st).
                  (length left - i) + (length right - j))") auto

declare merge_both.simps [simp del]

text \<open>The second and the third loop of \<^verbatim>\<open>merge\<close> copy what is left of one side.\<close>

function merge_rest :: "ArrayBar list \<Rightarrow> nat \<Rightarrow> int \<Rightarrow> rec_state \<Rightarrow> int \<times> rec_state" where
  "merge_rest side i k (arr, anims) =
     (if i < length side then
        merge_rest side (i + 1) (k + 1)
          (arr[nat k := side ! i], anims @ [Overwrite k (bar_value (side ! i))])
      else (k, (arr, anims)))"
  by pat_completeness auto
termination
  by (relation "measure (\<lambda>(side, i, k, st). length side - i)") auto

declare merge_rest.simps [simp del]

definition merge :: "rec_state \<Rightarrow> int \<Rightarrow> int \<Rightarrow> int \<Rightarrow> rec_state" where
  "merge st start mid end =
     (let left = js_slice (fst st) start (mid + 1);
          right = js_slice (fst st) (mid + 1) (end + 1);
          (i, j, k, st1) = merge_both left right start mid 0 0 start st;
          (k2, st2) = merge_rest left i k st1;
          (k3, st3) = merge_rest right j k2 st2
      in st3)"

function mergeSortHelper :: "rec_state \<Rightarrow> int \<Rightarrow> int \<Rightarrow> rec_state" where
  "mergeSortHelper st start end =
     (if start \<ge> end then st
      else merge (mergeSortHelper (mergeSortHelper st start ((start + end) div 2))
                    ((start + end) div 2 + 1) end)
             start ((start + end) div 2) end)"
  by pat_completeness auto
termination
  by (relation "measure (\<lambda>(st, start, end). nat (end - start))") auto

declare mergeSortHelper.simps [simp del]

definition mergeSort :: "ArrayBar list \<Rightarrow> Animation list" where
  "mergeSort array =
     (let st = mergeSortHelper (array, []) 0 (int (length array) - 1)
      in snd st @ map (\<lambda>i. SortedEv [int i]) [0..<length (fst st)])"

subsection \<open>quickSort\<close>

function partition_loop ::
  "int \<Rightarrow> int \<Rightarrow> int \<Rightarrow> int \<Rightarrow> rec_state \<Rightarrow> int \<times> rec_state" where
  "partition_loop high pivotValue j i (arr, anims) =
     (if j < high then
        (if bar_value (arr ! nat j) < pivotValue
         then partition_loop high pivotValue (j + 1) (i + 1)
                (arr[nat (i + 1) := arr ! nat j, nat j := arr ! nat (i + 1)],
                 anims @ [Compare j high, Swap (i + 1) j, Reset [j, high]])
         else partition_loop high pivotValue (j + 1) i
                (arr, anims @ [Compare j high, Reset [j, high]]))
      else (i, (arr, anims)))"
  by pat_completeness auto
termination
  by (relation "measure (\<lambda>(high, pivotValue, j, i, st). nat (high - j))") auto

declare partition_loop.simps [simp del]

definition partition :: "rec_state \<Rightarrow> int \<Rightarrow> int \<Rightarrow> int \<times> rec_state" where
  "partition st low high =
     (let pivotValue = bar_value (fst st ! nat high);
          (i, (arr1, anims1)) =
             partition_loop high pivotValue low (low - 1) (push st [PivotEv high])
      in (i + 1,
          (arr1[nat (i + 1) := arr1 ! nat high, nat high := arr1 ! nat (i + 1)],
           anims1 @ [Swap (i + 1) high, SortedEv [i + 1], ResetPivot high])))"

lemma partition_loop_bounds:
  "partition_loop high pv j i st = (i', st') \<Longrightarrow> i < j \<Longrightarrow> j \<le> high \<Longrightarrow> i \<le> i' \<and> i' < high"
proof (induction high pv j i st arbitrary: i' st' rule: partition_loop.induct)
  case (1 high pv j i arr anims)
  note eq = partition_loop.simps [of high pv j i arr anims]
  show ?case
  proof (cases "j < high")
    case False
    with "1.prems" show ?thesis by (simp add: eq)
  next
    case jh: True
    show ?thesis
    proof (cases "bar_value (arr ! nat j) < pv")
      case True
      with jh "1.prems"(1) have
        "partition_loop high pv (j + 1) (i + 1)
           (arr[nat (i + 1) := arr ! nat j, nat j := arr ! nat (i + 1)],
            anims @ [Compare j high, Swap (i + 1) j, Reset [j, high]]) = (i', st')"
        by (simp add: eq)
      from "1.IH"(1) [OF jh True this] "1.prems"(2) jh show ?thesis by simp
    next
      case False
      with jh "1.prems"(1) have
        "partition_loop high pv (j + 1) i (arr, anims @ [Compare j high, Reset [j, high]])
           = (i', st')"
        by (simp add: eq)
      from "1.IH"(2) [OF jh False this] "1.prems"(2) jh show ?thesis by simp
    qed
  qed
qed

lemma partition_bounds:
  assumes "low < high"
  shows "low \<le> fst (partition st low high) \<and> fst (partition st low high) \<le> high"
proof -
  obtain i st' where
    l: "partition_loop high (bar_value (fst st ! nat high)) low (low - 1) (push st [PivotEv high])
          = (i, st')"
    by (cases "partition_loop high (bar_value (fst st ! nat high)) low (low - 1)
                 (push st [PivotEv high])") auto
  from partition_loop_bounds [OF l] assms have "low - 1 \<le> i \<and> i < high" by simp
  moreover have "fst (partition st low high) = i + 1"
    by (cases st') (simp add: partition_def l Let_def)
  ultimately show ?thesis by simp
qed

function quickSortHelper :: "rec_state \<Rightarrow> int \<Rightarrow> int \<Rightarrow> rec_state" where
  "quickSortHelper st low high =
     (if low < high then
        quickSortHelper
          (quickSortHelper (snd (partition st low high)) low (fst (partition st low high) - 1))
          (fst (partition st low high) + 1) high
      else if low = high then push st [SortedEv [low]]
      else st)"
  by pat_completeness auto
termination
proof (relation "measure (\<lambda>(st, low, high). nat (high - low))", goal_cases)
  case 1
  show ?case by simp
next
  case (2 st low high)
  with partition_bounds [of low high st] show ?case by simp
next
  case (3 st low high)
  with partition_bounds [of low high st] show ?case by simp
qed

declare quickSortHelper.simps [simp del]

definition quickSort :: "ArrayBar list \<Rightarrow> Animation list" where
  "quickSort array =
     (let st = quickSortHelper (array, []) 0 (int (length array) - 1)
      in snd st @ map (\<lambda>i. SortedEv [int i]) [0..<length (fst st)])"

subsection \<open>insertionSort\<close>

function insertion_while :: "nat \<Rightarrow> int \<Rightarrow> int \<Rightarrow> rec_state \<Rightarrow> int \<times> rec_state" where
  "insertion_while i key j (arr, anims) =
     (if j \<ge> 0 \<and> bar_value (arr ! nat j) > key then
        insertion_while i key (j - 1)
          (arr[nat (j + 1) := arr ! nat j],
           anims @ [Swap j (j + 1)] @ (if j - 1 \<ge> 0 then [Compare (int i) (j - 1)] else []))
      else (j, (arr, anims)))"
  by pat_completeness auto
termination
  by (relation "measure (\<lambda>(i, key, j, st). nat (j + 1))") auto

declare insertion_while.simps [simp del]

definition insertion_step :: "nat \<Rightarrow> rec_state \<Rightarrow> rec_state" where
  "insertion_step i st =
     (let key = bar_value (fst st ! i);
          (j, (arr, anims)) = insertion_while i key (int i - 1) (push st [Compare (int i) (int i - 1)])
      in (arr[nat (j + 1) := \<lparr>bar_value = key, bar_state = Default\<rparr>],
          anims @ [Reset [int i, max 0 j], SortedEv [j + 1]]))"

function insertion_for :: "nat \<Rightarrow> nat \<Rightarrow> rec_state \<Rightarrow> rec_state" where
  "insertion_for n i st =
     (if i < n then insertion_for n (i + 1) (insertion_step i st) else st)"
  by pat_completeness auto
termination
  by (relation "measure (\<lambda>(n, i, st). n - i)") auto

declare insertion_for.simps [simp del]

definition insertionSort :: "ArrayBar list \<Rightarrow> Animation list" where
  "insertionSort array = snd (insertion_for (length array) 1 (array, [SortedEv [0]]))"

section \<open>Sorting visualizer: replaying the events\<close>

text \<open>
  What a slot of the displayed array can hold at run time: \<^verbatim>\<open>undefined\<close> (also a hole),
  or an object whose \<^verbatim>\<open>value\<close> may be missing, as \<^verbatim>\<open>{...undefined, state: s}\<close> builds it.
\<close>

datatype Slot = Undefined | Bar "int option" BarState

definition slot_of :: "ArrayBar \<Rightarrow> Slot" where
  "slot_of b = Bar (Some (bar_value b)) (bar_state b)"

fun slot_value :: "Slot \<Rightarrow> int option" where
  "slot_value Undefined = None"
| "slot_value (Bar v s) = v"

text \<open>
  Reading and writing a JavaScript array at an integer index. A read outside the elements
  gives \<^verbatim>\<open>undefined\<close>. A write past the end lengthens the array, the slots between being
  holes; a write at a negative index sets a property and changes no element.
\<close>

definition js_get :: "Slot list \<Rightarrow> int \<Rightarrow> Slot" where
  "js_get xs i = (if 0 \<le> i \<and> nat i < length xs then xs ! nat i else Undefined)"

definition js_set :: "Slot list \<Rightarrow> int \<Rightarrow> Slot \<Rightarrow> Slot list" where
  "js_set xs i v =
     (if i < 0 then xs
      else if nat i < length xs then xs[nat i := v]
      else xs @ replicate (nat i - length xs) Undefined @ [v])"

text \<open>\<^verbatim>\<open>{ ...slot, state: s }\<close>\<close>

fun with_state :: "Slot \<Rightarrow> BarState \<Rightarrow> Slot" where
  "with_state Undefined s = Bar None s"
| "with_state (Bar v _) s = Bar v s"

text \<open>The loop of the \<^verbatim>\<open>reset\<close> case: reading \<^verbatim>\<open>.state\<close> of \<^verbatim>\<open>undefined\<close> throws.\<close>

fun apply_reset :: "Slot list \<Rightarrow> int list \<Rightarrow> js_error + Slot list" where
  "apply_reset arr [] = Inr arr"
| "apply_reset arr (i # is) =
     (case js_get arr i of
        Undefined \<Rightarrow> Inl TypeError
      | Bar v s \<Rightarrow> apply_reset (if s = Comparing then js_set arr i (Bar v Default) else arr) is)"

text \<open>The state update that \<^verbatim>\<open>animate\<close> passes to \<^verbatim>\<open>setArray\<close>, one case per event type.\<close>

fun applyAnimation :: "Slot list \<Rightarrow> Animation \<Rightarrow> js_error + Slot list" where
  "applyAnimation arr (Compare a b) =
     Inr (let arr1 = js_set arr a (with_state (js_get arr a) Comparing)
          in js_set arr1 b (with_state (js_get arr1 b) Comparing))"
| "applyAnimation arr (Swap a b) =
     Inr (let temp = js_get arr a;
              arr1 = js_set arr a (js_get arr b)
          in js_set arr1 b temp)"
| "applyAnimation arr (Reset is) = apply_reset arr is"
| "applyAnimation arr (SortedEv is) =
     Inr (fold (\<lambda>i a. js_set a i (with_state (js_get a i) Sorted)) is arr)"
| "applyAnimation arr (PivotEv i) = Inr (js_set arr i (with_state (js_get arr i) Pivot))"
| "applyAnimation arr (ResetPivot i) =
     (case js_get arr i of
        Undefined \<Rightarrow> Inl TypeError
      | Bar v s \<Rightarrow> Inr (if s = Pivot then js_set arr i (Bar v Default) else arr))"
| "applyAnimation arr (Overwrite i v) = Inr (js_set arr i (Bar (Some v) Comparing))"

text \<open>Replaying a sequence of events in order; the first exception ends the replay.\<close>

fun replay :: "Animation list \<Rightarrow> Slot list \<Rightarrow> js_error + Slot list" where
  "replay [] arr = Inr arr"
| "replay (e # es) arr =
     (case applyAnimation arr e of Inl err \<Rightarrow> Inl err | Inr arr' \<Rightarrow> replay es arr')"

fun is_move :: "Animation \<Rightarrow> bool" where
  "is_move (Swap a b) = True"
| "is_move (Overwrite i v) = True"
| "is_move _ = False"

definition bars :: "int list \<Rightarrow> ArrayBar list" where
  "bars vs = map (\<lambda>v. \<lparr>bar_value = v, bar_state = Default\<rparr>) vs"

section \<open>Sorting visualizer: the playback\<close>

text \<open>
  What the closure \<^verbatim>\<open>animate\<close> owns: the events, the cursor \<^verbatim>\<open>i\<close>, and the value of
  \<^verbatim>\<open>isSorting\<close> that its guard reads. That value is the one of the render in which the
  run was started, so it belongs to the playback and not to the state of the component.
\<close>

record Playback =
  animations :: "Animation list"
  cursor :: nat
  seenSorting :: bool

text \<open>
  The state of the component that the playback reads and writes: the displayed array, the
  flags \<^verbatim>\<open>isSorting\<close> and \<^verbatim>\<open>isSorted\<close>, the tick that is scheduled (the timeout and then
  the animation frame that \<^verbatim>\<open>animationTimeoutRef\<close> and \<^verbatim>\<open>animationFrameIdRef\<close> name,
  with the closure it will call), and the number of completion toasts shown.
\<close>

record SortingVis =
  sv_array :: "Slot list"
  sv_isSorting :: bool
  sv_isSorted :: bool
  sv_pending :: "Playback option"
  sv_toasts :: nat

text \<open>
  One call of \<^verbatim>\<open>animate\<close>. The result is the event that the call applied, if any, and
  the state it leaves.
\<close>

definition animate :: "Playback \<Rightarrow> SortingVis \<Rightarrow> js_error + (Animation list \<times> SortingVis)" where
  "animate pb sv =
     (if \<not> seenSorting pb then Inr ([], sv)
      else if cursor pb = length (animations pb)
      then Inr ([], sv\<lparr>sv_isSorting := False, sv_isSorted := True, sv_toasts := sv_toasts sv + 1\<rparr>)
      else (case applyAnimation (sv_array sv) (animations pb ! cursor pb) of
              Inl e \<Rightarrow> Inl e
            | Inr arr \<Rightarrow>
                Inr ([animations pb ! cursor pb],
                     sv\<lparr>sv_array := arr, sv_pending := Some (pb\<lparr>cursor := cursor pb + 1\<rparr>)\<rparr>)))"

definition animateSort ::
  "Animation list \<Rightarrow> bool \<Rightarrow> SortingVis \<Rightarrow> js_error + (Animation list \<times> SortingVis)" where
  "animateSort anims seen sv =
     (if anims = [] then Inr ([], sv)
      else animate \<lparr>animations = anims, cursor = 0, seenSorting = seen\<rparr> sv)"

text \<open>The recorders read \<^verbatim>\<open>.value\<close> of every bar: the array has to be an \<^verbatim>\<open>ArrayBar[]\<close>.\<close>

fun bar_of :: "Slot \<Rightarrow> ArrayBar option" where
  "bar_of (Bar (Some v) s) = Some \<lparr>bar_value = v, bar_state = s\<rparr>"
| "bar_of _ = None"

definition typed_array :: "Slot list \<Rightarrow> ArrayBar list option" where
  "typed_array arr =
     (if list_all (\<lambda>s. bar_of s \<noteq> None) arr then Some (map (the \<circ> bar_of) arr) else None)"

definition recorder :: "string \<Rightarrow> ArrayBar list \<Rightarrow> Animation list" where
  "recorder algorithm =
     (if algorithm = ''bubbleSort'' then bubbleSort
      else if algorithm = ''mergeSort'' then mergeSort
      else if algorithm = ''quickSort'' then quickSort
      else if algorithm = ''insertionSort'' then insertionSort
      else bubbleSort)"

text \<open>
  \<^verbatim>\<open>startSorting\<close>: the result is \<open>None\<close> when the displayed array is not an
  \<^verbatim>\<open>ArrayBar[]\<close>, which is outside what this model describes.
\<close>

definition startSorting ::
  "string \<Rightarrow> bool \<Rightarrow> SortingVis \<Rightarrow> (js_error + (Animation list \<times> SortingVis)) option" where
  "startSorting algorithm seen sv =
     (case typed_array (sv_array sv) of
        None \<Rightarrow> None
      | Some bs \<Rightarrow> Some (animateSort (recorder algorithm bs) seen (sv\<lparr>sv_isSorting := True\<rparr>)))"

text \<open>\<^verbatim>\<open>pauseSorting\<close> clears the timeout and the animation frame.\<close>

definition pauseSorting :: "SortingVis \<Rightarrow> SortingVis" where
  "pauseSorting sv = sv\<lparr>sv_isSorting := False, sv_pending := None\<rparr>"

text \<open>
  The effect on \<^verbatim>\<open>isPlaying\<close>, \<^verbatim>\<open>isSorting\<close> and \<^verbatim>\<open>isSorted\<close>, the only caller of
  \<^verbatim>\<open>startSorting\<close> and \<^verbatim>\<open>pauseSorting\<close>. The closure \<^verbatim>\<open>animate\<close> that \<^verbatim>\<open>startSorting\<close>
  makes reads the \<^verbatim>\<open>isSorting\<close> of the render in which the effect runs, which is the
  flag of the state the effect starts from.
\<close>

definition playEffect ::
  "string \<Rightarrow> bool \<Rightarrow> SortingVis \<Rightarrow> (js_error + (Animation list \<times> SortingVis)) option" where
  "playEffect algorithm isPlaying sv =
     (if isPlaying \<and> \<not> sv_isSorting sv \<and> \<not> sv_isSorted sv
      then startSorting algorithm (sv_isSorting sv) sv
      else if \<not> isPlaying \<and> sv_isSorting sv then Some (Inr ([], pauseSorting sv))
      else Some (Inr ([], sv)))"

text \<open>The scheduled tick fires; \<open>ticks n\<close> lets \<open>n\<close> of them fire and collects the events applied.\<close>

definition tick :: "SortingVis \<Rightarrow> js_error + (Animation list \<times> SortingVis)" where
  "tick sv =
     (case sv_pending sv of
        None \<Rightarrow> Inr ([], sv)
      | Some pb \<Rightarrow> animate pb (sv\<lparr>sv_pending := None\<rparr>))"

fun ticks :: "nat \<Rightarrow> SortingVis \<Rightarrow> js_error + (Animation list \<times> SortingVis)" where
  "ticks 0 sv = Inr ([], sv)"
| "ticks (Suc n) sv =
     (case tick sv of
        Inl e \<Rightarrow> Inl e
      | Inr (es, sv') \<Rightarrow>
          (case ticks n sv' of
             Inl e \<Rightarrow> Inl e
           | Inr (es', sv'') \<Rightarrow> Inr (es @ es', sv'')))"

section \<open>Pathfinding visualizer: the grid\<close>

text \<open>
  The cell of the pathfinding grid, as the interface \<^verbatim>\<open>Cell\<close> declares it.
  \<^verbatim>\<open>distance\<close> starts at \<^verbatim>\<open>Number.POSITIVE_INFINITY\<close>, hence an extended natural.
  The optional A* scores \<^verbatim>\<open>f\<close>, \<^verbatim>\<open>g\<close>, \<^verbatim>\<open>h\<close> are only read through
  \<^verbatim>\<open>x || 0\<close> or \<^verbatim>\<open>x || Infinity\<close>, which treat \<^verbatim>\<open>undefined\<close> and \<^verbatim>\<open>0\<close>
  alike, so a natural number with \<open>0\<close> for both is what the code can see.
\<close>

datatype CellType = Empty | Wall | Start | End | Visited | Path | Current

record Cell =
  row :: nat
  col :: nat
  ctype :: CellType
  distance :: enat
  isVisited :: bool
  previousNode :: "(nat \<times> nat) option"
  fScore :: nat
  gScore :: nat
  hScore :: nat

type_synonym Grid = "Cell list list"

text \<open>\<^verbatim>\<open>createNode\<close>: a fresh cell; its type comes from the start and end positions.\<close>

definition createNode :: "nat \<times> nat \<Rightarrow> nat \<times> nat \<Rightarrow> nat \<Rightarrow> nat \<Rightarrow> Cell" where
  "createNode startNode endNode r c =
     \<lparr>row = r, col = c,
      ctype = (if r = fst startNode \<and> c = snd startNode then Start
               else if r = fst endNode \<and> c = snd endNode then End else Empty),
      distance = \<infinity>, isVisited = False, previousNode = None,
      fScore = 0, gScore = 0, hScore = 0\<rparr>"

text \<open>\<^verbatim>\<open>initializeGrid\<close>, with the numbers of rows and columns (20 and 50 in the source) as parameters.\<close>

definition initializeGrid :: "nat \<Rightarrow> nat \<Rightarrow> nat \<times> nat \<Rightarrow> nat \<times> nat \<Rightarrow> Grid" where
  "initializeGrid rows cols startNode endNode =
     map (\<lambda>r. map (\<lambda>c. createNode startNode endNode r c) [0..<cols]) [0..<rows]"

text \<open>
  \<^verbatim>\<open>toggleWall\<close>: reading \<^verbatim>\<open>newGrid[row][col]\<close> outside the grid gives
  \<^verbatim>\<open>undefined\<close>, and the next property read throws a TypeError.
\<close>

definition toggleWall :: "Grid \<Rightarrow> nat \<Rightarrow> nat \<Rightarrow> js_error + Grid" where
  "toggleWall grid r c =
     (if r < length grid \<and> c < length (grid ! r) then
        (let node = grid ! r ! c in
         if ctype node \<noteq> Start \<and> ctype node \<noteq> End then
           Inr (grid[r := (grid ! r)[c := node\<lparr>ctype := (if ctype node = Wall then Empty else Wall)\<rparr>]])
         else Inr grid)
      else Inl TypeError)"

section \<open>Pathfinding recorders\<close>

text \<open>
  The recorders mutate the cell objects of the grid they are given. A cell object is
  named by its place in the grid, the grid is the store, and every function that writes
  to a cell returns the grid it leaves behind.
\<close>

type_synonym pos = "nat \<times> nat"

definition in_grid :: "Grid \<Rightarrow> pos \<Rightarrow> bool" where
  "in_grid grid p \<longleftrightarrow> fst p < length grid \<and> snd p < length (grid ! fst p)"

definition cell_at :: "Grid \<Rightarrow> pos \<Rightarrow> Cell" where
  "cell_at grid p = grid ! fst p ! snd p"

definition set_cell :: "Grid \<Rightarrow> pos \<Rightarrow> Cell \<Rightarrow> Grid" where
  "set_cell grid p c = grid[fst p := (grid ! fst p)[snd p := c]]"

definition getAllNodes :: "Grid \<Rightarrow> pos list" where
  "getAllNodes grid =
     concat (map (\<lambda>r. map (\<lambda>c. (r, c)) [0..<length (grid ! r)]) [0..<length grid])"

text \<open>
  \<^verbatim>\<open>getNeighbors\<close>: up, down, left, right, by the \<^verbatim>\<open>row\<close> and \<^verbatim>\<open>col\<close> fields of
  the node. A candidate outside the grid is \<^verbatim>\<open>undefined\<close> (or a read of it), and the
  code throws before it has written anything.
\<close>

definition getNeighbors :: "Cell \<Rightarrow> Grid \<Rightarrow> js_error + pos list" where
  "getNeighbors node grid =
     (if grid = [] then Inl TypeError
      else
        (let r = row node; c = col node;
             neighbors =
               (if r > 0 then [(r - 1, c)] else []) @
               (if int r < int (length grid) - 1 then [(r + 1, c)] else []) @
               (if c > 0 then [(r, c - 1)] else []) @
               (if int c < int (length (grid ! 0)) - 1 then [(r, c + 1)] else [])
         in if list_all (in_grid grid) neighbors
            then Inr (filter (\<lambda>p. \<not> isVisited (cell_at grid p)) neighbors)
            else Inl TypeError))"

definition sortNodesByDistance :: "Grid \<Rightarrow> pos list \<Rightarrow> pos list" where
  "sortNodesByDistance grid unvisitedNodes =
     sort_key (\<lambda>p. distance (cell_at grid p)) unvisitedNodes"

definition updateUnvisitedNeighbors :: "pos \<Rightarrow> Grid \<Rightarrow> js_error + Grid" where
  "updateUnvisitedNeighbors node grid =
     (case getNeighbors (cell_at grid node) grid of
        Inl e \<Rightarrow> Inl e
      | Inr neighbors \<Rightarrow>
          Inr (fold (\<lambda>neighbor g.
                  set_cell g neighbor
                    ((cell_at g neighbor)
                       \<lparr>distance := distance (cell_at g node) + 1,
                        previousNode := Some (row (cell_at g node), col (cell_at g node))\<rparr>))
                 neighbors grid))"

function dijkstra_loop ::
  "pos \<Rightarrow> Grid \<Rightarrow> pos list \<Rightarrow> pos list \<Rightarrow> js_error + (pos list \<times> Grid)" where
  "dijkstra_loop endNode grid unvisitedNodes visitedNodesInOrder =
     (case sortNodesByDistance grid unvisitedNodes of
        [] \<Rightarrow> Inr (visitedNodesInOrder, grid)
      | closestNode # rest \<Rightarrow>
          if ctype (cell_at grid closestNode) = Wall
          then dijkstra_loop endNode grid rest visitedNodesInOrder
          else if distance (cell_at grid closestNode) = \<infinity>
          then Inr (visitedNodesInOrder, grid)
          else if row (cell_at grid closestNode) = row (cell_at grid endNode)
                  \<and> col (cell_at grid closestNode) = col (cell_at grid endNode)
          then Inr (visitedNodesInOrder @ [closestNode],
                    set_cell grid closestNode ((cell_at grid closestNode)\<lparr>isVisited := True\<rparr>))
          else (case updateUnvisitedNeighbors closestNode
                       (set_cell grid closestNode ((cell_at grid closestNode)\<lparr>isVisited := True\<rparr>)) of
                  Inl e \<Rightarrow> Inl e
                | Inr grid' \<Rightarrow>
                    dijkstra_loop endNode grid' rest (visitedNodesInOrder @ [closestNode])))"
  by pat_completeness auto
termination
proof (relation "measure (\<lambda>(endNode, grid, unvisitedNodes, visited). length unvisitedNodes)",
       goal_cases)
  case 1
  show ?case by simp
next
  case (2 endNode grid unvisitedNodes visited closestNode rest)
  then have "length (sortNodesByDistance grid unvisitedNodes) = Suc (length rest)" by simp
  then show ?case by (simp add: sortNodesByDistance_def)
next
  case (3 endNode grid unvisitedNodes visited closestNode rest grid')
  then have "length (sortNodesByDistance grid unvisitedNodes) = Suc (length rest)" by simp
  then show ?case by (simp add: sortNodesByDistance_def)
qed

declare dijkstra_loop.simps [simp del]

definition dijkstra :: "Grid \<Rightarrow> pos \<Rightarrow> pos \<Rightarrow> js_error + (pos list \<times> Grid)" where
  "dijkstra grid startNode endNode =
     (let grid0 = set_cell grid startNode ((cell_at grid startNode)\<lparr>distance := 0\<rparr>)
      in dijkstra_loop endNode grid0 (getAllNodes grid0) [])"

definition heuristic :: "Cell \<Rightarrow> Cell \<Rightarrow> nat" where
  "heuristic a b = nat \<bar>int (row a) - int (row b)\<bar> + nat \<bar>int (col a) - int (col b)\<bar>"

definition sortNodesByF :: "Grid \<Rightarrow> pos list \<Rightarrow> pos list" where
  "sortNodesByF grid nodes = sort_key (\<lambda>p. fScore (cell_at grid p)) nodes"

text \<open>The loop over the neighbours in \<^verbatim>\<open>aStar\<close>; the state is the grid and the open set.\<close>

fun aStar_neighbors :: "pos \<Rightarrow> pos \<Rightarrow> pos list \<Rightarrow> Grid \<times> pos list \<Rightarrow> Grid \<times> pos list" where
  "aStar_neighbors current endNode [] st = st"
| "aStar_neighbors current endNode (neighbor # neighbors) (grid, openSet) =
     (if isVisited (cell_at grid neighbor) \<or> ctype (cell_at grid neighbor) = Wall
      then aStar_neighbors current endNode neighbors (grid, openSet)
      else if gScore (cell_at grid neighbor) = 0
              \<or> gScore (cell_at grid current) + 1 < gScore (cell_at grid neighbor)
      then aStar_neighbors current endNode neighbors
             (set_cell grid neighbor
                ((cell_at grid neighbor)
                   \<lparr>previousNode := Some (row (cell_at grid current), col (cell_at grid current)),
                    fScore := gScore (cell_at grid current) + 1
                              + heuristic (cell_at grid neighbor) (cell_at grid endNode),
                    gScore := gScore (cell_at grid current) + 1,
                    hScore := heuristic (cell_at grid neighbor) (cell_at grid endNode)\<rparr>),
              if list_ex (\<lambda>node. row (cell_at grid node) = row (cell_at grid neighbor)
                                \<and> col (cell_at grid node) = col (cell_at grid neighbor)) openSet
              then openSet else openSet @ [neighbor])
      else aStar_neighbors current endNode neighbors (grid, openSet))"

partial_function (option) aStar_loop ::
  "pos \<Rightarrow> Grid \<Rightarrow> pos list \<Rightarrow> pos list \<Rightarrow> (js_error + (pos list \<times> Grid)) option" where
  "aStar_loop endNode grid openSet visitedNodesInOrder =
     (case sortNodesByF grid openSet of
        [] \<Rightarrow> Some (Inr (visitedNodesInOrder, grid))
      | current # rest \<Rightarrow>
          if ctype (cell_at grid current) = Wall
          then aStar_loop endNode grid rest visitedNodesInOrder
          else if row (cell_at grid current) = row (cell_at grid endNode)
                  \<and> col (cell_at grid current) = col (cell_at grid endNode)
          then Some (Inr (visitedNodesInOrder @ [current],
                          set_cell grid current ((cell_at grid current)\<lparr>isVisited := True\<rparr>)))
          else (case getNeighbors (cell_at grid current)
                       (set_cell grid current ((cell_at grid current)\<lparr>isVisited := True\<rparr>)) of
                  Inl e \<Rightarrow> Some (Inl e)
                | Inr neighbors \<Rightarrow>
                    (case aStar_neighbors current endNode neighbors
                            (set_cell grid current ((cell_at grid current)\<lparr>isVisited := True\<rparr>), rest) of
                       (grid', openSet') \<Rightarrow>
                         aStar_loop endNode grid' openSet' (visitedNodesInOrder @ [current]))))"

declare aStar_loop.simps [code]

definition aStar :: "Grid \<Rightarrow> pos \<Rightarrow> pos \<Rightarrow> (js_error + (pos list \<times> Grid)) option" where
  "aStar grid startNode endNode =
     (let s = cell_at grid startNode;
          grid0 = set_cell grid startNode
                    (s\<lparr>gScore := 0, hScore := heuristic s (cell_at grid endNode),
                       fScore := heuristic s (cell_at grid endNode)\<rparr>)
      in aStar_loop endNode grid0 [startNode] [])"

text \<open>
  \<^verbatim>\<open>getNodesInShortestPathOrder\<close> walks the \<^verbatim>\<open>previousNode\<close> fields; nothing in the
  code bounds the walk. A row outside the grid throws, a column outside the row gives
  \<^verbatim>\<open>undefined\<close>, which ends the loop.
\<close>

partial_function (option) shortestPath_loop ::
  "Grid \<Rightarrow> pos \<Rightarrow> pos list \<Rightarrow> (js_error + pos list) option" where
  "shortestPath_loop grid currentNode nodesInShortestPathOrder =
     (case previousNode (cell_at grid currentNode) of
        None \<Rightarrow> Some (Inr (currentNode # nodesInShortestPathOrder))
      | Some p \<Rightarrow>
          if fst p < length grid
          then if snd p < length (grid ! fst p)
               then shortestPath_loop grid p (currentNode # nodesInShortestPathOrder)
               else Some (Inr (currentNode # nodesInShortestPathOrder))
          else Some (Inl TypeError))"

declare shortestPath_loop.simps [code]

definition getNodesInShortestPathOrder :: "Grid \<Rightarrow> pos \<Rightarrow> (js_error + pos list) option" where
  "getNodesInShortestPathOrder grid finishNode = shortestPath_loop grid finishNode []"

section \<open>Pathfinding visualizer: the animation and its timers\<close>

text \<open>
  A pending timeout is its id, its delay and what its callback does. The callbacks of the
  pathfinding visualizer: mark a cell visited, start the shortest-path phase, mark a cell
  as path (the flag says whether it is the last one, which also ends the run).
\<close>

datatype GridTask =
    MarkVisited pos
  | RunShortestPath nat "pos list"
  | MarkPath pos bool

record PathVis =
  pv_grid :: Grid
  pv_startNode :: pos
  pv_endNode :: pos
  pv_isVisualizing :: bool
  pv_isPathFound :: bool
  pv_timeoutRef :: "nat option"
  pv_timers :: "(nat \<times> nat \<times> GridTask) list"
  pv_nextTimer :: nat
  pv_toasts :: nat

text \<open>\<^verbatim>\<open>animationTimeoutRef.current = setTimeout(callback, delay)\<close>\<close>

definition schedule :: "GridTask \<Rightarrow> nat \<Rightarrow> PathVis \<Rightarrow> PathVis" where
  "schedule task delay pv =
     pv\<lparr>pv_timers := pv_timers pv @ [(pv_nextTimer pv, delay, task)],
        pv_timeoutRef := Some (pv_nextTimer pv),
        pv_nextTimer := pv_nextTimer pv + 1\<rparr>"

definition clearTimeout :: "nat \<Rightarrow> (nat \<times> nat \<times> 'a) list \<Rightarrow> (nat \<times> nat \<times> 'a) list" where
  "clearTimeout tid ts = filter (\<lambda>t. fst t \<noteq> tid) ts"

text \<open>
  The loop of \<^verbatim>\<open>animateAlgorithm\<close>, over the nodes from index \<open>i\<close> on. The callback of a
  node reads the fields \<^verbatim>\<open>row\<close> and \<^verbatim>\<open>col\<close> of the cell object it was given.
\<close>

fun animateAlgorithm_for :: "nat \<Rightarrow> pos list \<Rightarrow> nat \<Rightarrow> pos list \<Rightarrow> PathVis \<Rightarrow> PathVis" where
  "animateAlgorithm_for animationSpeed path i [] pv =
     schedule (RunShortestPath animationSpeed path) (animationSpeed * i) pv"
| "animateAlgorithm_for animationSpeed path i (node # rest) pv =
     animateAlgorithm_for animationSpeed path (i + 1) rest
       (schedule (MarkVisited (row (cell_at (pv_grid pv) node), col (cell_at (pv_grid pv) node)))
          (animationSpeed * i) pv)"

definition animateAlgorithm :: "nat \<Rightarrow> pos list \<Rightarrow> pos list \<Rightarrow> PathVis \<Rightarrow> PathVis" where
  "animateAlgorithm speed visitedNodesInOrder nodesInShortestPathOrder pv =
     animateAlgorithm_for (101 - speed) nodesInShortestPathOrder 0 visitedNodesInOrder pv"

fun animateShortestPath_for :: "nat \<Rightarrow> nat \<Rightarrow> pos list \<Rightarrow> PathVis \<Rightarrow> PathVis" where
  "animateShortestPath_for animationSpeed i [] pv = pv"
| "animateShortestPath_for animationSpeed i (node # rest) pv =
     animateShortestPath_for animationSpeed (i + 1) rest
       (schedule (MarkPath (row (cell_at (pv_grid pv) node), col (cell_at (pv_grid pv) node)) (rest = []))
          (animationSpeed * i) pv)"

text \<open>The state update of both callbacks: the cell takes the new type unless it is start or end.\<close>

definition mark_cell :: "CellType \<Rightarrow> pos \<Rightarrow> Grid \<Rightarrow> js_error + Grid" where
  "mark_cell t p grid =
     (if in_grid grid p
      then Inr (set_cell grid p
                  ((cell_at grid p)
                     \<lparr>ctype := (if ctype (cell_at grid p) = Start \<or> ctype (cell_at grid p) = End
                                 then ctype (cell_at grid p) else t)\<rparr>))
      else Inl TypeError)"

fun run_task :: "GridTask \<Rightarrow> PathVis \<Rightarrow> js_error + PathVis" where
  "run_task (MarkVisited p) pv =
     (case mark_cell Visited p (pv_grid pv) of
        Inl e \<Rightarrow> Inl e
      | Inr g \<Rightarrow> Inr (pv\<lparr>pv_grid := g\<rparr>))"
| "run_task (RunShortestPath animationSpeed path) pv =
     Inr (animateShortestPath_for animationSpeed 0 path pv)"
| "run_task (MarkPath p isLast) pv =
     (case mark_cell Path p (pv_grid pv) of
        Inl e \<Rightarrow> Inl e
      | Inr g \<Rightarrow>
          Inr (if isLast
               then pv\<lparr>pv_grid := g, pv_isVisualizing := False, pv_isPathFound := True,
                       pv_toasts := pv_toasts pv + 1\<rparr>
               else pv\<lparr>pv_grid := g\<rparr>))"

text \<open>A pending timeout fires: it leaves the list and its callback runs.\<close>

definition fire :: "nat \<Rightarrow> PathVis \<Rightarrow> js_error + PathVis" where
  "fire tid pv =
     (case find (\<lambda>t. fst t = tid) (pv_timers pv) of
        None \<Rightarrow> Inr pv
      | Some t \<Rightarrow> run_task (snd (snd t)) (pv\<lparr>pv_timers := clearTimeout tid (pv_timers pv)\<rparr>))"

text \<open>\<^verbatim>\<open>resetGrid\<close>; the grid has \<open>rows\<close> by \<open>cols\<close> cells (20 by 50 in the source).\<close>

definition resetGrid :: "nat \<Rightarrow> nat \<Rightarrow> PathVis \<Rightarrow> PathVis" where
  "resetGrid rows cols pv =
     pv\<lparr>pv_timers := (case pv_timeoutRef pv of
                         None \<Rightarrow> pv_timers pv
                       | Some tid \<Rightarrow> clearTimeout tid (pv_timers pv)),
        pv_timeoutRef := None,
        pv_grid := initializeGrid rows cols (pv_startNode pv) (pv_endNode pv),
        pv_isVisualizing := False,
        pv_isPathFound := False\<rparr>"

text \<open>
  \<^verbatim>\<open>visualizeAlgorithm\<close>: the recorder runs on the grid of the component and writes into
  its cells, then the shortest path is read off them and the animation is scheduled. The
  result is \<open>None\<close> when the recorder or the walk along \<^verbatim>\<open>previousNode\<close> does not return.
  The start and the end position are taken to name cells of the grid; for a position
  outside it the model reports the TypeError without following the code further.
\<close>

definition run_recorder :: "string \<Rightarrow> Grid \<Rightarrow> pos \<Rightarrow> pos \<Rightarrow> (js_error + (pos list \<times> Grid)) option" where
  "run_recorder algorithm grid s e =
     (if algorithm = ''aStar'' then aStar grid s e else Some (dijkstra grid s e))"

definition visualizeAlgorithm :: "string \<Rightarrow> nat \<Rightarrow> PathVis \<Rightarrow> (js_error + PathVis) option" where
  "visualizeAlgorithm algorithm speed pv =
     (if in_grid (pv_grid pv) (pv_startNode pv) \<and> in_grid (pv_grid pv) (pv_endNode pv)
      then
        (case run_recorder algorithm (pv_grid pv) (pv_startNode pv) (pv_endNode pv) of
           None \<Rightarrow> None
         | Some (Inl e) \<Rightarrow> Some (Inl e)
         | Some (Inr (visitedNodesInOrder, grid')) \<Rightarrow>
             (case getNodesInShortestPathOrder grid' (pv_endNode pv) of
                None \<Rightarrow> None
              | Some (Inl e) \<Rightarrow> Some (Inl e)
              | Some (Inr nodesInShortestPathOrder) \<Rightarrow>
                  Some (Inr (animateAlgorithm speed visitedNodesInOrder nodesInShortestPathOrder
                               (pv\<lparr>pv_grid := grid', pv_isVisualizing := True\<rparr>)))))
      else Some (Inl TypeError))"

section \<open>Graph traversal visualizer\<close>

datatype NodeState = NDefault | NVisited | NCurrent | NQueued

text \<open>
  A node of the graph. Its fields \<^verbatim>\<open>id\<close>, \<^verbatim>\<open>x\<close>, \<^verbatim>\<open>y\<close> and \<^verbatim>\<open>state\<close> carry the
  prefix \<open>node_\<close> here.
\<close>

record Node =
  node_id :: nat
  node_x :: real
  node_y :: real
  connections :: "nat list"
  node_state :: NodeState

text \<open>
  \<^verbatim>\<open>visited\<close> is a JavaScript array of booleans indexed by node id. Reading past its end
  gives \<^verbatim>\<open>undefined\<close>, which is falsy; writing past its end lengthens it.
\<close>

definition vis_get :: "bool list \<Rightarrow> nat \<Rightarrow> bool" where
  "vis_get visited k \<longleftrightarrow> k < length visited \<and> visited ! k"

definition vis_set :: "bool list \<Rightarrow> nat \<Rightarrow> bool list" where
  "vis_set visited k =
     (if k < length visited then visited[k := True]
      else visited @ replicate (k - length visited) False @ [True])"

definition find_node :: "Node list \<Rightarrow> nat \<Rightarrow> Node option" where
  "find_node nodes nodeId = find (\<lambda>n. node_id n = nodeId) nodes"

subsection \<open>runBFS\<close>

fun bfs_neighbors :: "nat list \<Rightarrow> bool list \<times> nat list \<Rightarrow> bool list \<times> nat list" where
  "bfs_neighbors [] st = st"
| "bfs_neighbors (neighborId # rest) (visited, queue) =
     (if \<not> vis_get visited neighborId
      then bfs_neighbors rest (vis_set visited neighborId, queue @ [neighborId])
      else bfs_neighbors rest (visited, queue))"

text \<open>For termination: the ids that some node names as a neighbour, and those of a set not yet marked.\<close>

definition neighbour_ids :: "Node list \<Rightarrow> nat set" where
  "neighbour_ids nodes = (\<Union>n \<in> set nodes. set (connections n))"

definition unmarked :: "nat set \<Rightarrow> bool list \<Rightarrow> nat set" where
  "unmarked X visited = {k \<in> X. \<not> vis_get visited k}"

lemma vis_get_vis_set: "vis_get (vis_set visited k) j \<longleftrightarrow> j = k \<or> vis_get visited j"
  by (auto simp: vis_get_def vis_set_def nth_list_update nth_append)

lemma finite_neighbour_ids: "finite (neighbour_ids nodes)"
  by (simp add: neighbour_ids_def)

lemma finite_unmarked: "finite X \<Longrightarrow> finite (unmarked X visited)"
  by (simp add: unmarked_def)

lemma unmarked_vis_set:
  "unmarked X (vis_set visited k) = unmarked X visited - {k}"
  by (auto simp: unmarked_def vis_get_vis_set)

lemma bfs_neighbors_measure:
  "finite X \<Longrightarrow> set ns \<subseteq> X \<Longrightarrow>
   bfs_neighbors ns (visited, queue) = (visited', queue') \<Longrightarrow>
   card (unmarked X visited') + length queue' = card (unmarked X visited) + length queue"
proof (induction ns arbitrary: visited queue)
  case Nil
  then show ?case by simp
next
  case (Cons k ns)
  show ?case
  proof (cases "vis_get visited k")
    case True
    with Cons show ?thesis by simp
  next
    case False
    with Cons.prems have k: "k \<in> unmarked X visited"
      by (auto simp: unmarked_def)
    from False Cons.prems have
      "bfs_neighbors ns (vis_set visited k, queue @ [k]) = (visited', queue')" by simp
    from Cons.IH [OF Cons.prems(1) _ this] Cons.prems(2) have
      "card (unmarked X visited') + length queue'
         = card (unmarked X (vis_set visited k)) + length (queue @ [k])" by simp
    also have "\<dots> = card (unmarked X visited - {k}) + length queue + 1"
      by (simp add: unmarked_vis_set)
    also have "\<dots> = card (unmarked X visited) + length queue"
      using card_Suc_Diff1 [OF finite_unmarked [OF Cons.prems(1), of visited] k]
      by simp
    finally show ?thesis .
  qed
qed

lemma find_node_in: "find_node nodes k = Some n \<Longrightarrow> n \<in> set nodes"
  by (auto simp: find_node_def find_Some_iff)

function bfs_loop :: "Node list \<Rightarrow> bool list \<times> nat list \<Rightarrow> nat list \<Rightarrow> nat list" where
  "bfs_loop nodes (visited, []) visitOrder = visitOrder"
| "bfs_loop nodes (visited, nodeId # queue) visitOrder =
     (case find_node nodes nodeId of
        None \<Rightarrow> bfs_loop nodes (visited, queue) (visitOrder @ [nodeId])
      | Some node \<Rightarrow>
          bfs_loop nodes (bfs_neighbors (connections node) (visited, queue)) (visitOrder @ [nodeId]))"
  by pat_completeness auto
termination
proof (relation "measure (\<lambda>(nodes, (visited, queue), visitOrder).
                   card (unmarked (neighbour_ids nodes) visited) + length queue)", goal_cases)
  case 1
  show ?case by simp
next
  case (2 nodes visited nodeId queue visitOrder)
  show ?case by simp
next
  case (3 nodes visited nodeId queue visitOrder node)
  obtain visited' queue' where r: "bfs_neighbors (connections node) (visited, queue) = (visited', queue')"
    by (cases "bfs_neighbors (connections node) (visited, queue)") auto
  from 3 have "set (connections node) \<subseteq> neighbour_ids nodes"
    by (auto simp: neighbour_ids_def dest: find_node_in)
  from bfs_neighbors_measure [OF finite_neighbour_ids this r] show ?case by (simp add: r)
qed

declare bfs_loop.simps [simp del]

definition runBFS :: "Node list \<Rightarrow> nat option \<Rightarrow> nat list option" where
  "runBFS nodes startNode =
     (case startNode of
        None \<Rightarrow> None
      | Some s \<Rightarrow> Some (bfs_loop nodes (vis_set (replicate (length nodes) False) s, [s]) []))"

subsection \<open>runDFS\<close>

function dfs :: "Node list \<Rightarrow> nat \<Rightarrow> bool list \<times> nat list \<Rightarrow> bool list \<times> nat list"
  and dfs_for :: "Node list \<Rightarrow> nat list \<Rightarrow> bool list \<times> nat list \<Rightarrow> bool list \<times> nat list" where
  "dfs nodes nodeId (visited, visitOrder) =
     (case find_node nodes nodeId of
        None \<Rightarrow> (vis_set visited nodeId, visitOrder @ [nodeId])
      | Some node \<Rightarrow>
          dfs_for nodes (connections node) (vis_set visited nodeId, visitOrder @ [nodeId]))"
| "dfs_for nodes [] st = st"
| "dfs_for nodes (neighborId # rest) st =
     (if \<not> vis_get (fst st) neighborId
      then dfs_for nodes rest (dfs nodes neighborId st)
      else dfs_for nodes rest st)"
  by pat_completeness auto

lemma dfs_marks:
  "dfs_dfs_for_dom (Inl (nodes, k, st)) \<Longrightarrow>
     vis_get (fst (dfs nodes k st)) k \<and> (\<forall>j. vis_get (fst st) j \<longrightarrow> vis_get (fst (dfs nodes k st)) j)"
  "dfs_dfs_for_dom (Inr (nodes, ks, st)) \<Longrightarrow>
     (\<forall>j. vis_get (fst st) j \<longrightarrow> vis_get (fst (dfs_for nodes ks st)) j)"
proof (induction nodes k st and nodes ks st rule: dfs_dfs_for.pinduct)
  case (1 nodes nodeId visited visitOrder)
  show ?case
  proof (cases "find_node nodes nodeId")
    case None
    with 1(1) show ?thesis by (simp add: dfs.psimps vis_get_vis_set)
  next
    case (Some node)
    with 1(1) 1(2) [OF Some] show ?thesis
      by (simp add: dfs.psimps vis_get_vis_set)
  qed
next
  case (2 nodes st)
  then show ?case by (simp add: dfs_for.psimps)
next
  case (3 nodes neighborId rest st)
  show ?case
  proof (cases "vis_get (fst st) neighborId")
    case True
    with 3(1) 3(4) show ?thesis by (simp add: dfs_for.psimps)
  next
    case False
    with 3(1) 3(2) 3(3) show ?thesis by (simp add: dfs_for.psimps)
  qed
qed

termination dfs
proof (relation "inv_image (less_than <*lex*> less_than <*lex*> less_than)
                   (\<lambda>a. case a of
                      Inl (nodes, k, st) \<Rightarrow>
                        (card (unmarked (neighbour_ids nodes) (fst st) - {k}), Suc 0, 0)
                    | Inr (nodes, ks, st) \<Rightarrow>
                        (card (unmarked (neighbour_ids nodes \<union> set ks) (fst st)), 0, length ks))",
       goal_cases)
  case 1
  show ?case by (intro wf_inv_image wf_lex_prod wf_less_than)
next
  case (2 nodes nodeId visited visitOrder node)
  then have "set (connections node) \<subseteq> neighbour_ids nodes"
    by (auto simp: neighbour_ids_def dest: find_node_in)
  then have "neighbour_ids nodes \<union> set (connections node) = neighbour_ids nodes" by auto
  then show ?case by (simp add: unmarked_vis_set)
next
  case (3 nodes neighborId rest st)
  let ?X = "neighbour_ids nodes \<union> set (neighborId # rest)"
  have fin: "finite (unmarked ?X (fst st))"
    by (intro finite_unmarked) (simp add: finite_neighbour_ids)
  have "neighborId \<in> unmarked ?X (fst st)"
    using 3 by (simp add: unmarked_def)
  then have "card (unmarked ?X (fst st) - {neighborId}) < card (unmarked ?X (fst st))"
    using fin by (meson card_Diff1_less)
  moreover have "unmarked (neighbour_ids nodes) (fst st) - {neighborId}
                   \<subseteq> unmarked ?X (fst st) - {neighborId}"
    by (auto simp: unmarked_def)
  then have "card (unmarked (neighbour_ids nodes) (fst st) - {neighborId})
               \<le> card (unmarked ?X (fst st) - {neighborId})"
    using fin by (intro card_mono) auto
  ultimately show ?case by simp
next
  case (4 nodes neighborId rest st)
  let ?X = "neighbour_ids nodes \<union> set (neighborId # rest)"
  have fin: "finite (unmarked ?X (fst st))"
    by (intro finite_unmarked) (simp add: finite_neighbour_ids)
  have mono: "\<And>j. vis_get (fst st) j \<Longrightarrow> vis_get (fst (dfs nodes neighborId st)) j"
    using dfs_marks(1) [OF 4(2)] by simp
  have "unmarked (neighbour_ids nodes \<union> set rest) (fst (dfs nodes neighborId st))
       \<subseteq> unmarked ?X (fst st)"
  proof
    fix j
    assume "j \<in> unmarked (neighbour_ids nodes \<union> set rest) (fst (dfs nodes neighborId st))"
    then have "j \<in> neighbour_ids nodes \<union> set rest"
      and "\<not> vis_get (fst (dfs nodes neighborId st)) j"
      by (simp_all add: unmarked_def)
    with mono [of j] show "j \<in> unmarked ?X (fst st)"
      by (auto simp: unmarked_def)
  qed
  then have "card (unmarked (neighbour_ids nodes \<union> set rest) (fst (dfs nodes neighborId st)))
               \<le> card (unmarked ?X (fst st))"
    using fin by (intro card_mono)
  then show ?case by (simp add: le_less)
next
  case (5 nodes neighborId rest st)
  let ?X = "neighbour_ids nodes \<union> set (neighborId # rest)"
  have fin: "finite (unmarked ?X (fst st))"
    by (intro finite_unmarked) (simp add: finite_neighbour_ids)
  have "unmarked (neighbour_ids nodes \<union> set rest) (fst st) \<subseteq> unmarked ?X (fst st)"
    by (auto simp: unmarked_def)
  then have "card (unmarked (neighbour_ids nodes \<union> set rest) (fst st))
               \<le> card (unmarked ?X (fst st))"
    using fin by (intro card_mono)
  then show ?case by (simp add: le_less)
qed

declare dfs.simps [simp del]
declare dfs_for.simps [simp del]

definition runDFS :: "Node list \<Rightarrow> nat option \<Rightarrow> nat list option" where
  "runDFS nodes startNode =
     (case startNode of
        None \<Rightarrow> None
      | Some s \<Rightarrow> Some (snd (dfs nodes s (replicate (length nodes) False, []))))"

section \<open>Graph traversal visualizer: the animation and its timers\<close>

datatype NodeTask =
    TraversalStep string nat "nat list" nat
  | TraversalDone

record GraphVis =
  gv_nodes :: "Node list"
  gv_startNode :: "nat option"
  gv_isVisualizing :: bool
  gv_isComplete :: bool
  gv_timeoutRef :: "nat option"
  gv_timers :: "(nat \<times> nat \<times> NodeTask) list"
  gv_nextTimer :: nat
  gv_toasts :: nat

text \<open>The first node with the given id takes the new state (\<^verbatim>\<open>findIndex\<close>, then a write).\<close>

fun set_state_of :: "nat \<Rightarrow> (NodeState \<Rightarrow> NodeState) \<Rightarrow> Node list \<Rightarrow> Node list" where
  "set_state_of k f [] = []"
| "set_state_of k f (n # ns) =
     (if node_id n = k then n\<lparr>node_state := f (node_state n)\<rparr> # ns else n # set_state_of k f ns)"

text \<open>
  The state update of step \<open>i\<close> of \<^verbatim>\<open>animateTraversal\<close>. For BFS it reads the connections
  of the current node; when no node has that id, \<^verbatim>\<open>newNodes[-1]\<close> is \<^verbatim>\<open>undefined\<close> and the
  read throws.
\<close>

definition traversal_step :: "string \<Rightarrow> nat \<Rightarrow> nat list \<Rightarrow> Node list \<Rightarrow> js_error + Node list" where
  "traversal_step algorithm i visitOrder nodes =
     (let nodes1 = (if i > 0 then set_state_of (visitOrder ! (i - 1)) (\<lambda>_. NVisited) nodes else nodes);
          nodes2 = set_state_of (visitOrder ! i) (\<lambda>_. NCurrent) nodes1
      in if algorithm = ''bfs''
         then (case find_node nodes2 (visitOrder ! i) of
                 None \<Rightarrow> Inl TypeError
               | Some currentNode \<Rightarrow>
                   Inr (fold (\<lambda>neighborId ns.
                                set_state_of neighborId
                                  (\<lambda>s. if s = NDefault then NQueued else s) ns)
                          (connections currentNode) nodes2))
         else Inr nodes2)"

text \<open>
  \<^verbatim>\<open>animateTraversal\<close>: one timeout per visited node, each stored in
  \<^verbatim>\<open>animationTimeoutRef.current\<close>.
\<close>

definition gv_schedule :: "NodeTask \<Rightarrow> nat \<Rightarrow> GraphVis \<Rightarrow> GraphVis" where
  "gv_schedule task delay gv =
     gv\<lparr>gv_timers := gv_timers gv @ [(gv_nextTimer gv, delay, task)],
        gv_timeoutRef := Some (gv_nextTimer gv),
        gv_nextTimer := gv_nextTimer gv + 1\<rparr>"

function animateTraversal_for :: "string \<Rightarrow> nat \<Rightarrow> nat list \<Rightarrow> nat \<Rightarrow> GraphVis \<Rightarrow> GraphVis" where
  "animateTraversal_for algorithm animationSpeed visitOrder i gv =
     (if i < length visitOrder
      then animateTraversal_for algorithm animationSpeed visitOrder (i + 1)
             (gv_schedule (TraversalStep algorithm i visitOrder animationSpeed)
                (animationSpeed * i * 2) gv)
      else gv)"
  by pat_completeness auto
termination
  by (relation "measure (\<lambda>(algorithm, animationSpeed, visitOrder, i, gv). length visitOrder - i)") auto

declare animateTraversal_for.simps [simp del]

definition animateTraversal :: "string \<Rightarrow> nat \<Rightarrow> nat list \<Rightarrow> GraphVis \<Rightarrow> GraphVis" where
  "animateTraversal algorithm speed visitOrder gv =
     animateTraversal_for algorithm (101 - speed) visitOrder 0 gv"

text \<open>
  The callbacks. The last step sets one more timeout, whose id is not stored anywhere.
\<close>

fun gv_run_task :: "NodeTask \<Rightarrow> GraphVis \<Rightarrow> js_error + GraphVis" where
  "gv_run_task (TraversalStep algorithm i visitOrder animationSpeed) gv =
     (case traversal_step algorithm i visitOrder (gv_nodes gv) of
        Inl e \<Rightarrow> Inl e
      | Inr ns \<Rightarrow>
          Inr (if int i = int (length visitOrder) - 1
               then gv\<lparr>gv_nodes := ns,
                       gv_timers := gv_timers gv @ [(gv_nextTimer gv, animationSpeed, TraversalDone)],
                       gv_nextTimer := gv_nextTimer gv + 1\<rparr>
               else gv\<lparr>gv_nodes := ns\<rparr>))"
| "gv_run_task TraversalDone gv =
     Inr (gv\<lparr>gv_nodes := map (\<lambda>n. n\<lparr>node_state := (if node_state n = NCurrent then NVisited else node_state n)\<rparr>)
                              (gv_nodes gv),
             gv_isVisualizing := False, gv_isComplete := True, gv_toasts := gv_toasts gv + 1\<rparr>)"

definition gv_fire :: "nat \<Rightarrow> GraphVis \<Rightarrow> js_error + GraphVis" where
  "gv_fire tid gv =
     (case find (\<lambda>t. fst t = tid) (gv_timers gv) of
        None \<Rightarrow> Inr gv
      | Some t \<Rightarrow> gv_run_task (snd (snd t)) (gv\<lparr>gv_timers := filter (\<lambda>t. fst t \<noteq> tid) (gv_timers gv)\<rparr>))"

definition resetGraph :: "GraphVis \<Rightarrow> GraphVis" where
  "resetGraph gv =
     gv\<lparr>gv_timers := (case gv_timeoutRef gv of
                         None \<Rightarrow> gv_timers gv
                       | Some tid \<Rightarrow> filter (\<lambda>t. fst t \<noteq> tid) (gv_timers gv)),
        gv_timeoutRef := None,
        gv_nodes := map (\<lambda>n. n\<lparr>node_state := NDefault\<rparr>) (gv_nodes gv),
        gv_isVisualizing := False,
        gv_isComplete := False\<rparr>"

text \<open>
  \<^verbatim>\<open>visualizeAlgorithm\<close> of the graph visualizer: without a start node nothing happens;
  an algorithm other than \<^verbatim>\<open>bfs\<close> and \<^verbatim>\<open>dfs\<close> records nothing.
\<close>

definition gv_visualizeAlgorithm :: "string \<Rightarrow> nat \<Rightarrow> GraphVis \<Rightarrow> GraphVis" where
  "gv_visualizeAlgorithm algorithm speed gv =
     (case gv_startNode gv of
        None \<Rightarrow> gv
      | Some s \<Rightarrow>
          (let gv1 = gv\<lparr>gv_isVisualizing := True, gv_isComplete := False,
                        gv_nodes := map (\<lambda>n. n\<lparr>node_state := (if node_id n = s then NCurrent else NDefault)\<rparr>)
                                      (gv_nodes gv)\<rparr>
           in if algorithm = ''bfs''
              then (case runBFS (gv_nodes gv) (Some s) of
                      None \<Rightarrow> gv1
                    | Some visitOrder \<Rightarrow> animateTraversal algorithm speed visitOrder gv1)
              else if algorithm = ''dfs''
              then (case runDFS (gv_nodes gv) (Some s) of
                      None \<Rightarrow> gv1
                    | Some visitOrder \<Rightarrow> animateTraversal algorithm speed visitOrder gv1)
              else gv1))"

section \<open>Initial states and small inputs\<close>

text \<open>The sorting visualizer before a run, showing the given values.\<close>

definition sv_of :: "int list \<Rightarrow> SortingVis" where
  "sv_of vs = \<lparr>sv_array = map slot_of (bars vs), sv_isSorting = False, sv_isSorted = False,
              sv_pending = None, sv_toasts = 0\<rparr>"

text \<open>The state a call left, when it returned.\<close>

definition left_state :: "(js_error + (Animation list \<times> SortingVis)) option \<Rightarrow> SortingVis option" where
  "left_state r = (case r of Some (Inr (es, sv)) \<Rightarrow> Some sv | _ \<Rightarrow> None)"

text \<open>The pathfinding visualizer before a run, with no timeout pending.\<close>

definition pv0 :: "Grid \<Rightarrow> pos \<Rightarrow> pos \<Rightarrow> PathVis" where
  "pv0 g s e =
     \<lparr>pv_grid = g, pv_startNode = s, pv_endNode = e,
      pv_isVisualizing = False, pv_isPathFound = False, pv_timeoutRef = None,
      pv_timers = [], pv_nextTimer = 1, pv_toasts = 0\<rparr>"

text \<open>A corridor of three cells from start to end, and the same with a wall in the middle.\<close>

definition corridor :: Grid where
  "corridor = initializeGrid 1 3 (0, 0) (0, 2)"


text \<open>The path graph 0 - 1 - 2, and the graph visualizer before a run.\<close>

definition path3 :: "Node list" where
  "path3 = [\<lparr>node_id = 0, node_x = 0, node_y = 0, connections = [1], node_state = NDefault\<rparr>,
            \<lparr>node_id = 1, node_x = 0, node_y = 0, connections = [0, 2], node_state = NDefault\<rparr>,
            \<lparr>node_id = 2, node_x = 0, node_y = 0, connections = [1], node_state = NDefault\<rparr>]"

definition gv0 :: "Node list \<Rightarrow> nat option \<Rightarrow> GraphVis" where
  "gv0 ns s = \<lparr>gv_nodes = ns, gv_startNode = s, gv_isVisualizing = False, gv_isComplete = False,
               gv_timeoutRef = None, gv_timers = [], gv_nextTimer = 1, gv_toasts = 0\<rparr>"

section \<open>Properties of the grid editor\<close>

text \<open>
  C10. For every grid and every cell position inside it, \<^verbatim>\<open>toggleWall\<close> returns a
  grid of the same shape in which every cell other than the addressed one is unchanged,
  the addressed cell differs from the old one at most in its type field, an empty cell
  has become a wall and a wall an empty cell, and a start or end cell is left as it was.
\<close>

theorem toggleWall_frame:
  assumes "r < length grid" and "c < length (grid ! r)"
  shows "\<exists>grid'. toggleWall grid r c = Inr grid'
           \<and> length grid' = length grid
           \<and> (\<forall>i < length grid. length (grid' ! i) = length (grid ! i))
           \<and> (\<forall>i j. i < length grid \<longrightarrow> j < length (grid ! i) \<longrightarrow> (i, j) \<noteq> (r, c)
                 \<longrightarrow> grid' ! i ! j = grid ! i ! j)
           \<and> (grid' ! r ! c)\<lparr>ctype := ctype (grid ! r ! c)\<rparr> = grid ! r ! c
           \<and> (ctype (grid ! r ! c) = Empty \<longrightarrow> ctype (grid' ! r ! c) = Wall)
           \<and> (ctype (grid ! r ! c) = Wall \<longrightarrow> ctype (grid' ! r ! c) = Empty)
           \<and> (ctype (grid ! r ! c) = Start \<or> ctype (grid ! r ! c) = End \<longrightarrow> grid' = grid)"
proof (cases "ctype (grid ! r ! c) \<noteq> Start \<and> ctype (grid ! r ! c) \<noteq> End")
  case True
  let ?n = "(grid ! r ! c)\<lparr>ctype := (if ctype (grid ! r ! c) = Wall then Empty else Wall)\<rparr>"
  let ?g = "grid[r := (grid ! r)[c := ?n]]"
  have eq: "toggleWall grid r c = Inr ?g"
    using assms True by (simp add: toggleWall_def Let_def)
  have shape: "\<forall>i < length grid. length (?g ! i) = length (grid ! i)"
    using assms by (simp add: nth_list_update)
  have others: "\<forall>i j. i < length grid \<longrightarrow> j < length (grid ! i) \<longrightarrow> (i, j) \<noteq> (r, c)
                 \<longrightarrow> ?g ! i ! j = grid ! i ! j"
    using assms by (auto simp: nth_list_update)
  have here: "?g ! r ! c = ?n"
    using assms by simp
  have t1: "ctype (grid ! r ! c) = Empty \<longrightarrow> ctype ?n = Wall"
    and t2: "ctype (grid ! r ! c) = Wall \<longrightarrow> ctype ?n = Empty"
    and t3: "?n\<lparr>ctype := ctype (grid ! r ! c)\<rparr> = grid ! r ! c"
    by simp_all
  have len: "length ?g = length grid" by simp
  show ?thesis
  proof (intro exI[of _ ?g] conjI)
    show "toggleWall grid r c = Inr ?g" by (rule eq)
    show "length ?g = length grid" by (rule len)
    show "\<forall>i < length grid. length (?g ! i) = length (grid ! i)" by (rule shape)
    show "\<forall>i j. i < length grid \<longrightarrow> j < length (grid ! i) \<longrightarrow> (i, j) \<noteq> (r, c)
                 \<longrightarrow> ?g ! i ! j = grid ! i ! j" by (rule others)
    show "(?g ! r ! c)\<lparr>ctype := ctype (grid ! r ! c)\<rparr> = grid ! r ! c"
      unfolding here by (rule t3)
    show "ctype (grid ! r ! c) = Empty \<longrightarrow> ctype (?g ! r ! c) = Wall"
      unfolding here by (rule t1)
    show "ctype (grid ! r ! c) = Wall \<longrightarrow> ctype (?g ! r ! c) = Empty"
      unfolding here by (rule t2)
    show "ctype (grid ! r ! c) = Start \<or> ctype (grid ! r ! c) = End \<longrightarrow> ?g = grid"
      using True by simp
  qed
next
  case False
  then have "toggleWall grid r c = Inr grid"
    using assms by (auto simp: toggleWall_def Let_def)
  then show ?thesis using False by auto
qed

theorem toggleWall_frame_witness:
  "(0::nat) < length (initializeGrid 1 3 (0, 0) (0, 2))
   \<and> (1::nat) < length (initializeGrid 1 3 (0, 0) (0, 2) ! 0)
   \<and> (\<exists>grid'. toggleWall (initializeGrid 1 3 (0, 0) (0, 2)) 0 1 = Inr grid'
         \<and> ctype (grid' ! 0 ! 1) = Wall \<and> grid' ! 0 ! 0 = initializeGrid 1 3 (0, 0) (0, 2) ! 0 ! 0)"
proof -
  let ?g = "initializeGrid 1 3 (0, 0) (0, 2)"
  have g: "?g = [[createNode (0, 0) (0, 2) 0 0, createNode (0, 0) (0, 2) 0 1, createNode (0, 0) (0, 2) 0 2]]"
    by (simp add: initializeGrid_def upt_rec eval_nat_numeral)
  have h1: "(0::nat) < length ?g" and h2: "(1::nat) < length (?g ! 0)"
    unfolding g by simp_all
  have e: "ctype (?g ! 0 ! 1) = Empty"
    unfolding g by (simp add: createNode_def)
  from toggleWall_frame [OF h1 h2] obtain grid' where
    t: "toggleWall ?g 0 1 = Inr grid'"
    and o: "\<forall>i j. i < length ?g \<longrightarrow> j < length (?g ! i) \<longrightarrow> (i, j) \<noteq> (0, 1)
                 \<longrightarrow> grid' ! i ! j = ?g ! i ! j"
    and w: "ctype (?g ! 0 ! 1) = Empty \<longrightarrow> ctype (grid' ! 0 ! 1) = Wall"
    by blast
  have h3: "(0::nat) < length (?g ! 0)"
    using h2 by linarith
  have "grid' ! 0 ! 0 = ?g ! 0 ! 0"
    using o [rule_format, of 0 0, OF h1 h3] by simp
  then show ?thesis
    using h1 h2 t w e by blast
qed

section \<open>Properties of the playback of the sorting events\<close>

text \<open>
  The effect starts a run only from a state whose \<^verbatim>\<open>isSorting\<close> is false, and the guard
  of \<^verbatim>\<open>animate\<close> reads that value: whatever the recorder recorded, the run applies no
  event, schedules no tick and only sets \<^verbatim>\<open>isSorting\<close>.
\<close>

lemma startSorting_unseen:
  assumes "typed_array (sv_array sv) = Some bs"
  shows "startSorting algorithm False sv = Some (Inr ([], sv\<lparr>sv_isSorting := True\<rparr>))"
  using assms by (simp add: startSorting_def animateSort_def animate_def)

lemma playEffect_applies_nothing:
  assumes "typed_array (sv_array sv) = Some bs" and "\<not> sv_isSorting sv" and "\<not> sv_isSorted sv"
  shows "playEffect algorithm True sv = Some (Inr ([], sv\<lparr>sv_isSorting := True\<rparr>))"
  using assms startSorting_unseen [OF assms(1)] by (simp add: playEffect_def)

text \<open>
  C4 fails on the code. On the values 2 and 1 bubble sort records five events. Pressing
  play applies none of them and leaves no tick scheduled, so no number of ticks applies
  one. Pausing gives back the state before the run, and pressing play again is the first
  step once more: a new recording, and again no event applied. No event of the recorded
  sequence is applied at any index, before or after the pause.
\<close>

theorem play_applies_no_event:
  "recorder ''bubbleSort'' (bars [2, 1])
     = [Compare 0 1, Swap 0 1, Reset [0, 1], SortedEv [1], SortedEv [0]]
   \<and> playEffect ''bubbleSort'' True (sv_of [2, 1])
       = Some (Inr ([], (sv_of [2, 1])\<lparr>sv_isSorting := True\<rparr>))
   \<and> ticks 5 ((sv_of [2, 1])\<lparr>sv_isSorting := True\<rparr>)
       = Inr ([], (sv_of [2, 1])\<lparr>sv_isSorting := True\<rparr>)
   \<and> playEffect ''bubbleSort'' False ((sv_of [2, 1])\<lparr>sv_isSorting := True\<rparr>)
       = Some (Inr ([], sv_of [2, 1]))"
  by code_simp

text \<open>
  C6, as stated, fails twice. \<^verbatim>\<open>insertionSort\<close> on the empty array records one event.
  And with the empty array \<^verbatim>\<open>startSorting\<close> (here with bubble sort) leaves the session
  sorting, not sorted, with no toast: \<^verbatim>\<open>animateSort\<close> returns before \<^verbatim>\<open>animate\<close> is made.
\<close>

theorem empty_dataset_counterexample:
  "insertionSort [] = [SortedEv [0]]
   \<and> left_state (startSorting ''bubbleSort'' True (sv_of []))
       = Some \<lparr>sv_array = [], sv_isSorting = True, sv_isSorted = False, sv_pending = None,
               sv_toasts = 0\<rparr>"
  by code_simp

text \<open>
  C6, amended. On the empty array \<^verbatim>\<open>bubbleSort\<close>, \<^verbatim>\<open>mergeSort\<close> and \<^verbatim>\<open>quickSort\<close>
  record no event, and \<^verbatim>\<open>animateSort\<close> with no event returns at once: it applies
  nothing, marks nothing complete and shows no toast.
\<close>

theorem empty_dataset_no_completion:
  "bubbleSort [] = [] \<and> mergeSort [] = [] \<and> quickSort [] = []
   \<and> animateSort [] seen sv = Inr ([], sv)"
proof -
  have "bubbleSort [] = [] \<and> mergeSort [] = [] \<and> quickSort [] = []" by code_simp
  then show ?thesis by (simp add: animateSort_def)
qed

text \<open>
  C7 fails on the code. Replaying all events of \<^verbatim>\<open>mergeSort\<close> on the values 2 and 1
  throws at the third event, a reset of index \<open>-1\<close>, when the array shows the value 1 twice
  and the value 2 nowhere. Replaying all events of \<^verbatim>\<open>insertionSort\<close> on the empty array
  leaves an array of one bar without a value.
\<close>

theorem replay_creates_or_throws:
  "replay (mergeSort (bars [2, 1])) (map slot_of (bars [2, 1])) = Inl TypeError
   \<and> replay (take 2 (mergeSort (bars [2, 1]))) (map slot_of (bars [2, 1]))
       = Inr [Bar (Some 1) Comparing, Bar (Some 1) Comparing]
   \<and> replay (insertionSort []) [] = Inr [Bar None Sorted]"
  by code_simp

section \<open>Properties of the timers\<close>

text \<open>
  C3 fails on the code. Each timeout of \<^verbatim>\<open>animateAlgorithm\<close> and \<^verbatim>\<open>animateTraversal\<close>
  overwrites \<^verbatim>\<open>animationTimeoutRef.current\<close>, and a reset clears the one timeout the
  reference names. On the corridor, the Dijkstra run sets four timeouts and \<^verbatim>\<open>resetGrid\<close>
  leaves three of them pending; when the second fires after the reset, the middle cell of
  the new grid becomes visited. On the path graph, \<^verbatim>\<open>resetGraph\<close> leaves two of the three
  timeouts of the BFS run pending.
\<close>

theorem reset_leaves_timers:
  "map_option (map_sum id (\<lambda>pv. map fst (pv_timers (resetGrid 1 3 pv))))
     (visualizeAlgorithm ''dijkstra'' 100 (pv0 corridor (0, 0) (0, 2))) = Some (Inr [1, 2, 3])
   \<and> map_option (map_sum id (\<lambda>pv. map_sum id (\<lambda>pv'. ctype (cell_at (pv_grid pv') (0, 1)))
                                      (fire 2 (resetGrid 1 3 pv))))
       (visualizeAlgorithm ''dijkstra'' 100 (pv0 corridor (0, 0) (0, 2))) = Some (Inr (Inr Visited))
   \<and> map fst (gv_timers (resetGraph (gv_visualizeAlgorithm ''bfs'' 100 (gv0 path3 (Some 0))))) = [1, 2]"
  by code_simp

section \<open>Properties of the pathfinding recorders\<close>


text \<open>
  C9, as stated, fails. On the corridor the middle cell has distance infinity and score
  \<^verbatim>\<open>g\<close> zero before the run; \<^verbatim>\<open>dijkstra\<close> leaves distance 1 in the cell of the grid it was
  given, and \<^verbatim>\<open>aStar\<close> leaves \<^verbatim>\<open>g\<close> equal to 1.
\<close>

theorem recorder_mutates_counterexample:
  "distance (cell_at corridor (0, 1)) = \<infinity>
   \<and> map_sum id (\<lambda>r. distance (cell_at (snd r) (0, 1))) (dijkstra corridor (0, 0) (0, 2)) = Inr 1
   \<and> map_option (map_sum id (\<lambda>r. gScore (cell_at (snd r) (0, 1)))) (aStar corridor (0, 0) (0, 2))
       = Some (Inr 1)"
  by code_simp

section \<open>Properties of the graph traversals\<close>

text \<open>
  The graph that the traversals see: the successors of an id are the connections of the
  first node with that id (what \<^verbatim>\<open>nodes.find\<close> returns), and none when there is no
  such node. The distance from \<open>s\<close> to \<open>v\<close> is the least number of edges of a walk.
\<close>

definition successors :: "Node list \<Rightarrow> nat \<Rightarrow> nat list" where
  "successors nodes k = (case find_node nodes k of None \<Rightarrow> [] | Some n \<Rightarrow> connections n)"

definition edges :: "Node list \<Rightarrow> (nat \<times> nat) set" where
  "edges nodes = {(u, v). v \<in> set (successors nodes u)}"

definition graph_dist :: "Node list \<Rightarrow> nat \<Rightarrow> nat \<Rightarrow> nat" where
  "graph_dist nodes s v = (LEAST n. (s, v) \<in> edges nodes ^^ n)"

lemma vis_get_replicate [simp]: "\<not> vis_get (replicate n False) k"
  by (simp add: vis_get_def)

lemma graph_dist_le: "(s, v) \<in> edges nodes ^^ n \<Longrightarrow> graph_dist nodes s v \<le> n"
  unfolding graph_dist_def by (rule Least_le)

lemma graph_dist_path:
  "(s, v) \<in> (edges nodes)\<^sup>* \<Longrightarrow> (s, v) \<in> edges nodes ^^ graph_dist nodes s v"
  unfolding graph_dist_def by (metis LeastI rtrancl_imp_relpow)

lemma graph_dist_self [simp]: "graph_dist nodes s s = 0"
  using graph_dist_le [where n = 0 and s = s and v = s and nodes = nodes] by simp

lemma graph_dist_step:
  assumes "(s, u) \<in> (edges nodes)\<^sup>*" and "(u, v) \<in> edges nodes"
  shows "graph_dist nodes s v \<le> graph_dist nodes s u + 1"
proof -
  from graph_dist_path [OF assms(1)] assms(2)
  have "(s, v) \<in> edges nodes ^^ Suc (graph_dist nodes s u)" by auto
  from graph_dist_le [OF this] show ?thesis by simp
qed

subsection \<open>The loop over the neighbours\<close>

lemma bfs_neighbors_spec:
  "bfs_neighbors ns (visited, queue) = (visited', queue') \<Longrightarrow>
   \<exists>new. queue' = queue @ new \<and> distinct new
     \<and> set new = {v \<in> set ns. \<not> vis_get visited v}
     \<and> (\<forall>v. vis_get visited' v \<longleftrightarrow> vis_get visited v \<or> v \<in> set ns)"
proof (induction ns arbitrary: visited queue)
  case Nil
  then show ?case by simp
next
  case (Cons k ns)
  show ?case
  proof (cases "vis_get visited k")
    case True
    with Cons.prems have "bfs_neighbors ns (visited, queue) = (visited', queue')" by simp
    from Cons.IH [OF this] obtain new where
      n: "queue' = queue @ new" "distinct new" "set new = {v \<in> set ns. \<not> vis_get visited v}"
         "\<forall>v. vis_get visited' v \<longleftrightarrow> vis_get visited v \<or> v \<in> set ns"
      by blast
    have "set new = {v \<in> set (k # ns). \<not> vis_get visited v}"
      using n(3) True by auto
    moreover have "\<forall>v. vis_get visited' v \<longleftrightarrow> vis_get visited v \<or> v \<in> set (k # ns)"
      using n(4) True by auto
    ultimately show ?thesis using n(1,2) by blast
  next
    case False
    with Cons.prems have
      "bfs_neighbors ns (vis_set visited k, queue @ [k]) = (visited', queue')" by simp
    from Cons.IH [OF this] obtain new where
      n: "queue' = (queue @ [k]) @ new" "distinct new"
         "set new = {v \<in> set ns. \<not> vis_get (vis_set visited k) v}"
         "\<forall>v. vis_get visited' v \<longleftrightarrow> vis_get (vis_set visited k) v \<or> v \<in> set ns"
      by blast
    have q: "queue' = queue @ (k # new)" using n(1) by simp
    have d: "distinct (k # new)" using n(2,3) by (auto simp: vis_get_vis_set)
    have s: "set (k # new) = {v \<in> set (k # ns). \<not> vis_get visited v}"
      using n(3) False by (auto simp: vis_get_vis_set)
    have m: "\<forall>v. vis_get visited' v \<longleftrightarrow> vis_get visited v \<or> v \<in> set (k # ns)"
      using n(4) by (auto simp: vis_get_vis_set)
    from q d s m show ?thesis by blast
  qed
qed


subsection \<open>The invariant of the BFS loop\<close>

lemma sorted_map_const: "(\<And>x. x \<in> set xs \<Longrightarrow> f x = (c::nat)) \<Longrightarrow> sorted (map f xs)"
  by (induction xs) auto

definition bfs_inv :: "Node list \<Rightarrow> nat \<Rightarrow> bool list \<Rightarrow> nat list \<Rightarrow> nat list \<Rightarrow> bool" where
  "bfs_inv nodes s visited queue order \<longleftrightarrow>
     distinct (order @ queue)
     \<and> (\<forall>v. vis_get visited v \<longleftrightarrow> v \<in> set order \<union> set queue)
     \<and> (\<forall>v \<in> set order \<union> set queue. (s, v) \<in> (edges nodes)\<^sup>*)
     \<and> (\<forall>u \<in> set order. \<forall>v. (u, v) \<in> edges nodes \<longrightarrow> vis_get visited v)
     \<and> vis_get visited s
     \<and> sorted (map (graph_dist nodes s) (order @ queue))
     \<and> (\<forall>a \<in> set queue. \<forall>b \<in> set queue. graph_dist nodes s b \<le> graph_dist nodes s a + 1)"

lemma bfs_inv_near_marked:
  assumes inv: "bfs_inv nodes s visited (u # rest) order"
  shows "n \<le> graph_dist nodes s u \<Longrightarrow> (s, w) \<in> edges nodes ^^ n \<Longrightarrow> vis_get visited w"
proof (induction n arbitrary: w)
  case 0
  have "vis_get visited s" using inv unfolding bfs_inv_def by blast
  with 0 show ?case by simp
next
  case (Suc n)
  from Suc.prems(2) obtain p where p: "(s, p) \<in> edges nodes ^^ n" and e: "(p, w) \<in> edges nodes"
    by auto
  from Suc.IH [OF _ p] Suc.prems(1) have mp: "vis_get visited p" by simp
  have dp: "graph_dist nodes s p < graph_dist nodes s u"
    using graph_dist_le [OF p] Suc.prems(1) by simp
  have "p \<notin> set (u # rest)"
  proof
    assume "p \<in> set (u # rest)"
    moreover have "sorted (map (graph_dist nodes s) (order @ u # rest))"
      using inv unfolding bfs_inv_def by blast
    then have "sorted (map (graph_dist nodes s) (u # rest))"
      by (simp add: sorted_append)
    ultimately have "graph_dist nodes s u \<le> graph_dist nodes s p" by auto
    with dp show False by simp
  qed
  moreover have "\<forall>v. vis_get visited v \<longleftrightarrow> v \<in> set order \<union> set (u # rest)"
    using inv unfolding bfs_inv_def by blast
  ultimately have "p \<in> set order" using mp by blast
  moreover have "\<forall>x \<in> set order. \<forall>v. (x, v) \<in> edges nodes \<longrightarrow> vis_get visited v"
    using inv unfolding bfs_inv_def by blast
  ultimately show ?case using e by blast
qed

lemma bfs_inv_step:
  assumes inv: "bfs_inv nodes s visited (u # rest) order"
    and nb: "bfs_neighbors (successors nodes u) (visited, rest) = (visited', queue')"
  shows "bfs_inv nodes s visited' queue' (order @ [u])"
proof -
  let ?d = "graph_dist nodes s"
  from bfs_neighbors_spec [OF nb] obtain new where
    q: "queue' = rest @ new" and dn: "distinct new"
    and sn: "set new = {v \<in> set (successors nodes u). \<not> vis_get visited v}"
    and m: "\<forall>v. vis_get visited' v \<longleftrightarrow> vis_get visited v \<or> v \<in> set (successors nodes u)"
    by blast
  have i1: "distinct (order @ u # rest)"
    and i2: "\<forall>v. vis_get visited v \<longleftrightarrow> v \<in> set order \<union> set (u # rest)"
    and i3: "\<forall>v \<in> set order \<union> set (u # rest). (s, v) \<in> (edges nodes)\<^sup>*"
    and i4: "\<forall>x \<in> set order. \<forall>v. (x, v) \<in> edges nodes \<longrightarrow> vis_get visited v"
    and i5: "vis_get visited s"
    and i6: "sorted (map ?d (order @ u # rest))"
    and i7: "\<forall>a \<in> set (u # rest). \<forall>b \<in> set (u # rest). ?d b \<le> ?d a + 1"
    using inv unfolding bfs_inv_def by blast+
  have ru: "(s, u) \<in> (edges nodes)\<^sup>*" using i3 by simp
  have new_edge: "\<And>v. v \<in> set new \<Longrightarrow> (u, v) \<in> edges nodes"
    using sn by (simp add: edges_def)
  have new_unmarked: "\<And>v. v \<in> set new \<Longrightarrow> \<not> vis_get visited v"
    using sn by simp
  have new_reach: "\<And>v. v \<in> set new \<Longrightarrow> (s, v) \<in> (edges nodes)\<^sup>*"
    using ru new_edge by (meson rtrancl.rtrancl_into_rtrancl)
  have new_dist: "?d v = ?d u + 1" if v: "v \<in> set new" for v
  proof -
    have le: "?d v \<le> ?d u + 1"
      using graph_dist_step [OF ru new_edge [OF v]] .
    have "\<not> ?d v \<le> ?d u"
    proof
      assume "?d v \<le> ?d u"
      from bfs_inv_near_marked [OF inv this graph_dist_path [OF new_reach [OF v]]]
      show False using new_unmarked [OF v] by simp
    qed
    with le show ?thesis by simp
  qed
  have c1: "distinct ((order @ [u]) @ queue')"
    using i1 dn new_unmarked i2 unfolding q by auto
  have c2: "\<forall>v. vis_get visited' v \<longleftrightarrow> v \<in> set (order @ [u]) \<union> set queue'"
    using m i2 sn unfolding q by auto
  have c3: "\<forall>v \<in> set (order @ [u]) \<union> set queue'. (s, v) \<in> (edges nodes)\<^sup>*"
    using i3 new_reach unfolding q by auto
  have c4: "\<forall>x \<in> set (order @ [u]). \<forall>v. (x, v) \<in> edges nodes \<longrightarrow> vis_get visited' v"
    using i4 m by (auto simp: edges_def)
  have c5: "vis_get visited' s" using i5 m by simp
  have old_le: "\<And>x. x \<in> set (order @ u # rest) \<Longrightarrow> ?d x \<le> ?d u + 1"
  proof -
    fix x assume "x \<in> set (order @ u # rest)"
    then consider "x \<in> set order" | "x \<in> set (u # rest)" by auto
    then show "?d x \<le> ?d u + 1"
    proof cases
      case 1
      with i6 have "?d x \<le> ?d u" by (auto simp: sorted_append)
      then show ?thesis by simp
    next
      case 2
      with i7 show ?thesis by (meson list.set_intros(1))
    qed
  qed
  have "sorted (map ?d new)"
    using new_dist by (intro sorted_map_const [where c = "?d u + 1"])
  then have c6: "sorted (map ?d ((order @ [u]) @ queue'))"
    using i6 old_le new_dist unfolding q
    by (auto simp: sorted_append)
  have head_le: "\<And>a. a \<in> set rest \<Longrightarrow> ?d u \<le> ?d a"
    using i6 by (auto simp: sorted_append)
  have c7: "\<forall>a \<in> set queue'. \<forall>b \<in> set queue'. ?d b \<le> ?d a + 1"
  proof (intro ballI)
    fix a b assume a: "a \<in> set queue'" and b: "b \<in> set queue'"
    from a consider "a \<in> set rest" | "a \<in> set new" unfolding q by auto
    then show "?d b \<le> ?d a + 1"
    proof cases
      case 1
      from b consider "b \<in> set rest" | "b \<in> set new" unfolding q by auto
      then show ?thesis
      proof cases
        case 1
        with \<open>a \<in> set rest\<close> i7 show ?thesis by (meson list.set_intros(2))
      next
        case 2
        with new_dist head_le [OF \<open>a \<in> set rest\<close>] show ?thesis by simp
      qed
    next
      case 2
      from b consider "b \<in> set rest" | "b \<in> set new" unfolding q by auto
      then show ?thesis
      proof cases
        case 1
        then have "?d b \<le> ?d u + 1" using i7 by (meson list.set_intros)
        with new_dist [OF 2] show ?thesis by simp
      next
        case 2
        with new_dist \<open>a \<in> set new\<close> show ?thesis by simp
      qed
    qed
  qed
  from c1 c2 c3 c4 c5 c6 c7 show ?thesis
    unfolding bfs_inv_def by blast
qed


lemma closed_contains_reachable:
  assumes "s \<in> M" and "\<And>u v. u \<in> M \<Longrightarrow> (u, v) \<in> edges nodes \<Longrightarrow> v \<in> M"
    and "(s, w) \<in> (edges nodes)\<^sup>*"
  shows "w \<in> M"
  using assms(3,1,2) by (induction rule: rtrancl_induct) auto

lemma bfs_loop_step:
  "bfs_loop nodes (visited, u # rest) order
     = bfs_loop nodes (bfs_neighbors (successors nodes u) (visited, rest)) (order @ [u])"
  by (simp add: bfs_loop.simps successors_def split: option.splits)

lemma bfs_loop_correct:
  "bfs_inv nodes s (fst st) (snd st) order \<Longrightarrow>
     distinct (bfs_loop nodes st order)
     \<and> set (bfs_loop nodes st order) = {v. (s, v) \<in> (edges nodes)\<^sup>*}
     \<and> sorted (map (graph_dist nodes s) (bfs_loop nodes st order))"
proof (induction nodes st order rule: bfs_loop.induct)
  case (1 nodes visited visitOrder)
  then have inv: "bfs_inv nodes s visited [] visitOrder" by simp
  have r: "bfs_loop nodes (visited, []) visitOrder = visitOrder"
    by (simp add: bfs_loop.simps)
  have d: "distinct visitOrder" and so: "sorted (map (graph_dist nodes s) visitOrder)"
    and m: "\<forall>v. vis_get visited v \<longleftrightarrow> v \<in> set visitOrder"
    and re: "\<forall>v \<in> set visitOrder. (s, v) \<in> (edges nodes)\<^sup>*"
    and cl: "\<forall>u \<in> set visitOrder. \<forall>v. (u, v) \<in> edges nodes \<longrightarrow> vis_get visited v"
    and st: "vis_get visited s"
    using inv unfolding bfs_inv_def by auto
  have "w \<in> set visitOrder" if "(s, w) \<in> (edges nodes)\<^sup>*" for w
  proof (rule closed_contains_reachable [OF _ _ that])
    show "s \<in> set visitOrder" using st m by simp
    show "\<And>u v. u \<in> set visitOrder \<Longrightarrow> (u, v) \<in> edges nodes \<Longrightarrow> v \<in> set visitOrder"
      using cl m by blast
  qed
  with re have "set visitOrder = {v. (s, v) \<in> (edges nodes)\<^sup>*}" by blast
  with d so show ?case unfolding r by simp
next
  case (2 nodes visited nodeId queue visitOrder)
  then have inv: "bfs_inv nodes s visited (nodeId # queue) visitOrder" by simp
  obtain visited' queue' where
    nb: "bfs_neighbors (successors nodes nodeId) (visited, queue) = (visited', queue')"
    by (cases "bfs_neighbors (successors nodes nodeId) (visited, queue)") auto
  have inv': "bfs_inv nodes s visited' queue' (visitOrder @ [nodeId])"
    by (rule bfs_inv_step [OF inv nb])
  show ?case
  proof (cases "find_node nodes nodeId")
    case None
    then have "successors nodes nodeId = []" by (simp add: successors_def)
    with nb have e: "visited' = visited" "queue' = queue" by simp_all
    from "2.IH"(1) [OF None] inv' e
    have "distinct (bfs_loop nodes (visited, queue) (visitOrder @ [nodeId]))
      \<and> set (bfs_loop nodes (visited, queue) (visitOrder @ [nodeId])) = {v. (s, v) \<in> (edges nodes)\<^sup>*}
      \<and> sorted (map (graph_dist nodes s) (bfs_loop nodes (visited, queue) (visitOrder @ [nodeId])))"
      by simp
    moreover have "bfs_loop nodes (visited, nodeId # queue) visitOrder
                     = bfs_loop nodes (visited, queue) (visitOrder @ [nodeId])"
      using None by (simp add: bfs_loop.simps)
    ultimately show ?thesis by simp
  next
    case (Some node)
    then have sc: "successors nodes nodeId = connections node" by (simp add: successors_def)
    from "2.IH"(2) [OF Some] inv' nb
    have "distinct (bfs_loop nodes (visited', queue') (visitOrder @ [nodeId]))
      \<and> set (bfs_loop nodes (visited', queue') (visitOrder @ [nodeId])) = {v. (s, v) \<in> (edges nodes)\<^sup>*}
      \<and> sorted (map (graph_dist nodes s) (bfs_loop nodes (visited', queue') (visitOrder @ [nodeId])))"
      unfolding sc by simp
    moreover have "bfs_loop nodes (visited, nodeId # queue) visitOrder
                     = bfs_loop nodes (visited', queue') (visitOrder @ [nodeId])"
      using Some nb sc by (simp add: bfs_loop.simps)
    ultimately show ?thesis by simp
  qed
qed

lemma bfs_inv_initial: "bfs_inv nodes s (vis_set (replicate n False) s) [s] []"
  by (simp add: bfs_inv_def vis_get_vis_set)

lemma runBFS_correct:
  "\<exists>order. runBFS nodes (Some s) = Some order \<and> distinct order
     \<and> set order = {v. (s, v) \<in> (edges nodes)\<^sup>*}
     \<and> sorted (map (graph_dist nodes s) order)"
  using bfs_loop_correct [of nodes s "(vis_set (replicate (length nodes) False) s, [s])" "[]"]
    bfs_inv_initial [of nodes s "length nodes"]
  by (simp add: runBFS_def)

subsection \<open>DFS\<close>

definition dfs_inv :: "bool list \<times> nat list \<Rightarrow> bool" where
  "dfs_inv st \<longleftrightarrow> distinct (snd st) \<and> (\<forall>v. vis_get (fst st) v \<longleftrightarrow> v \<in> set (snd st))"

text \<open>
  What a call of \<open>dfs\<close> or of the loop over the neighbours adds: the new state keeps the
  invariant, extends the old marks, every new mark is reachable from where the call
  started, and every successor of a newly marked node is marked.
\<close>

definition dfs_adds :: "Node list \<Rightarrow> nat set \<Rightarrow> bool list \<times> nat list \<Rightarrow> bool list \<times> nat list \<Rightarrow> bool" where
  "dfs_adds nodes roots st st' \<longleftrightarrow>
     dfs_inv st'
     \<and> set (snd st) \<subseteq> set (snd st')
     \<and> (\<forall>v \<in> set (snd st') - set (snd st). \<exists>r \<in> roots. (r, v) \<in> (edges nodes)\<^sup>*)
     \<and> (\<forall>u \<in> set (snd st') - set (snd st). \<forall>v. (u, v) \<in> edges nodes \<longrightarrow> v \<in> set (snd st'))"

lemma dfs_correct_aux:
  "dfs_inv st \<Longrightarrow> \<not> vis_get (fst st) k \<Longrightarrow>
     dfs_adds nodes {k} st (dfs nodes k st) \<and> k \<in> set (snd (dfs nodes k st))"
  "dfs_inv st \<Longrightarrow>
     dfs_adds nodes (set ks) st (dfs_for nodes ks st) \<and> set ks \<subseteq> set (snd (dfs_for nodes ks st))"
proof (induction nodes k st and nodes ks st rule: dfs_dfs_for.induct)
  case (1 nodes nodeId visited visitOrder)
  let ?st1 = "(vis_set visited nodeId, visitOrder @ [nodeId])"
  from 1(2,3) have inv1: "dfs_inv ?st1"
    by (auto simp: dfs_inv_def vis_get_vis_set)
  show ?case
  proof (cases "find_node nodes nodeId")
    case None
    then have r: "dfs nodes nodeId (visited, visitOrder) = ?st1" by (simp add: dfs.simps)
    have "\<And>v. (nodeId, v) \<notin> edges nodes"
      using None by (simp add: edges_def successors_def)
    with inv1 show ?thesis unfolding r dfs_adds_def by auto
  next
    case (Some node)
    then have r: "dfs nodes nodeId (visited, visitOrder) = dfs_for nodes (connections node) ?st1"
      by (simp add: dfs.simps)
    have sc: "set (connections node) = {v. (nodeId, v) \<in> edges nodes}"
      using Some by (simp add: edges_def successors_def)
    let ?st' = "dfs_for nodes (connections node) ?st1"
    from 1(1) [OF Some inv1] have a: "dfs_adds nodes (set (connections node)) ?st1 ?st'"
      and c: "set (connections node) \<subseteq> set (snd ?st')" by simp_all
    from a have a1: "dfs_inv ?st'" and a2: "set (snd ?st1) \<subseteq> set (snd ?st')"
      and a3: "\<forall>v \<in> set (snd ?st') - set (snd ?st1). \<exists>r \<in> set (connections node). (r, v) \<in> (edges nodes)\<^sup>*"
      and a4: "\<forall>u \<in> set (snd ?st') - set (snd ?st1). \<forall>v. (u, v) \<in> edges nodes \<longrightarrow> v \<in> set (snd ?st')"
      unfolding dfs_adds_def by blast+
    have b2: "set (snd (visited, visitOrder)) \<subseteq> set (snd ?st')" using a2 by auto
    have b3: "\<forall>v \<in> set (snd ?st') - set (snd (visited, visitOrder)). \<exists>r \<in> {nodeId}. (r, v) \<in> (edges nodes)\<^sup>*"
    proof
      fix v assume v: "v \<in> set (snd ?st') - set (snd (visited, visitOrder))"
      show "\<exists>r \<in> {nodeId}. (r, v) \<in> (edges nodes)\<^sup>*"
      proof (cases "v = nodeId")
        case True
        then show ?thesis by simp
      next
        case False
        with v have "v \<in> set (snd ?st') - set (snd ?st1)" by simp
        with a3 obtain r where r: "r \<in> set (connections node)" and rv: "(r, v) \<in> (edges nodes)\<^sup>*"
          by blast
        from r sc have "(nodeId, r) \<in> edges nodes" by simp
        from converse_rtrancl_into_rtrancl [OF this rv] show ?thesis by simp
      qed
    qed
    have b4: "\<forall>u \<in> set (snd ?st') - set (snd (visited, visitOrder)). \<forall>v. (u, v) \<in> edges nodes \<longrightarrow> v \<in> set (snd ?st')"
    proof (intro ballI allI impI)
      fix u v assume u: "u \<in> set (snd ?st') - set (snd (visited, visitOrder))" and e: "(u, v) \<in> edges nodes"
      show "v \<in> set (snd ?st')"
      proof (cases "u = nodeId")
        case True
        with e sc c show ?thesis by blast
      next
        case False
        with u have "u \<in> set (snd ?st') - set (snd ?st1)" by simp
        with a4 e show ?thesis by blast
      qed
    qed
    have "nodeId \<in> set (snd ?st')" using a2 by auto
    with a1 b2 b3 b4 show ?thesis unfolding r dfs_adds_def by blast
  qed
next
  case (2 nodes st)
  then show ?case by (simp add: dfs_for.simps dfs_adds_def)
next
  case (3 nodes neighborId rest st)
  show ?case
  proof (cases "vis_get (fst st) neighborId")
    case True
    then have r: "dfs_for nodes (neighborId # rest) st = dfs_for nodes rest st"
      by (simp add: dfs_for.simps)
    from 3(3) [OF _ 3(4)] True have a: "dfs_adds nodes (set rest) st (dfs_for nodes rest st)"
      and c: "set rest \<subseteq> set (snd (dfs_for nodes rest st))" by simp_all
    have "neighborId \<in> set (snd st)" using True 3(4) by (simp add: dfs_inv_def)
    with a c show ?thesis unfolding r dfs_adds_def by auto
  next
    case False
    let ?st1 = "dfs nodes neighborId st"
    let ?st2 = "dfs_for nodes rest ?st1"
    have r: "dfs_for nodes (neighborId # rest) st = ?st2"
      using False by (simp add: dfs_for.simps)
    from 3(1) [OF False 3(4) False] have a: "dfs_adds nodes {neighborId} st ?st1"
      and k: "neighborId \<in> set (snd ?st1)" by simp_all
    from a have inv1: "dfs_inv ?st1" by (simp add: dfs_adds_def)
    from 3(2) [OF False inv1] have b: "dfs_adds nodes (set rest) ?st1 ?st2"
      and c: "set rest \<subseteq> set (snd ?st2)" by simp_all
    from a have a2: "set (snd st) \<subseteq> set (snd ?st1)"
      and a3: "\<forall>v \<in> set (snd ?st1) - set (snd st). \<exists>r \<in> {neighborId}. (r, v) \<in> (edges nodes)\<^sup>*"
      and a4: "\<forall>u \<in> set (snd ?st1) - set (snd st). \<forall>v. (u, v) \<in> edges nodes \<longrightarrow> v \<in> set (snd ?st1)"
      unfolding dfs_adds_def by blast+
    from b have b1: "dfs_inv ?st2" and b2: "set (snd ?st1) \<subseteq> set (snd ?st2)"
      and b3: "\<forall>v \<in> set (snd ?st2) - set (snd ?st1). \<exists>r \<in> set rest. (r, v) \<in> (edges nodes)\<^sup>*"
      and b4: "\<forall>u \<in> set (snd ?st2) - set (snd ?st1). \<forall>v. (u, v) \<in> edges nodes \<longrightarrow> v \<in> set (snd ?st2)"
      unfolding dfs_adds_def by blast+
    have c2: "set (snd st) \<subseteq> set (snd ?st2)" using a2 b2 by blast
    have c3: "\<forall>v \<in> set (snd ?st2) - set (snd st). \<exists>r \<in> set (neighborId # rest). (r, v) \<in> (edges nodes)\<^sup>*"
    proof
      fix v assume v: "v \<in> set (snd ?st2) - set (snd st)"
      show "\<exists>r \<in> set (neighborId # rest). (r, v) \<in> (edges nodes)\<^sup>*"
      proof (cases "v \<in> set (snd ?st1)")
        case True
        with v a3 have "(neighborId, v) \<in> (edges nodes)\<^sup>*" by blast
        then show ?thesis by auto
      next
        case False
        with v b3 obtain r where "r \<in> set rest" "(r, v) \<in> (edges nodes)\<^sup>*" by blast
        then show ?thesis by auto
      qed
    qed
    have c4: "\<forall>u \<in> set (snd ?st2) - set (snd st). \<forall>v. (u, v) \<in> edges nodes \<longrightarrow> v \<in> set (snd ?st2)"
    proof (intro ballI allI impI)
      fix u v assume u: "u \<in> set (snd ?st2) - set (snd st)" and e: "(u, v) \<in> edges nodes"
      show "v \<in> set (snd ?st2)"
      proof (cases "u \<in> set (snd ?st1)")
        case True
        with u a4 e have "v \<in> set (snd ?st1)" by blast
        with b2 show ?thesis by blast
      next
        case False
        with u b4 e show ?thesis by blast
      qed
    qed
    have c5: "set (neighborId # rest) \<subseteq> set (snd ?st2)" using k b2 c by auto
    from b1 c2 c3 c4 c5 show ?thesis unfolding r dfs_adds_def by blast
  qed
qed

lemma runDFS_correct:
  "\<exists>order. runDFS nodes (Some s) = Some order \<and> distinct order
     \<and> set order = {v. (s, v) \<in> (edges nodes)\<^sup>*}"
proof -
  let ?init = "(replicate (length nodes) False, [] :: nat list)"
  let ?fin = "dfs nodes s ?init"
  have inv0: "dfs_inv ?init" by (simp add: dfs_inv_def)
  have "\<not> vis_get (fst ?init) s" by simp
  from dfs_correct_aux(1) [OF inv0 this] have a: "dfs_adds nodes {s} ?init ?fin"
    and k: "s \<in> set (snd ?fin)" by simp_all
  from a have d: "distinct (snd ?fin)"
    and re: "\<forall>v \<in> set (snd ?fin). (s, v) \<in> (edges nodes)\<^sup>*"
    and cl: "\<forall>u \<in> set (snd ?fin). \<forall>v. (u, v) \<in> edges nodes \<longrightarrow> v \<in> set (snd ?fin)"
    unfolding dfs_adds_def dfs_inv_def by auto
  have "w \<in> set (snd ?fin)" if "(s, w) \<in> (edges nodes)\<^sup>*" for w
    using closed_contains_reachable [OF k _ that] cl by blast
  with re have "set (snd ?fin) = {v. (s, v) \<in> (edges nodes)\<^sup>*}" by blast
  with d show ?thesis by (simp add: runDFS_def)
qed

text \<open>
  C8. For every graph and every start node, \<^verbatim>\<open>runBFS\<close> returns a visit order without
  repetition whose nodes are exactly those reachable from the start, in non-decreasing
  distance from the start; \<^verbatim>\<open>runDFS\<close> returns a visit order without repetition whose
  nodes are exactly those reachable from the start.
\<close>

theorem traversals_visit_reachable_once:
  "\<exists>bfsOrder dfsOrder.
     runBFS nodes (Some s) = Some bfsOrder
     \<and> distinct bfsOrder
     \<and> set bfsOrder = {v. (s, v) \<in> (edges nodes)\<^sup>*}
     \<and> sorted (map (graph_dist nodes s) bfsOrder)
     \<and> runDFS nodes (Some s) = Some dfsOrder
     \<and> distinct dfsOrder
     \<and> set dfsOrder = {v. (s, v) \<in> (edges nodes)\<^sup>*}"
  using runBFS_correct [of nodes s] runDFS_correct [of nodes s] by blast

section \<open>Properties of the sorting recorders\<close>

subsection \<open>Replaying swaps and overwrites\<close>

text \<open>
  A recorder state tracks the replay from \<open>init\<close> when replaying the swap and overwrite
  events recorded so far onto \<open>init\<close> gives an array with the values of the working copy.
\<close>

definition vals :: "ArrayBar list \<Rightarrow> int option list" where
  "vals arr = map (\<lambda>b. Some (bar_value b)) arr"

definition tracks :: "Slot list \<Rightarrow> rec_state \<Rightarrow> bool" where
  "tracks init st \<longleftrightarrow>
     (\<exists>out. replay (filter is_move (snd st)) init = Inr out \<and> map slot_value out = vals (fst st))"

lemma replay_append:
  "replay (es @ fs) a = (case replay es a of Inl e \<Rightarrow> Inl e | Inr b \<Rightarrow> replay fs b)"
  by (induction es arbitrary: a) (auto split: sum.splits)

lemma length_vals [simp]: "length (vals arr) = length arr"
  by (simp add: vals_def)

lemma vals_update: "vals (arr[k := b]) = (vals arr)[k := Some (bar_value b)]"
  by (simp add: vals_def map_update)

lemma vals_nth: "k < length arr \<Longrightarrow> vals arr ! k = Some (bar_value (arr ! k))"
  by (simp add: vals_def)

lemma slot_value_swap:
  assumes "map slot_value out = vals arr" and "a < length arr" and "b < length arr"
  shows "\<exists>out'. applyAnimation out (Swap (int a) (int b)) = Inr out'
           \<and> map slot_value out' = vals (arr[a := arr ! b, b := arr ! a])"
proof -
  have len: "length out = length arr"
    using assms(1) by (metis length_map length_vals)
  have "applyAnimation out (Swap (int a) (int b)) = Inr (out[a := out ! b, b := out ! a])"
    using assms(2,3) len by (simp add: js_get_def js_set_def Let_def)
  moreover have "map slot_value (out[a := out ! b, b := out ! a])
                   = vals (arr[a := arr ! b, b := arr ! a])"
    using assms len by (simp add: map_update vals_update vals_nth flip: nth_map [of _ out slot_value])
  ultimately show ?thesis by blast
qed

lemma slot_value_overwrite:
  assumes "map slot_value out = vals arr" and "k < length arr"
  shows "\<exists>out'. applyAnimation out (Overwrite (int k) (bar_value b)) = Inr out'
           \<and> map slot_value out' = vals (arr[k := b])"
proof -
  have len: "length out = length arr"
    using assms(1) by (metis length_map length_vals)
  have "applyAnimation out (Overwrite (int k) (bar_value b))
          = Inr (out[k := Bar (Some (bar_value b)) Comparing])"
    using assms(2) len by (simp add: js_set_def)
  moreover have "map slot_value (out[k := Bar (Some (bar_value b)) Comparing]) = vals (arr[k := b])"
    using assms by (simp add: map_update vals_update)
  ultimately show ?thesis by blast
qed

lemma tracks_swap:
  assumes "tracks init (arr, anims)" and "a < length arr" and "b < length arr"
    and "filter is_move es = [Swap (int a) (int b)]"
  shows "tracks init (arr[a := arr ! b, b := arr ! a], anims @ es)"
proof -
  from assms(1) obtain out where
    r: "replay (filter is_move anims) init = Inr out" and v: "map slot_value out = vals arr"
    by (auto simp: tracks_def)
  from slot_value_swap [OF v assms(2,3)] obtain out' where
    "applyAnimation out (Swap (int a) (int b)) = Inr out'"
    "map slot_value out' = vals (arr[a := arr ! b, b := arr ! a])" by blast
  then show ?thesis
    using r assms(4) by (simp add: tracks_def replay_append)
qed

lemma tracks_overwrite:
  assumes "tracks init (arr, anims)" and "k < length arr"
    and "filter is_move es = [Overwrite (int k) (bar_value b)]"
  shows "tracks init (arr[k := b], anims @ es)"
proof -
  from assms(1) obtain out where
    r: "replay (filter is_move anims) init = Inr out" and v: "map slot_value out = vals arr"
    by (auto simp: tracks_def)
  from slot_value_overwrite [OF v assms(2)] obtain out' where
    "applyAnimation out (Overwrite (int k) (bar_value b)) = Inr out'"
    "map slot_value out' = vals (arr[k := b])" by blast
  then show ?thesis
    using r assms(3) by (simp add: tracks_def replay_append)
qed

lemma tracks_push:
  assumes "tracks init (arr, anims)" and "filter is_move es = []"
  shows "tracks init (arr, anims @ es)"
  using assms by (simp add: tracks_def)

lemma tracks_initial: "tracks (map slot_of input) (input, [])"
  by (simp add: tracks_def vals_def slot_of_def)


subsection \<open>bubbleSort\<close>

definition val_at :: "ArrayBar list \<Rightarrow> nat \<Rightarrow> int" where
  "val_at arr k = bar_value (arr ! k)"

text \<open>
  One pass of the inner loop from \<open>j\<close> on, where \<open>m = n - i - 1\<close> is the last index of
  the pass: the values before \<open>j\<close> are at most the one at \<open>j\<close>. After the pass the largest
  value of the indices up to \<open>m\<close> is at \<open>m\<close>, these indices hold what they held before in
  another order, and the rest is untouched.
\<close>

lemma bubble_inner_spec:
  assumes "length arr = n" and "i < n" and "j \<le> n - i - 1"
    and "\<forall>k<j. val_at arr k \<le> val_at arr j"
    and "tracks init (arr, anims)"
  shows "\<exists>arr' anims'. bubble_inner n i j (arr, anims) = (arr', anims')
           \<and> length arr' = n \<and> tracks init (arr', anims')
           \<and> (\<forall>k. n - i - 1 < k \<longrightarrow> k < n \<longrightarrow> arr' ! k = arr ! k)
           \<and> (\<forall>a \<le> n - i - 1. \<exists>a' \<le> n - i - 1. arr' ! a = arr ! a')
           \<and> (\<forall>k \<le> n - i - 1. val_at arr' k \<le> val_at arr' (n - i - 1))"
  using assms
proof (induction n i j "(arr, anims)" arbitrary: arr anims rule: bubble_inner.induct)
  case (1 n i j arr anims)
  let ?m = "n - i - 1"
  note eq = bubble_inner.simps [of n i j arr anims]
  show ?case
  proof (cases "j < ?m")
    case False
    with "1.prems"(3) have jm: "j = ?m" by simp
    have "bubble_inner n i j (arr, anims) = (arr, anims)"
      using False by (simp add: eq)
    moreover have "\<forall>k \<le> ?m. val_at arr k \<le> val_at arr ?m"
      using "1.prems"(4) jm by (auto simp: le_less)
    ultimately show ?thesis
      using "1.prems"(1,5) by auto
  next
    case jm: True
    then have j1: "j + 1 < n" and jn: "j < n" using "1.prems"(2) by simp_all
    show ?thesis
    proof (cases "bar_value (arr ! j) > bar_value (arr ! (j + 1))")
      case True
      let ?arr1 = "arr[j := arr ! (j + 1), j + 1 := arr ! j]"
      let ?an1 = "anims @ [Compare (int j) (int j + 1), Swap (int j) (int j + 1),
                          Reset [int j, int j + 1]]"
      have r: "bubble_inner n i j (arr, anims) = bubble_inner n i (j + 1) (?arr1, ?an1)"
        using jm True by (simp add: eq)
      have l1: "length ?arr1 = n" using "1.prems"(1) by simp
      have t1: "tracks init (?arr1, ?an1)"
        using tracks_swap [OF "1.prems"(5), of j "j + 1"] j1 jn "1.prems"(1)
        by (simp add: add.commute)
      have p1: "\<forall>k<j + 1. val_at ?arr1 k \<le> val_at ?arr1 (j + 1)"
      proof (intro allI impI)
        fix k assume "k < j + 1"
        then consider "k < j" | "k = j" by linarith
        then show "val_at ?arr1 k \<le> val_at ?arr1 (j + 1)"
        proof cases
          case 1
          then have "val_at ?arr1 k = val_at arr k" by (simp add: val_at_def)
          moreover have "val_at ?arr1 (j + 1) = val_at arr j"
            using j1 "1.prems"(1) by (simp add: val_at_def)
          ultimately show ?thesis using "1.prems"(4) 1 by simp
        next
          case 2
          then show ?thesis using True j1 jn "1.prems"(1) by (simp add: val_at_def)
        qed
      qed
      from "1.hyps"(1) [OF jm True l1 "1.prems"(2) _ p1 t1] jm
      obtain arr' anims' where
        b: "bubble_inner n i (j + 1) (?arr1, ?an1) = (arr', anims')"
        and l: "length arr' = n" and t: "tracks init (arr', anims')"
        and u: "\<forall>k. ?m < k \<longrightarrow> k < n \<longrightarrow> arr' ! k = ?arr1 ! k"
        and e: "\<forall>a \<le> ?m. \<exists>a' \<le> ?m. arr' ! a = ?arr1 ! a'"
        and mx: "\<forall>k \<le> ?m. val_at arr' k \<le> val_at arr' ?m"
        by auto
      have u': "\<forall>k. ?m < k \<longrightarrow> k < n \<longrightarrow> arr' ! k = arr ! k"
        using u jm by auto
      have e': "\<forall>a \<le> ?m. \<exists>a' \<le> ?m. arr' ! a = arr ! a'"
      proof (intro allI impI)
        fix a assume "a \<le> ?m"
        with e obtain a' where a': "a' \<le> ?m" "arr' ! a = ?arr1 ! a'" by blast
        have "\<exists>a'' \<le> ?m. ?arr1 ! a' = arr ! a''"
        proof (cases "a' = j")
          case True
          then have "?arr1 ! a' = arr ! (j + 1)" using jn "1.prems"(1) by simp
          with jm show ?thesis by (intro exI [of _ "j + 1"]) simp
        next
          case False
          show ?thesis
          proof (cases "a' = j + 1")
            case True
            then have "?arr1 ! a' = arr ! j" using j1 "1.prems"(1) by simp
            with jm show ?thesis by (intro exI [of _ j]) simp
          next
            case False
            with \<open>a' \<noteq> j\<close> have "?arr1 ! a' = arr ! a'" by simp
            with a'(1) show ?thesis by blast
          qed
        qed
        with a'(2) show "\<exists>a' \<le> ?m. arr' ! a = arr ! a'" by simp
      qed
      from b l t u' e' mx show ?thesis unfolding r by blast
    next
      case False
      let ?an1 = "anims @ [Compare (int j) (int j + 1), Reset [int j, int j + 1]]"
      have r: "bubble_inner n i j (arr, anims) = bubble_inner n i (j + 1) (arr, ?an1)"
        using jm False by (simp add: eq)
      have t1: "tracks init (arr, ?an1)"
        using tracks_push [OF "1.prems"(5)] by simp
      have p1: "\<forall>k<j + 1. val_at arr k \<le> val_at arr (j + 1)"
      proof (intro allI impI)
        fix k assume "k < j + 1"
        then consider "k < j" | "k = j" by linarith
        then show "val_at arr k \<le> val_at arr (j + 1)"
        proof cases
          case 1
          with "1.prems"(4) have "val_at arr k \<le> val_at arr j" by simp
          moreover have "val_at arr j \<le> val_at arr (j + 1)"
            using False by (simp add: val_at_def)
          ultimately show ?thesis by simp
        next
          case 2
          then show ?thesis using False by (simp add: val_at_def)
        qed
      qed
      from "1.hyps"(2) [OF jm False "1.prems"(1) "1.prems"(2) _ p1 t1] jm
      show ?thesis unfolding r by simp
    qed
  qed
qed


text \<open>
  The outer loop: before pass \<open>i\<close> the last \<open>i\<close> places hold their final values, that is,
  every place from \<open>n - i\<close> on holds a value that is at least every value before it.
\<close>

lemma bubble_outer_spec:
  assumes "length arr = n" and "i \<le> n"
    and "\<forall>a b. n - i \<le> b \<longrightarrow> a \<le> b \<longrightarrow> b < n \<longrightarrow> val_at arr a \<le> val_at arr b"
    and "tracks init (arr, anims)"
  shows "\<exists>arr' anims'. bubble_outer n i (arr, anims) = (arr', anims')
           \<and> length arr' = n \<and> tracks init (arr', anims')
           \<and> (\<forall>a b. a \<le> b \<longrightarrow> b < n \<longrightarrow> val_at arr' a \<le> val_at arr' b)"
  using assms
proof (induction n i "(arr, anims)" arbitrary: arr anims rule: bubble_outer.induct)
  case (1 n i arr anims)
  note eq = bubble_outer.simps [of n i "(arr, anims)"]
  show ?case
  proof (cases "i < n")
    case False
    then have "bubble_outer n i (arr, anims) = (arr, anims)" by (simp add: eq)
    moreover from False "1.prems"(2) have "n - i = 0" by simp
    ultimately show ?thesis using "1.prems"(1,3,4) by simp
  next
    case True
    let ?m = "n - i - 1"
    from bubble_inner_spec [OF "1.prems"(1) True _ _ "1.prems"(4), of 0]
    obtain arr1 anims1 where
      b: "bubble_inner n i 0 (arr, anims) = (arr1, anims1)"
      and l: "length arr1 = n" and t: "tracks init (arr1, anims1)"
      and u: "\<forall>k. ?m < k \<longrightarrow> k < n \<longrightarrow> arr1 ! k = arr ! k"
      and e: "\<forall>a \<le> ?m. \<exists>a' \<le> ?m. arr1 ! a = arr ! a'"
      and mx: "\<forall>k \<le> ?m. val_at arr1 k \<le> val_at arr1 ?m"
      by auto
    let ?an2 = "anims1 @ [SortedEv [int n - int i - 1]]"
    have r: "bubble_outer n i (arr, anims) = bubble_outer n (i + 1) (arr1, ?an2)"
      using True b by (simp add: eq)
    have t2: "tracks init (arr1, ?an2)"
      using tracks_push [OF t] by simp
    have q: "\<forall>a b. n - (i + 1) \<le> b \<longrightarrow> a \<le> b \<longrightarrow> b < n \<longrightarrow> val_at arr1 a \<le> val_at arr1 b"
    proof (intro allI impI)
      fix a b assume b1: "n - (i + 1) \<le> b" and ab: "a \<le> b" and bn: "b < n"
      show "val_at arr1 a \<le> val_at arr1 b"
      proof (cases "b = ?m")
        case True
        with ab mx show ?thesis by simp
      next
        case False
        with b1 have bm: "?m < b" by simp
        then have nb: "n - i \<le> b" by simp
        have vb: "val_at arr1 b = val_at arr b"
          using u bm bn by (simp add: val_at_def)
        show ?thesis
        proof (cases "a \<le> ?m")
          case True
          with e obtain a' where "a' \<le> ?m" "arr1 ! a = arr ! a'" by blast
          then have "val_at arr1 a = val_at arr a'" and "a' \<le> b"
            using bm by (simp_all add: val_at_def)
          with "1.prems"(3) nb bn vb show ?thesis by simp
        next
          case False
          then have "val_at arr1 a = val_at arr a"
            using u ab bn by (simp add: val_at_def)
          with "1.prems"(3) nb ab bn vb show ?thesis by simp
        qed
      qed
    qed
    have "i + 1 \<le> n" using True by simp
    from "1.hyps" [OF True _ l this q t2] b
    show ?thesis unfolding r by simp
  qed
qed

subsection \<open>What the replay of a recorder gives\<close>

text \<open>
  Replaying the swap and overwrite events of a recorder onto a copy of its input gives an
  array in which every bar has a value, and the values are in non-decreasing order.
\<close>

definition replays_sorted :: "(ArrayBar list \<Rightarrow> Animation list) \<Rightarrow> ArrayBar list \<Rightarrow> bool" where
  "replays_sorted rec input \<longleftrightarrow>
     (\<exists>out vs. replay (filter is_move (rec input)) (map slot_of input) = Inr out
        \<and> map slot_value out = map Some vs \<and> sorted vs)"

lemma sorted_val_at:
  assumes "\<forall>a b. a \<le> b \<longrightarrow> b < length arr \<longrightarrow> val_at arr a \<le> val_at arr b"
  shows "sorted (map bar_value arr)"
  unfolding sorted_iff_nth_mono using assms by (simp add: val_at_def)

lemma tracks_replays_sorted:
  assumes "tracks (map slot_of input) (arr, rec input)" and "sorted (map bar_value arr)"
  shows "replays_sorted rec input"
proof -
  from assms(1) obtain out where
    "replay (filter is_move (rec input)) (map slot_of input) = Inr out"
    "map slot_value out = vals arr" by (auto simp: tracks_def)
  moreover have "vals arr = map Some (map bar_value arr)" by (simp add: vals_def)
  ultimately show ?thesis using assms(2) unfolding replays_sorted_def by metis
qed

lemma bubbleSort_replays_sorted: "replays_sorted bubbleSort input"
proof -
  from bubble_outer_spec [OF refl _ _ tracks_initial, of 0 input]
  obtain arr' anims' where
    b: "bubble_outer (length input) 0 (input, []) = (arr', anims')"
    and l: "length arr' = length input"
    and t: "tracks (map slot_of input) (arr', anims')"
    and s: "\<forall>a b. a \<le> b \<longrightarrow> b < length input \<longrightarrow> val_at arr' a \<le> val_at arr' b"
    by auto
  have "anims' = bubbleSort input" using b by (simp add: bubbleSort_def)
  with t sorted_val_at [of arr'] s l show ?thesis
    by (intro tracks_replays_sorted [of input arr']) simp_all
qed

subsection \<open>mergeSort\<close>

text \<open>The merge that the three loops of \<^verbatim>\<open>merge\<close> compute.\<close>

fun fmerge :: "ArrayBar list \<Rightarrow> ArrayBar list \<Rightarrow> ArrayBar list" where
  "fmerge [] ys = ys"
| "fmerge (x # xs) [] = x # xs"
| "fmerge (x # xs) (y # ys) =
     (if bar_value x \<le> bar_value y then x # fmerge xs (y # ys) else y # fmerge (x # xs) ys)"

lemma fmerge_Nil2 [simp]: "fmerge xs [] = xs"
  by (cases xs) simp_all

lemma length_fmerge [simp]: "length (fmerge xs ys) = length xs + length ys"
  by (induction xs ys rule: fmerge.induct) simp_all

lemma set_fmerge [simp]: "set (fmerge xs ys) = set xs \<union> set ys"
  by (induction xs ys rule: fmerge.induct) auto

lemma sorted_fmerge:
  "sorted (map bar_value xs) \<Longrightarrow> sorted (map bar_value ys) \<Longrightarrow> sorted (map bar_value (fmerge xs ys))"
  by (induction xs ys rule: fmerge.induct) auto

lemma js_slice_nat:
  assumes "a \<le> b" and "b \<le> length xs"
  shows "js_slice xs (int a) (int b) = take (b - a) (drop a xs)"
  using assms by (simp add: js_slice_def Let_def min_def nat_diff_distrib')

text \<open>Writing \<open>ys\<close> over the places of \<open>arr\<close> from \<open>k\<close> on.\<close>

definition overlay :: "ArrayBar list \<Rightarrow> nat \<Rightarrow> ArrayBar list \<Rightarrow> ArrayBar list" where
  "overlay arr k ys = take k arr @ ys @ drop (k + length ys) arr"

lemma overlay_Nil [simp]: "overlay arr k [] = arr"
  by (simp add: overlay_def)

lemma overlay_Cons:
  assumes "k < length arr"
  shows "overlay (arr[k := y]) (Suc k) ys = overlay arr k (y # ys)"
proof -
  have "take (Suc k) (arr[k := y]) = take k arr @ [y]"
    using assms by (simp add: take_Suc_conv_app_nth)
  then show ?thesis by (simp add: overlay_def)
qed

lemma length_overlay: "k + length ys \<le> length arr \<Longrightarrow> length (overlay arr k ys) = length arr"
  by (simp add: overlay_def)

lemma merge_rest_spec:
  assumes "i \<le> length side" and "k + (length side - i) \<le> length arr"
    and "tracks init (arr, anims)"
  shows "\<exists>anims'. merge_rest side i (int k) (arr, anims)
            = (int (k + (length side - i)), (overlay arr k (drop i side), anims'))
           \<and> tracks init (overlay arr k (drop i side), anims')"
  using assms
proof (induction "length side - i" arbitrary: i k arr anims)
  case 0
  then have d: "drop i side = []" and "\<not> i < length side" by simp_all
  then have "merge_rest side i (int k) (arr, anims) = (int k, (arr, anims))"
    by (simp add: merge_rest.simps [of side i "int k" arr anims])
  with 0 d show ?case by simp
next
  case (Suc n)
  then have il: "i < length side" by simp
  let ?arr1 = "arr[k := side ! i]"
  let ?an1 = "anims @ [Overwrite (int k) (bar_value (side ! i))]"
  have kl: "k < length arr" using il Suc.prems(2) by simp
  have r: "merge_rest side i (int k) (arr, anims)
             = merge_rest side (Suc i) (int (Suc k)) (?arr1, ?an1)"
    using il by (simp add: merge_rest.simps [of side i "int k" arr anims] add.commute)
  have t1: "tracks init (?arr1, ?an1)"
    using tracks_overwrite [OF Suc.prems(3) kl] by simp
  have o: "overlay ?arr1 (Suc k) (drop (Suc i) side) = overlay arr k (drop i side)"
    using overlay_Cons [OF kl] il by (simp add: Cons_nth_drop_Suc)
  have a: "Suc k + (length side - Suc i) = k + (length side - i)"
    using il by simp
  have "\<exists>anims'. merge_rest side (Suc i) (int (Suc k)) (?arr1, ?an1)
          = (int (Suc k + (length side - Suc i)), (overlay ?arr1 (Suc k) (drop (Suc i) side), anims'))
         \<and> tracks init (overlay ?arr1 (Suc k) (drop (Suc i) side), anims')"
    using Suc.hyps(2) il Suc.prems(2) t1 by (intro Suc.hyps(1)) simp_all
  then show ?case unfolding r o a .
qed


text \<open>The three loops of \<^verbatim>\<open>merge\<close>, started in the middle of the first one.\<close>

definition merge_loops ::
  "ArrayBar list \<Rightarrow> ArrayBar list \<Rightarrow> int \<Rightarrow> int \<Rightarrow> nat \<Rightarrow> nat \<Rightarrow> int \<Rightarrow> rec_state \<Rightarrow> rec_state" where
  "merge_loops left right start mid i j k st =
     (let (i', j', k', st1) = merge_both left right start mid i j k st;
          (k2, st2) = merge_rest left i' k' st1;
          (k3, st3) = merge_rest right j' k2 st2
      in st3)"

lemma merge_loops_spec:
  assumes "i \<le> length left" and "j \<le> length right"
    and "k + (length left - i) + (length right - j) \<le> length arr"
    and "tracks init (arr, anims)"
  shows "\<exists>anims'. merge_loops left right start mid i j (int k) (arr, anims)
            = (overlay arr k (fmerge (drop i left) (drop j right)), anims')
           \<and> tracks init (overlay arr k (fmerge (drop i left) (drop j right)), anims')"
  using assms
proof (induction "(length left - i) + (length right - j)" arbitrary: i j k arr anims rule: less_induct)
  case less
  note eq = merge_both.simps [of left right start mid i j "int k" arr anims]
  show ?case
  proof (cases "i < length left \<and> j < length right")
    case False
    have b: "merge_both left right start mid i j (int k) (arr, anims) = (i, j, int k, (arr, anims))"
      unfolding eq by (rule if_not_P [OF False])
    from merge_rest_spec [OF less.prems(1) _ less.prems(4), of k] less.prems(3)
    obtain an1 where
      r1: "merge_rest left i (int k) (arr, anims)
             = (int (k + (length left - i)), (overlay arr k (drop i left), an1))"
      and t1: "tracks init (overlay arr k (drop i left), an1)" by auto
    have l1: "length (overlay arr k (drop i left)) = length arr"
      using less.prems(3) by (simp add: length_overlay)
    from merge_rest_spec [OF less.prems(2) _ t1, of "k + (length left - i)"] less.prems(3) l1
    obtain an2 where
      r2: "merge_rest right j (int (k + (length left - i))) (overlay arr k (drop i left), an1)
             = (int (k + (length left - i) + (length right - j)),
                (overlay (overlay arr k (drop i left)) (k + (length left - i)) (drop j right), an2))"
      and t2: "tracks init
                 (overlay (overlay arr k (drop i left)) (k + (length left - i)) (drop j right), an2)"
      by auto
    have "overlay (overlay arr k (drop i left)) (k + (length left - i)) (drop j right)
            = overlay arr k (fmerge (drop i left) (drop j right))"
    proof (cases "i < length left")
      case True
      with False less.prems(2) have "drop j right = []" by simp
      then show ?thesis by simp
    next
      case False
      with less.prems(1) have "drop i left = []" "length left - i = 0" by simp_all
      then show ?thesis by simp
    qed
    with t2 r2 r1 b show ?thesis
      by (simp add: merge_loops_def)
  next
    case True
    then have il: "i < length left" and jl: "j < length right" by simp_all
    have kl: "k < length arr" using il less.prems(3) by simp
    have dl: "drop i left = left ! i # drop (Suc i) left"
      using il by (simp add: Cons_nth_drop_Suc)
    have dr: "drop j right = right ! j # drop (Suc j) right"
      using jl by (simp add: Cons_nth_drop_Suc)
    show ?thesis
    proof (cases "bar_value (left ! i) \<le> bar_value (right ! j)")
      case le: True
      let ?arr1 = "arr[k := left ! i]"
      let ?an1 = "anims @ [Compare (start + int i) (mid + 1 + int j),
                          Overwrite (int k) (bar_value (left ! i)),
                          Reset [start + int (i + 1) - 1, mid + 1 + int j - 1]]"
      have b: "merge_both left right start mid i j (int k) (arr, anims)
                 = merge_both left right start mid (Suc i) j (int (Suc k)) (?arr1, ?an1)"
        using True le by (simp add: eq add.commute)
      have t1: "tracks init (?arr1, ?an1)"
        using tracks_overwrite [OF less.prems(4) kl] by simp
      have "\<exists>anims'. merge_loops left right start mid (Suc i) j (int (Suc k)) (?arr1, ?an1)
            = (overlay ?arr1 (Suc k) (fmerge (drop (Suc i) left) (drop j right)), anims')
           \<and> tracks init (overlay ?arr1 (Suc k) (fmerge (drop (Suc i) left) (drop j right)), anims')"
        using il jl less.prems(2,3) t1 by (intro less.hyps) simp_all
      moreover have "overlay ?arr1 (Suc k) (fmerge (drop (Suc i) left) (drop j right))
                       = overlay arr k (fmerge (drop i left) (drop j right))"
        using overlay_Cons [OF kl] le by (simp add: dl dr [symmetric]) (simp add: dr)
      moreover have "merge_loops left right start mid i j (int k) (arr, anims)
                       = merge_loops left right start mid (Suc i) j (int (Suc k)) (?arr1, ?an1)"
        by (simp add: merge_loops_def b)
      ultimately show ?thesis by simp
    next
      case gt: False
      let ?arr1 = "arr[k := right ! j]"
      let ?an1 = "anims @ [Compare (start + int i) (mid + 1 + int j),
                          Overwrite (int k) (bar_value (right ! j)),
                          Reset [start + int i - 1, mid + 1 + int (j + 1) - 1]]"
      have b: "merge_both left right start mid i j (int k) (arr, anims)
                 = merge_both left right start mid i (Suc j) (int (Suc k)) (?arr1, ?an1)"
        using True gt by (simp add: eq add.commute)
      have t1: "tracks init (?arr1, ?an1)"
        using tracks_overwrite [OF less.prems(4) kl] by simp
      have "\<exists>anims'. merge_loops left right start mid i (Suc j) (int (Suc k)) (?arr1, ?an1)
            = (overlay ?arr1 (Suc k) (fmerge (drop i left) (drop (Suc j) right)), anims')
           \<and> tracks init (overlay ?arr1 (Suc k) (fmerge (drop i left) (drop (Suc j) right)), anims')"
        using il jl less.prems(1,3) t1 by (intro less.hyps) simp_all
      moreover have "overlay ?arr1 (Suc k) (fmerge (drop i left) (drop (Suc j) right))
                       = overlay arr k (fmerge (drop i left) (drop j right))"
        using overlay_Cons [OF kl] gt by (simp add: dr dl [symmetric]) (simp add: dl)
      moreover have "merge_loops left right start mid i j (int k) (arr, anims)
                       = merge_loops left right start mid i (Suc j) (int (Suc k)) (?arr1, ?an1)"
        by (simp add: merge_loops_def b)
      ultimately show ?thesis by simp
    qed
  qed
qed


lemma take_overlay: "k \<le> length arr \<Longrightarrow> take k (overlay arr k ys) = take k arr"
  by (simp add: overlay_def)

lemma drop_overlay:
  "k \<le> length arr \<Longrightarrow> drop (k + length ys) (overlay arr k ys) = drop (k + length ys) arr"
  by (simp add: overlay_def)

lemma mid_overlay: "k \<le> length arr \<Longrightarrow> take (length ys) (drop k (overlay arr k ys)) = ys"
  by (simp add: overlay_def)

lemma merge_spec:
  assumes "s \<le> m" and "m < e" and "e < length arr" and "tracks init (arr, anims)"
  shows "\<exists>anims'. merge (arr, anims) (int s) (int m) (int e)
            = (overlay arr s (fmerge (take (Suc m - s) (drop s arr)) (take (e - m) (drop (Suc m) arr))),
               anims')
           \<and> tracks init
                (overlay arr s (fmerge (take (Suc m - s) (drop s arr)) (take (e - m) (drop (Suc m) arr))),
                 anims')"
proof -
  let ?left = "take (Suc m - s) (drop s arr)" and ?right = "take (e - m) (drop (Suc m) arr)"
  have l: "js_slice arr (int s) (int m + 1) = ?left"
    using js_slice_nat [of s "Suc m" arr] assms by (simp add: add.commute)
  have r: "js_slice arr (int m + 1) (int e + 1) = ?right"
    using js_slice_nat [of "Suc m" "Suc e" arr] assms by (simp add: add.commute)
  have m: "merge (arr, anims) (int s) (int m) (int e)
             = merge_loops ?left ?right (int s) (int m) 0 0 (int s) (arr, anims)"
    by (simp add: merge_def merge_loops_def l r Let_def)
  have ll: "length ?left = Suc m - s" and lr: "length ?right = e - m"
    using assms by simp_all
  have "s + (length ?left - 0) + (length ?right - 0) \<le> length arr"
    unfolding ll lr using assms by simp
  from merge_loops_spec [OF _ _ this assms(4), of "int s" "int m"]
  show ?thesis unfolding m by simp
qed

lemma mergeSortHelper_spec:
  assumes "s \<le> e" and "e < length arr" and "tracks init (arr, anims)"
  shows "\<exists>arr' anims'. mergeSortHelper (arr, anims) (int s) (int e) = (arr', anims')
           \<and> tracks init (arr', anims') \<and> length arr' = length arr
           \<and> take s arr' = take s arr \<and> drop (Suc e) arr' = drop (Suc e) arr
           \<and> sorted (map bar_value (take (Suc e - s) (drop s arr')))"
  using assms
proof (induction "e - s" arbitrary: s e arr anims rule: less_induct)
  case less
  note eq = mergeSortHelper.simps [of "(arr, anims)" "int s" "int e"]
  show ?case
  proof (cases "s = e")
    case True
    have "mergeSortHelper (arr, anims) (int s) (int e) = (arr, anims)"
      unfolding eq using True by simp
    moreover have "sorted (map bar_value (take (Suc e - s) (drop s arr)))"
      using True by (cases "drop e arr") simp_all
    ultimately show ?thesis using less.prems(3) by simp
  next
    case False
    with less.prems(1) have se: "s < e" by simp
    define m where "m = (s + e) div 2"
    have sm: "s \<le> m" and me: "m < e" using se by (simp_all add: m_def)
    have mid: "(int s + int e) div 2 = int m"
      by (simp add: m_def zdiv_int)
    have d1: "m - s < e - s" using sm me by simp
    have ml: "m < length arr" using me less.prems(2) by simp
    from less.hyps [OF d1 sm ml less.prems(3)]
    obtain arr1 an1 where
      h1: "mergeSortHelper (arr, anims) (int s) (int m) = (arr1, an1)"
      and t1: "tracks init (arr1, an1)" and l1: "length arr1 = length arr"
      and tk1: "take s arr1 = take s arr" and dr1: "drop (Suc m) arr1 = drop (Suc m) arr"
      and so1: "sorted (map bar_value (take (Suc m - s) (drop s arr1)))"
      by (elim exE conjE)
    have d2: "e - Suc m < e - s" using sm me by simp
    have me': "Suc m \<le> e" using me by simp
    have el: "e < length arr1" using less.prems(2) l1 by simp
    from less.hyps [OF d2 me' el t1]
    obtain arr2 an2 where
      h2: "mergeSortHelper (arr1, an1) (int (Suc m)) (int e) = (arr2, an2)"
      and t2: "tracks init (arr2, an2)" and l2: "length arr2 = length arr1"
      and tk2: "take (Suc m) arr2 = take (Suc m) arr1" and dr2: "drop (Suc e) arr2 = drop (Suc e) arr1"
      and so2: "sorted (map bar_value (take (Suc e - Suc m) (drop (Suc m) arr2)))"
      by (elim exE conjE)
    let ?left = "take (Suc m - s) (drop s arr2)" and ?right = "take (e - m) (drop (Suc m) arr2)"
    from merge_spec [OF sm me _ t2] less.prems(2) l1 l2
    obtain an3 where
      h3: "merge (arr2, an2) (int s) (int m) (int e) = (overlay arr2 s (fmerge ?left ?right), an3)"
      and t3: "tracks init (overlay arr2 s (fmerge ?left ?right), an3)"
      by auto
    have r: "mergeSortHelper (arr, anims) (int s) (int e) = (overlay arr2 s (fmerge ?left ?right), an3)"
    proof -
      have h2': "mergeSortHelper (arr1, an1) (int m + 1) (int e) = (arr2, an2)"
        using h2 by (simp add: add.commute)
      have ns: "\<not> int e \<le> int s" using se by simp
      show ?thesis unfolding eq mid by (simp only: ns if_False h1 h2' h3)
    qed
    have left_eq: "?left = take (Suc m - s) (drop s arr1)"
    proof -
      have "?left = drop s (take (Suc m) arr2)" by (simp add: drop_take)
      also have "\<dots> = drop s (take (Suc m) arr1)" by (simp only: tk2)
      also have "\<dots> = take (Suc m - s) (drop s arr1)" by (simp add: drop_take)
      finally show ?thesis .
    qed
    have sl: "sorted (map bar_value ?left)" unfolding left_eq by (rule so1)
    have sr: "sorted (map bar_value ?right)" using so2 by simp
    have len: "length (fmerge ?left ?right) = Suc e - s"
      using sm me less.prems(2) l1 l2 by simp
    have sle: "s \<le> length arr2" using less.prems(1,2) l1 l2 by simp
    have c1: "length (overlay arr2 s (fmerge ?left ?right)) = length arr"
      using length_overlay [of s "fmerge ?left ?right" arr2] len less.prems(1,2) l1 l2 by simp
    have "take s arr2 = take s arr1"
    proof -
      have "take s arr2 = take s (take (Suc m) arr2)" using sm by (simp add: min_def)
      also have "\<dots> = take s (take (Suc m) arr1)" by (simp only: tk2)
      also have "\<dots> = take s arr1" using sm by (simp add: min_def)
      finally show ?thesis .
    qed
    then have c2: "take s (overlay arr2 s (fmerge ?left ?right)) = take s arr"
      using take_overlay [OF sle] tk1 by simp
    have "drop (Suc e) arr1 = drop (Suc e) arr"
    proof -
      have "drop (Suc e) arr1 = drop (e - m) (drop (Suc m) arr1)" using me by simp
      also have "\<dots> = drop (e - m) (drop (Suc m) arr)" by (simp only: dr1)
      also have "\<dots> = drop (Suc e) arr" using me by simp
      finally show ?thesis .
    qed
    moreover have "s + length (fmerge ?left ?right) = Suc e"
      unfolding len using less.prems(1) by simp
    ultimately have c3: "drop (Suc e) (overlay arr2 s (fmerge ?left ?right)) = drop (Suc e) arr"
      using drop_overlay [OF sle, of "fmerge ?left ?right"] dr2 by simp
    have "take (Suc e - s) (drop s (overlay arr2 s (fmerge ?left ?right))) = fmerge ?left ?right"
      using mid_overlay [OF sle, of "fmerge ?left ?right"] len by simp
    then have c4: "sorted (map bar_value (take (Suc e - s) (drop s (overlay arr2 s (fmerge ?left ?right)))))"
      using sorted_fmerge [OF sl sr] by simp
    from r t3 c1 c2 c3 c4 show ?thesis by blast
  qed
qed

lemma mergeSort_replays_sorted: "replays_sorted mergeSort input"
proof (cases "input = []")
  case True
  have "mergeSortHelper ([], []) 0 (- 1) = ([], [])"
    by (simp add: mergeSortHelper.simps [of "([], [])" 0 "- 1"])
  then have "mergeSort input = []" using True by (simp add: mergeSort_def)
  with True show ?thesis by (simp add: replays_sorted_def)
next
  case False
  then have n: "0 < length input" by simp
  have e: "int (length input) - 1 = int (length input - 1)" using False by (cases input) simp_all
  from mergeSortHelper_spec [OF _ _ tracks_initial, of 0 "length input - 1" input] n
  obtain arr' anims' where
    h: "mergeSortHelper (input, []) 0 (int (length input - 1)) = (arr', anims')"
    and t: "tracks (map slot_of input) (arr', anims')" and l: "length arr' = length input"
    and so: "sorted (map bar_value (take (Suc (length input - 1) - 0) (drop 0 arr')))"
    by auto
  have so': "sorted (map bar_value arr')" using so n l by simp
  have "mergeSort input = anims' @ map (\<lambda>i. SortedEv [int i]) [0..<length arr']"
    using h by (simp add: mergeSort_def e)
  moreover have "filter is_move (map (\<lambda>i. SortedEv [int i]) [0..<length arr']) = []"
    by (induction "length arr'") (simp_all add: filter_empty_conv)
  ultimately have "tracks (map slot_of input) (arr', mergeSort input)"
    using tracks_push [OF t] by simp
  from tracks_replays_sorted [where rec = mergeSort and input = input, OF this so']
  show ?thesis .
qed

subsection \<open>insertionSort\<close>

text \<open>
  Inside the while loop the working copy has a free place \<open>h = j + 1\<close>, and the replayed
  array is the working copy with the key at that place: the recorded swaps carry the key
  down while the code shifts the larger bars up.
\<close>

definition tracks_hole :: "Slot list \<Rightarrow> nat \<Rightarrow> int \<Rightarrow> rec_state \<Rightarrow> bool" where
  "tracks_hole init h key st \<longleftrightarrow>
     (\<exists>out. replay (filter is_move (snd st)) init = Inr out
        \<and> map slot_value out = (vals (fst st))[h := Some key])"

lemma tracks_hole_shift:
  assumes "tracks_hole init (Suc h) key (arr, anims)" and "Suc h < length arr"
    and "filter is_move es = [Swap (int h) (int h + 1)]"
  shows "tracks_hole init h key (arr[Suc h := arr ! h], anims @ es)"
proof -
  from assms(1) obtain out where
    r: "replay (filter is_move anims) init = Inr out"
    and v: "map slot_value out = (vals arr)[Suc h := Some key]"
    by (auto simp: tracks_hole_def)
  have len: "length out = length arr"
    using v by (metis length_list_update length_map length_vals)
  have a: "applyAnimation out (Swap (int h) (int h + 1)) = Inr (out[h := out ! Suc h, Suc h := out ! h])"
    using assms(2) len by (simp add: js_get_def js_set_def Let_def nat_add_distrib)
  have oh: "slot_value (out ! h) = Some (bar_value (arr ! h))"
    using arg_cong [OF v, of "\<lambda>xs. xs ! h"] assms(2) len by (simp add: vals_nth)
  have oh1: "slot_value (out ! Suc h) = Some key"
    using arg_cong [OF v, of "\<lambda>xs. xs ! Suc h"] assms(2) len by simp
  have "map slot_value (out[h := out ! Suc h, Suc h := out ! h])
          = (map slot_value out)[h := Some key, Suc h := Some (bar_value (arr ! h))]"
    by (simp add: map_update oh oh1)
  also have "\<dots> = (vals arr)[Suc h := Some (bar_value (arr ! h)), h := Some key]"
    unfolding v by (simp add: list_update_swap)
  also have "\<dots> = (vals (arr[Suc h := arr ! h]))[h := Some key]"
    by (simp add: vals_update)
  finally have "map slot_value (out[h := out ! Suc h, Suc h := out ! h])
                  = (vals (arr[Suc h := arr ! h]))[h := Some key]" .
  with r a assms(3) show ?thesis
    by (simp add: tracks_hole_def replay_append)
qed

lemma tracks_hole_push:
  assumes "tracks_hole init h key (arr, anims)" and "filter is_move es = []"
  shows "tracks_hole init h key (arr, anims @ es)"
  using assms by (simp add: tracks_hole_def)

lemma insertion_while_spec:
  assumes "h < length arr" and "tracks_hole init h key (arr, anims)"
  shows "\<exists>h' arr' anims'. insertion_while i key (int h - 1) (arr, anims) = (int h' - 1, (arr', anims'))
           \<and> h' \<le> h \<and> length arr' = length arr \<and> tracks_hole init h' key (arr', anims')
           \<and> (\<forall>k < h'. arr' ! k = arr ! k)
           \<and> (\<forall>k. h' < k \<longrightarrow> k \<le> h \<longrightarrow> arr' ! k = arr ! (k - 1) \<and> key < val_at arr (k - 1))
           \<and> (\<forall>k. h < k \<longrightarrow> k < length arr \<longrightarrow> arr' ! k = arr ! k)
           \<and> (h' = 0 \<or> val_at arr (h' - 1) \<le> key)"
  using assms
proof (induction h arbitrary: arr anims)
  case 0
  have "insertion_while i key (int 0 - 1) (arr, anims) = (int 0 - 1, (arr, anims))"
    by (simp add: insertion_while.simps [of i key "- 1" arr anims])
  with 0 show ?case
    by (intro exI [of _ 0] exI [of _ arr] exI [of _ anims]) simp
next
  case (Suc h)
  note eq = insertion_while.simps [of i key "int h" arr anims]
  have j: "int (Suc h) - 1 = int h" by simp
  show ?case
  proof (cases "key < bar_value (arr ! h)")
    case False
    have "insertion_while i key (int (Suc h) - 1) (arr, anims) = (int (Suc h) - 1, (arr, anims))"
      unfolding j eq using False by simp
    moreover have "val_at arr (Suc h - 1) \<le> key" using False by (simp add: val_at_def)
    ultimately show ?thesis using Suc.prems
      by (intro exI [of _ "Suc h"] exI [of _ arr] exI [of _ anims]) simp
  next
    case True
    let ?arr1 = "arr[Suc h := arr ! h]"
    let ?es = "[Swap (int h) (int h + 1)] @ (if int h - 1 \<ge> 0 then [Compare (int i) (int h - 1)] else [])"
    have r: "insertion_while i key (int (Suc h) - 1) (arr, anims)
               = insertion_while i key (int h - 1) (?arr1, anims @ ?es)"
      unfolding j eq using True by (simp add: nat_add_distrib)
    have t1: "tracks_hole init h key (?arr1, anims @ ?es)"
      by (rule tracks_hole_shift [OF Suc.prems(2,1)]) simp
    have "h < length ?arr1" using Suc.prems(1) by simp
    from Suc.IH [OF this t1]
    obtain h' arr' anims' where
      w: "insertion_while i key (int h - 1) (?arr1, anims @ ?es) = (int h' - 1, (arr', anims'))"
      and hh: "h' \<le> h" and l: "length arr' = length ?arr1"
      and t: "tracks_hole init h' key (arr', anims')"
      and lo: "\<forall>k < h'. arr' ! k = ?arr1 ! k"
      and mi: "\<forall>k. h' < k \<longrightarrow> k \<le> h \<longrightarrow> arr' ! k = ?arr1 ! (k - 1) \<and> key < val_at ?arr1 (k - 1)"
      and hi: "\<forall>k. h < k \<longrightarrow> k < length ?arr1 \<longrightarrow> arr' ! k = ?arr1 ! k"
      and ex: "h' = 0 \<or> val_at ?arr1 (h' - 1) \<le> key"
      by (elim exE conjE)
    have c1: "\<forall>k < h'. arr' ! k = arr ! k" using lo hh by simp
    have c2: "\<forall>k. h' < k \<longrightarrow> k \<le> Suc h \<longrightarrow> arr' ! k = arr ! (k - 1) \<and> key < val_at arr (k - 1)"
    proof (intro allI impI)
      fix k assume k: "h' < k" "k \<le> Suc h"
      show "arr' ! k = arr ! (k - 1) \<and> key < val_at arr (k - 1)"
      proof (cases "k = Suc h")
        case True
        then have "arr' ! k = ?arr1 ! Suc h" using hi Suc.prems(1) by simp
        then show ?thesis using True \<open>key < bar_value (arr ! h)\<close> Suc.prems(1)
          by (simp add: val_at_def)
      next
        case False
        with k have "k \<le> h" by simp
        with mi k(1) have "arr' ! k = ?arr1 ! (k - 1) \<and> key < val_at ?arr1 (k - 1)" by simp
        moreover have "k - 1 \<noteq> Suc h" using \<open>k \<le> h\<close> by simp
        ultimately show ?thesis by (simp add: val_at_def)
      qed
    qed
    have c3: "\<forall>k. Suc h < k \<longrightarrow> k < length arr \<longrightarrow> arr' ! k = arr ! k"
      using hi by simp
    have c4: "h' = 0 \<or> val_at arr (h' - 1) \<le> key"
      using ex hh by (auto simp: val_at_def)
    have c5: "h' \<le> Suc h" using hh by simp
    have c6: "length arr' = length arr" using l by simp
    from w c5 c6 t c1 c2 c3 c4 show ?thesis unfolding r by blast
  qed
qed


text \<open>One step of the for loop: the places before \<open>i\<close> are in order, then so are those up to \<open>i\<close>.\<close>

lemma insertion_step_spec:
  assumes "i < length arr" and "tracks init (arr, anims)"
    and "\<forall>a b. a \<le> b \<longrightarrow> b < i \<longrightarrow> val_at arr a \<le> val_at arr b"
  shows "\<exists>arr' anims'. insertion_step i (arr, anims) = (arr', anims')
           \<and> length arr' = length arr \<and> tracks init (arr', anims')
           \<and> (\<forall>a b. a \<le> b \<longrightarrow> b < Suc i \<longrightarrow> val_at arr' a \<le> val_at arr' b)"
proof -
  let ?key = "bar_value (arr ! i)"
  let ?an0 = "anims @ [Compare (int i) (int i - 1)]"
  from assms(2) obtain out where
    r: "replay (filter is_move anims) init = Inr out" and v: "map slot_value out = vals arr"
    by (auto simp: tracks_def)
  have "(vals arr)[i := Some ?key] = vals arr"
    using assms(1) by (simp add: vals_def list_update_same_conv)
  with r v have t0: "tracks_hole init i ?key (arr, ?an0)"
    by (simp add: tracks_hole_def)
  from insertion_while_spec [OF assms(1) t0, of i]
  obtain h arr1 an1 where
    w: "insertion_while i ?key (int i - 1) (arr, ?an0) = (int h - 1, (arr1, an1))"
    and hi: "h \<le> i" and l: "length arr1 = length arr"
    and t: "tracks_hole init h ?key (arr1, an1)"
    and lo: "\<forall>k < h. arr1 ! k = arr ! k"
    and mi: "\<forall>k. h < k \<longrightarrow> k \<le> i \<longrightarrow> arr1 ! k = arr ! (k - 1) \<and> ?key < val_at arr (k - 1)"
    and ex: "h = 0 \<or> val_at arr (h - 1) \<le> ?key"
    by (elim exE conjE)
  let ?arr2 = "arr1[h := \<lparr>bar_value = ?key, bar_state = Default\<rparr>]"
  let ?an2 = "an1 @ [Reset [int i, max 0 (int h - 1)], SortedEv [int h - 1 + 1]]"
  have s: "insertion_step i (arr, anims) = (?arr2, ?an2)"
    using w by (simp add: insertion_step_def Let_def)
  have hl: "h < length arr1" using hi assms(1) l by simp
  from t obtain out1 where
    r1: "replay (filter is_move an1) init = Inr out1"
    and v1: "map slot_value out1 = (vals arr1)[h := Some ?key]"
    by (auto simp: tracks_hole_def)
  have t2: "tracks init (?arr2, ?an2)"
    using r1 v1 by (simp add: tracks_def vals_update)
  have val2: "val_at ?arr2 k = (if k = h then ?key else val_at arr1 k)" if "k < length arr1" for k
    using that by (simp add: val_at_def nth_list_update)
  have so: "val_at ?arr2 a \<le> val_at ?arr2 b" if ab: "a \<le> b" and bi: "b < Suc i" for a b
  proof -
    have al: "a < length arr1" and bl: "b < length arr1" using ab bi assms(1) l by simp_all
    consider "b < h" | "a < h" "b = h" | "a < h" "h < b" | "a = h" "b = h" | "a = h" "h < b" | "h < a"
      using ab by linarith
    then show ?thesis
    proof cases
      case 1
      with ab have "val_at ?arr2 a = val_at arr a" "val_at ?arr2 b = val_at arr b"
        using lo al bl by (simp_all add: val_at_def)
      with assms(3) ab 1 hi show ?thesis by simp
    next
      case 2
      then have "val_at ?arr2 a = val_at arr a" "val_at ?arr2 b = ?key"
        using lo al bl by (simp_all add: val_at_def)
      moreover have "val_at arr a \<le> val_at arr (h - 1)"
        using assms(3) 2 hi by simp
      moreover have "val_at arr (h - 1) \<le> ?key" using ex 2 by auto
      ultimately show ?thesis by simp
    next
      case 3
      then have "val_at ?arr2 a = val_at arr a" "val_at ?arr2 b = val_at arr (b - 1)"
        using lo mi al bl bi by (simp_all add: val_at_def)
      with assms(3) 3 bi show ?thesis by simp
    next
      case 4
      then show ?thesis by simp
    next
      case 5
      then have "val_at ?arr2 a = ?key" "val_at ?arr2 b = val_at arr (b - 1)" "?key < val_at arr (b - 1)"
        using mi al bl bi by (simp_all add: val_at_def)
      then show ?thesis by simp
    next
      case 6
      then have "val_at ?arr2 a = val_at arr (a - 1)" "val_at ?arr2 b = val_at arr (b - 1)"
        using mi al bl bi ab by (simp_all add: val_at_def)
      with assms(3) 6 ab bi show ?thesis by simp
    qed
  qed
  have "length ?arr2 = length arr" using l by simp
  with s t2 so show ?thesis by blast
qed

lemma insertion_for_spec:
  assumes "length arr = n" and "tracks init (arr, anims)"
    and "\<forall>a b. a \<le> b \<longrightarrow> b < i \<longrightarrow> b < n \<longrightarrow> val_at arr a \<le> val_at arr b"
  shows "\<exists>arr' anims'. insertion_for n i (arr, anims) = (arr', anims')
           \<and> length arr' = n \<and> tracks init (arr', anims')
           \<and> (\<forall>a b. a \<le> b \<longrightarrow> b < n \<longrightarrow> val_at arr' a \<le> val_at arr' b)"
  using assms
proof (induction "n - i" arbitrary: i arr anims)
  case 0
  then have "insertion_for n i (arr, anims) = (arr, anims)"
    by (simp add: insertion_for.simps [of n i "(arr, anims)"])
  moreover have "\<forall>a b. a \<le> b \<longrightarrow> b < n \<longrightarrow> val_at arr a \<le> val_at arr b"
    using 0 by simp
  ultimately show ?case using 0 by simp
next
  case (Suc d)
  then have il: "i < n" by simp
  have p: "\<forall>a b. a \<le> b \<longrightarrow> b < i \<longrightarrow> val_at arr a \<le> val_at arr b"
    using Suc.prems(3) il by simp
  from insertion_step_spec [OF _ Suc.prems(2) p] il Suc.prems(1)
  obtain arr1 an1 where
    s: "insertion_step i (arr, anims) = (arr1, an1)" and l: "length arr1 = n"
    and t: "tracks init (arr1, an1)"
    and so: "\<forall>a b. a \<le> b \<longrightarrow> b < Suc i \<longrightarrow> val_at arr1 a \<le> val_at arr1 b"
    by auto
  have r: "insertion_for n i (arr, anims) = insertion_for n (Suc i) (arr1, an1)"
    using il s by (simp add: insertion_for.simps [of n i "(arr, anims)"])
  have d: "d = n - Suc i" using Suc.hyps(2) by simp
  have so': "\<forall>a b. a \<le> b \<longrightarrow> b < Suc i \<longrightarrow> b < n \<longrightarrow> val_at arr1 a \<le> val_at arr1 b"
    using so by simp
  from Suc.hyps(1) [OF d l t so'] show ?case unfolding r .
qed

lemma insertionSort_replays_sorted: "replays_sorted insertionSort input"
proof -
  have t0: "tracks (map slot_of input) (input, [SortedEv [0]])"
    using tracks_push [OF tracks_initial, of "[SortedEv [0]]" input] by simp
  have "\<forall>a b. a \<le> b \<longrightarrow> b < 1 \<longrightarrow> b < length input \<longrightarrow> val_at input a \<le> val_at input b"
    by simp
  from insertion_for_spec [OF refl t0 this]
  obtain arr' anims' where
    f: "insertion_for (length input) 1 (input, [SortedEv [0]]) = (arr', anims')"
    and l: "length arr' = length input"
    and t: "tracks (map slot_of input) (arr', anims')"
    and so: "\<forall>a b. a \<le> b \<longrightarrow> b < length input \<longrightarrow> val_at arr' a \<le> val_at arr' b"
    by auto
  have e: "anims' = insertionSort input" using f by (simp add: insertionSort_def)
  have "sorted (map bar_value arr')" using sorted_val_at [of arr'] so l by simp
  from tracks_replays_sorted [where rec = insertionSort and input = input, OF t [unfolded e] this]
  show ?thesis .
qed

subsection \<open>quickSort\<close>

text \<open>
  The loop of \<^verbatim>\<open>partition\<close>, with \<open>s = i + 1\<close> the place of the next value smaller than
  the pivot: the places from \<open>lo\<close> up to \<open>s\<close> hold smaller values, those from \<open>s\<close> up to
  \<open>j\<close> hold the others.
\<close>

lemma partition_loop_spec:
  assumes "lo \<le> s" and "s \<le> j" and "j \<le> hi" and "hi < length arr"
    and "tracks init (arr, anims)"
    and "\<forall>k. lo \<le> k \<longrightarrow> k < s \<longrightarrow> val_at arr k < pv"
    and "\<forall>k. s \<le> k \<longrightarrow> k < j \<longrightarrow> pv \<le> val_at arr k"
  shows "\<exists>s' arr' anims'.
           partition_loop (int hi) pv (int j) (int s - 1) (arr, anims) = (int s' - 1, (arr', anims'))
           \<and> lo \<le> s' \<and> s' \<le> hi \<and> length arr' = length arr \<and> tracks init (arr', anims')
           \<and> (\<forall>k. lo \<le> k \<longrightarrow> k < s' \<longrightarrow> val_at arr' k < pv)
           \<and> (\<forall>k. s' \<le> k \<longrightarrow> k < hi \<longrightarrow> pv \<le> val_at arr' k)
           \<and> arr' ! hi = arr ! hi
           \<and> (\<forall>k. k < lo \<or> hi < k \<longrightarrow> arr' ! k = arr ! k)
           \<and> (\<forall>a. lo \<le> a \<longrightarrow> a \<le> hi \<longrightarrow> (\<exists>a'. lo \<le> a' \<and> a' \<le> hi \<and> arr' ! a = arr ! a'))"
  using assms
proof (induction "hi - j" arbitrary: s j arr anims)
  case 0
  then have jh: "j = hi" by simp
  have "partition_loop (int hi) pv (int j) (int s - 1) (arr, anims) = (int s - 1, (arr, anims))"
    unfolding partition_loop.simps [of "int hi" pv "int j" "int s - 1" arr anims]
    using jh by simp
  moreover have "\<forall>a. lo \<le> a \<longrightarrow> a \<le> hi \<longrightarrow> (\<exists>a'. lo \<le> a' \<and> a' \<le> hi \<and> arr ! a = arr ! a')"
    by blast
  ultimately show ?case
    using 0 jh by (intro exI [of _ s] exI [of _ arr] exI [of _ anims]) simp
next
  case (Suc d)
  then have jh: "j < hi" by simp
  note eq = partition_loop.simps [of "int hi" pv "int j" "int s - 1" arr anims]
  have d: "d = hi - Suc j" using Suc.hyps(2) by simp
  have jl: "j < length arr" and sl: "s < length arr"
    using jh Suc.prems(2,4) by simp_all
  show ?case
  proof (cases "bar_value (arr ! j) < pv")
    case True
    let ?arr1 = "arr[s := arr ! j, j := arr ! s]"
    let ?an1 = "anims @ [Compare (int j) (int hi), Swap (int s) (int j), Reset [int j, int hi]]"
    have r: "partition_loop (int hi) pv (int j) (int s - 1) (arr, anims)
               = partition_loop (int hi) pv (int (Suc j)) (int (Suc s) - 1) (?arr1, ?an1)"
      unfolding eq using jh True by (simp add: add.commute)
    have t1: "tracks init (?arr1, ?an1)"
      using tracks_swap [OF Suc.prems(5) sl jl] by simp
    have n1: "?arr1 ! k = arr ! k" if "k \<noteq> s" "k \<noteq> j" for k
      using that by simp
    have ns: "?arr1 ! s = arr ! j"
      using sl jl by (simp add: nth_list_update)
    have nj: "?arr1 ! j = arr ! s"
      using jl by simp
    have p1: "\<forall>k. lo \<le> k \<longrightarrow> k < Suc s \<longrightarrow> val_at ?arr1 k < pv"
    proof (intro allI impI)
      fix k assume k: "lo \<le> k" "k < Suc s"
      show "val_at ?arr1 k < pv"
      proof (cases "k = s")
        case True
        then show ?thesis using ns \<open>bar_value (arr ! j) < pv\<close> by (simp add: val_at_def)
      next
        case False
        with k Suc.prems(2) have ks: "k < s" "k \<noteq> j" by simp_all
        from n1 [OF False ks(2)] Suc.prems(6) k(1) ks(1) show ?thesis by (simp add: val_at_def)
      qed
    qed
    have p2: "\<forall>k. Suc s \<le> k \<longrightarrow> k < Suc j \<longrightarrow> pv \<le> val_at ?arr1 k"
    proof (intro allI impI)
      fix k assume k: "Suc s \<le> k" "k < Suc j"
      show "pv \<le> val_at ?arr1 k"
      proof (cases "k = j")
        case True
        with k have "s < j" by simp
        with Suc.prems(7) have "pv \<le> val_at arr s" by simp
        with True nj show ?thesis by (simp add: val_at_def)
      next
        case False
        with k have kk: "k \<noteq> s" "k \<noteq> j" "s \<le> k" "k < j" by simp_all
        from n1 [OF kk(1,2)] Suc.prems(7) kk(3,4) show ?thesis by (simp add: val_at_def)
      qed
    qed
    have "Suc s \<le> Suc j" "Suc j \<le> hi" "lo \<le> Suc s" "hi < length ?arr1"
      using Suc.prems(1,2,4) jh by simp_all
    from Suc.hyps(1) [OF d this(3,1,2,4) t1 p1 p2]
    obtain s' arr' anims' where
      w: "partition_loop (int hi) pv (int (Suc j)) (int (Suc s) - 1) (?arr1, ?an1)
            = (int s' - 1, (arr', anims'))"
      and b: "lo \<le> s'" "s' \<le> hi" and l: "length arr' = length ?arr1"
      and t: "tracks init (arr', anims')"
      and q1: "\<forall>k. lo \<le> k \<longrightarrow> k < s' \<longrightarrow> val_at arr' k < pv"
      and q2: "\<forall>k. s' \<le> k \<longrightarrow> k < hi \<longrightarrow> pv \<le> val_at arr' k"
      and q3: "arr' ! hi = ?arr1 ! hi"
      and q4: "\<forall>k. k < lo \<or> hi < k \<longrightarrow> arr' ! k = ?arr1 ! k"
      and q5: "\<forall>a. lo \<le> a \<longrightarrow> a \<le> hi \<longrightarrow> (\<exists>a'. lo \<le> a' \<and> a' \<le> hi \<and> arr' ! a = ?arr1 ! a')"
      by (elim exE conjE)
    have "hi \<noteq> s" "hi \<noteq> j" using jh Suc.prems(2) by simp_all
    from n1 [OF this] q3 have c3: "arr' ! hi = arr ! hi" by simp
    have c4: "\<forall>k. k < lo \<or> hi < k \<longrightarrow> arr' ! k = arr ! k"
    proof (intro allI impI)
      fix k assume k: "k < lo \<or> hi < k"
      then have ks: "k \<noteq> s" and kj: "k \<noteq> j" using Suc.prems(1,2) jh by auto
      from q4 k have "arr' ! k = ?arr1 ! k" by blast
      also have "\<dots> = arr ! k" by (rule n1 [OF ks kj])
      finally show "arr' ! k = arr ! k" .
    qed
    have c5: "\<forall>a. lo \<le> a \<longrightarrow> a \<le> hi \<longrightarrow> (\<exists>a'. lo \<le> a' \<and> a' \<le> hi \<and> arr' ! a = arr ! a')"
    proof (intro allI impI)
      fix a assume a: "lo \<le> a" "a \<le> hi"
      with q5 obtain a' where a': "lo \<le> a'" "a' \<le> hi" "arr' ! a = ?arr1 ! a'" by blast
      have "\<exists>a''. lo \<le> a'' \<and> a'' \<le> hi \<and> ?arr1 ! a' = arr ! a''"
      proof (cases "a' = s")
        case True
        with ns Suc.prems(1,2) jh show ?thesis by (intro exI [of _ j]) simp
      next
        case ns': False
        show ?thesis
        proof (cases "a' = j")
          case True
          with nj Suc.prems(1,2) jh show ?thesis by (intro exI [of _ s]) simp
        next
          case False
          from n1 [OF ns' False] a' show ?thesis by (intro exI [of _ a']) simp
        qed
      qed
      with a'(3) show "\<exists>a'. lo \<le> a' \<and> a' \<le> hi \<and> arr' ! a = arr ! a'" by simp
    qed
    have c0: "length arr' = length arr" using l by simp
    from w b c0 t q1 q2 c3 c4 c5 show ?thesis unfolding r by blast
  next
    case False
    let ?an1 = "anims @ [Compare (int j) (int hi), Reset [int j, int hi]]"
    have r: "partition_loop (int hi) pv (int j) (int s - 1) (arr, anims)
               = partition_loop (int hi) pv (int (Suc j)) (int s - 1) (arr, ?an1)"
      unfolding eq using jh False by (simp add: add.commute)
    have t1: "tracks init (arr, ?an1)"
      using tracks_push [OF Suc.prems(5)] by simp
    have p2: "\<forall>k. s \<le> k \<longrightarrow> k < Suc j \<longrightarrow> pv \<le> val_at arr k"
    proof (intro allI impI)
      fix k assume k: "s \<le> k" "k < Suc j"
      show "pv \<le> val_at arr k"
      proof (cases "k = j")
        case True
        with False show ?thesis by (simp add: val_at_def)
      next
        case False
        with k Suc.prems(7) show ?thesis by simp
      qed
    qed
    have "s \<le> Suc j" "Suc j \<le> hi" using Suc.prems(2) jh by simp_all
    from Suc.hyps(1) [OF d Suc.prems(1) this Suc.prems(4) t1 Suc.prems(6) p2]
    show ?thesis unfolding r .
  qed
qed


text \<open>
  \<^verbatim>\<open>partition\<close> on the places \<open>lo\<close> to \<open>hi\<close>: it returns the final place \<open>p\<close> of the pivot,
  with the smaller values before it and the others behind it.
\<close>

lemma partition_spec:
  assumes "lo < hi" and "hi < length arr" and "tracks init (arr, anims)"
  shows "\<exists>p arr' anims'. partition (arr, anims) (int lo) (int hi) = (int p, (arr', anims'))
           \<and> lo \<le> p \<and> p \<le> hi \<and> length arr' = length arr \<and> tracks init (arr', anims')
           \<and> (\<forall>k. lo \<le> k \<longrightarrow> k < p \<longrightarrow> val_at arr' k < val_at arr' p)
           \<and> (\<forall>k. p < k \<longrightarrow> k \<le> hi \<longrightarrow> val_at arr' p \<le> val_at arr' k)
           \<and> (\<forall>k. k < lo \<or> hi < k \<longrightarrow> arr' ! k = arr ! k)
           \<and> (\<forall>a. lo \<le> a \<longrightarrow> a \<le> hi \<longrightarrow> (\<exists>a'. lo \<le> a' \<and> a' \<le> hi \<and> arr' ! a = arr ! a'))"
proof -
  let ?pv = "bar_value (arr ! hi)"
  let ?an0 = "anims @ [PivotEv (int hi)]"
  have t0: "tracks init (arr, ?an0)"
    using tracks_push [OF assms(3)] by simp
  have e1: "\<forall>k. lo \<le> k \<longrightarrow> k < lo \<longrightarrow> val_at arr k < ?pv" by simp
  have e2: "\<forall>k. lo \<le> k \<longrightarrow> k < lo \<longrightarrow> ?pv \<le> val_at arr k" by simp
  have lh: "lo \<le> hi" using assms(1) by simp
  from partition_loop_spec [OF le_refl le_refl lh assms(2) t0 e1 e2]
  obtain s arr1 an1 where
    w: "partition_loop (int hi) ?pv (int lo) (int lo - 1) (arr, ?an0) = (int s - 1, (arr1, an1))"
    and b: "lo \<le> s" "s \<le> hi" and l: "length arr1 = length arr"
    and t: "tracks init (arr1, an1)"
    and q1: "\<forall>k. lo \<le> k \<longrightarrow> k < s \<longrightarrow> val_at arr1 k < ?pv"
    and q2: "\<forall>k. s \<le> k \<longrightarrow> k < hi \<longrightarrow> ?pv \<le> val_at arr1 k"
    and q3: "arr1 ! hi = arr ! hi"
    and q4: "\<forall>k. k < lo \<or> hi < k \<longrightarrow> arr1 ! k = arr ! k"
    and q5: "\<forall>a. lo \<le> a \<longrightarrow> a \<le> hi \<longrightarrow> (\<exists>a'. lo \<le> a' \<and> a' \<le> hi \<and> arr1 ! a = arr ! a')"
    by (elim exE conjE)
  let ?arr2 = "arr1[s := arr1 ! hi, hi := arr1 ! s]"
  let ?an2 = "an1 @ [Swap (int s) (int hi), SortedEv [int s], ResetPivot (int hi)]"
  have p: "partition (arr, anims) (int lo) (int hi) = (int s, (?arr2, ?an2))"
    using w by (simp add: partition_def Let_def)
  have sl: "s < length arr1" and hl: "hi < length arr1" using b assms(2) l by simp_all
  have t2: "tracks init (?arr2, ?an2)"
    using tracks_swap [OF t sl hl] by simp
  have n2: "?arr2 ! k = arr1 ! k" if "k \<noteq> s" "k \<noteq> hi" for k
    using that by simp
  have ns: "?arr2 ! s = arr1 ! hi" using sl hl by (simp add: nth_list_update)
  have nh: "?arr2 ! hi = arr1 ! s" using hl by simp
  have vp: "val_at ?arr2 s = ?pv" using ns q3 by (simp add: val_at_def)
  have c1: "\<forall>k. lo \<le> k \<longrightarrow> k < s \<longrightarrow> val_at ?arr2 k < val_at ?arr2 s"
  proof (intro allI impI)
    fix k assume k: "lo \<le> k" "k < s"
    then have "k \<noteq> s" "k \<noteq> hi" using b by simp_all
    from n2 [OF this] q1 k show "val_at ?arr2 k < val_at ?arr2 s"
      unfolding vp by (simp add: val_at_def)
  qed
  have c2: "\<forall>k. s < k \<longrightarrow> k \<le> hi \<longrightarrow> val_at ?arr2 s \<le> val_at ?arr2 k"
  proof (intro allI impI)
    fix k assume k: "s < k" "k \<le> hi"
    show "val_at ?arr2 s \<le> val_at ?arr2 k"
    proof (cases "k = hi")
      case True
      have "?pv \<le> val_at arr1 s" using q2 k True by simp
      with True nh show ?thesis unfolding vp by (simp add: val_at_def)
    next
      case False
      with k have kk: "k \<noteq> s" "k \<noteq> hi" "s \<le> k" "k < hi" by simp_all
      from n2 [OF kk(1,2)] q2 kk(3,4) show ?thesis unfolding vp by (simp add: val_at_def)
    qed
  qed
  have c3: "\<forall>k. k < lo \<or> hi < k \<longrightarrow> ?arr2 ! k = arr ! k"
  proof (intro allI impI)
    fix k assume k: "k < lo \<or> hi < k"
    then have "k \<noteq> s" "k \<noteq> hi" using b by auto
    from n2 [OF this] q4 k show "?arr2 ! k = arr ! k" by simp
  qed
  have c4: "\<forall>a. lo \<le> a \<longrightarrow> a \<le> hi \<longrightarrow> (\<exists>a'. lo \<le> a' \<and> a' \<le> hi \<and> ?arr2 ! a = arr ! a')"
  proof (intro allI impI)
    fix a assume a: "lo \<le> a" "a \<le> hi"
    have "\<exists>a'. lo \<le> a' \<and> a' \<le> hi \<and> ?arr2 ! a = arr1 ! a'"
    proof (cases "a = s")
      case True
      with ns lh show ?thesis by (intro exI [of _ hi]) simp
    next
      case ns': False
      show ?thesis
      proof (cases "a = hi")
        case True
        with nh b show ?thesis by (intro exI [of _ s]) simp
      next
        case False
        from n2 [OF ns' False] a show ?thesis by (intro exI [of _ a]) simp
      qed
    qed
    then obtain a' where a': "lo \<le> a'" "a' \<le> hi" "?arr2 ! a = arr1 ! a'" by blast
    with q5 obtain a'' where "lo \<le> a''" "a'' \<le> hi" "arr1 ! a' = arr ! a''" by blast
    with a'(3) show "\<exists>a'. lo \<le> a' \<and> a' \<le> hi \<and> ?arr2 ! a = arr ! a'" by auto
  qed
  have c0: "length ?arr2 = length arr" using l by simp
  from p b c0 t2 c1 c2 c3 c4 show ?thesis by blast
qed

text \<open>
  \<^verbatim>\<open>quickSortHelper\<close> on the places from \<open>lo\<close> up to but not including \<open>hi1\<close>: these places
  end up in order, holding what they held before, and no other place changes.
\<close>

lemma quickSortHelper_spec:
  assumes "lo \<le> hi1" and "hi1 \<le> length arr" and "tracks init (arr, anims)"
  shows "\<exists>arr' anims'. quickSortHelper (arr, anims) (int lo) (int hi1 - 1) = (arr', anims')
           \<and> length arr' = length arr \<and> tracks init (arr', anims')
           \<and> (\<forall>k. k < lo \<or> hi1 \<le> k \<longrightarrow> arr' ! k = arr ! k)
           \<and> (\<forall>a. lo \<le> a \<longrightarrow> a < hi1 \<longrightarrow> (\<exists>a'. lo \<le> a' \<and> a' < hi1 \<and> arr' ! a = arr ! a'))
           \<and> (\<forall>a b. lo \<le> a \<longrightarrow> a \<le> b \<longrightarrow> b < hi1 \<longrightarrow> val_at arr' a \<le> val_at arr' b)"
  using assms
proof (induction "hi1 - lo" arbitrary: lo hi1 arr anims rule: less_induct)
  case less
  note eq = quickSortHelper.simps [of "(arr, anims)" "int lo" "int hi1 - 1"]
  consider "hi1 = lo" | "hi1 = Suc lo" | "Suc lo < hi1" using less.prems(1) by linarith
  then show ?case
  proof cases
    case 1
    have "quickSortHelper (arr, anims) (int lo) (int hi1 - 1) = (arr, anims)"
      unfolding eq using 1 by simp
    with less.prems(3) 1 show ?thesis
      by (intro exI [of _ arr] exI [of _ anims]) simp
  next
    case 2
    have "quickSortHelper (arr, anims) (int lo) (int hi1 - 1) = (arr, anims @ [SortedEv [int lo]])"
      unfolding eq using 2 by simp
    moreover have "tracks init (arr, anims @ [SortedEv [int lo]])"
      using tracks_push [OF less.prems(3)] by simp
    moreover have "\<forall>a b. lo \<le> a \<longrightarrow> a \<le> b \<longrightarrow> b < hi1 \<longrightarrow> val_at arr a \<le> val_at arr b"
    proof (intro allI impI)
      fix a b :: nat assume "lo \<le> a" "a \<le> b" "b < hi1"
      then have "a = b" using 2 by simp
      then show "val_at arr a \<le> val_at arr b" by simp
    qed
    ultimately show ?thesis
      by (intro exI [of _ arr] exI [of _ "anims @ [SortedEv [int lo]]"]) auto
  next
    case 3
    define hi where "hi = hi1 - 1"
    have hi: "int hi1 - 1 = int hi" "lo < hi" "hi < length arr" "Suc hi = hi1"
      using 3 less.prems(2) by (simp_all add: hi_def)
    from partition_spec [OF hi(2,3) less.prems(3)]
    obtain p arr1 an1 where
      pt: "partition (arr, anims) (int lo) (int hi) = (int p, (arr1, an1))"
      and pb: "lo \<le> p" "p \<le> hi" and l1: "length arr1 = length arr"
      and t1: "tracks init (arr1, an1)"
      and sm: "\<forall>k. lo \<le> k \<longrightarrow> k < p \<longrightarrow> val_at arr1 k < val_at arr1 p"
      and ge: "\<forall>k. p < k \<longrightarrow> k \<le> hi \<longrightarrow> val_at arr1 p \<le> val_at arr1 k"
      and u1: "\<forall>k. k < lo \<or> hi < k \<longrightarrow> arr1 ! k = arr ! k"
      and f1: "\<forall>a. lo \<le> a \<longrightarrow> a \<le> hi \<longrightarrow> (\<exists>a'. lo \<le> a' \<and> a' \<le> hi \<and> arr1 ! a = arr ! a')"
      by (elim exE conjE)
    have d1: "p - lo < hi1 - lo" using pb hi(4) 3 by simp
    have pl: "p \<le> length arr1" using pb hi(3) l1 by simp
    from less.hyps [OF d1 pb(1) pl t1]
    obtain arr2 an2 where
      h2: "quickSortHelper (arr1, an1) (int lo) (int p - 1) = (arr2, an2)"
      and l2: "length arr2 = length arr1" and t2: "tracks init (arr2, an2)"
      and u2: "\<forall>k. k < lo \<or> p \<le> k \<longrightarrow> arr2 ! k = arr1 ! k"
      and f2: "\<forall>a. lo \<le> a \<longrightarrow> a < p \<longrightarrow> (\<exists>a'. lo \<le> a' \<and> a' < p \<and> arr2 ! a = arr1 ! a')"
      and s2: "\<forall>a b. lo \<le> a \<longrightarrow> a \<le> b \<longrightarrow> b < p \<longrightarrow> val_at arr2 a \<le> val_at arr2 b"
      by (elim exE conjE)
    have d2: "hi1 - Suc p < hi1 - lo" using pb hi(4) 3 by simp
    have ph: "Suc p \<le> hi1" using pb hi(4) by simp
    have hl: "hi1 \<le> length arr2" using less.prems(2) l1 l2 by simp
    from less.hyps [OF d2 ph hl t2]
    obtain arr3 an3 where
      h3: "quickSortHelper (arr2, an2) (int (Suc p)) (int hi1 - 1) = (arr3, an3)"
      and l3: "length arr3 = length arr2" and t3: "tracks init (arr3, an3)"
      and u3: "\<forall>k. k < Suc p \<or> hi1 \<le> k \<longrightarrow> arr3 ! k = arr2 ! k"
      and f3: "\<forall>a. Suc p \<le> a \<longrightarrow> a < hi1 \<longrightarrow> (\<exists>a'. Suc p \<le> a' \<and> a' < hi1 \<and> arr3 ! a = arr2 ! a')"
      and s3: "\<forall>a b. Suc p \<le> a \<longrightarrow> a \<le> b \<longrightarrow> b < hi1 \<longrightarrow> val_at arr3 a \<le> val_at arr3 b"
      by (elim exE conjE)
    have r: "quickSortHelper (arr, anims) (int lo) (int hi1 - 1) = (arr3, an3)"
    proof -
      have lt: "int lo < int hi" using hi(2) by simp
      have h3': "quickSortHelper (arr2, an2) (int p + 1) (int hi) = (arr3, an3)"
        using h3 hi(1) by (simp add: add.commute)
      have "quickSortHelper (arr, anims) (int lo) (int hi) = (arr3, an3)"
        by (simp only: quickSortHelper.simps [of "(arr, anims)" "int lo" "int hi"]
              lt if_True pt fst_conv snd_conv h2 h3')
      then show ?thesis by (simp only: hi(1))
    qed
    have vp: "val_at arr3 p = val_at arr1 p"
      using u3 u2 by (simp add: val_at_def)
    have low: "val_at arr3 k < val_at arr1 p" if k: "lo \<le> k" "k < p" for k
    proof -
      from f2 k obtain a' where a': "lo \<le> a'" "a' < p" "arr2 ! k = arr1 ! a'" by blast
      have "arr3 ! k = arr2 ! k" using u3 k by simp
      with a' sm show ?thesis by (simp add: val_at_def)
    qed
    have high: "val_at arr1 p \<le> val_at arr3 k" if k: "p < k" "k < hi1" for k
    proof -
      from f3 k obtain a' where a': "Suc p \<le> a'" "a' < hi1" "arr3 ! k = arr2 ! a'" by (metis Suc_leI)
      have "arr2 ! a' = arr1 ! a'" using u2 a' by simp
      moreover have "val_at arr1 p \<le> val_at arr1 a'" using ge a' hi(4) by simp
      ultimately show ?thesis using a' by (simp add: val_at_def)
    qed
    have c1: "\<forall>k. k < lo \<or> hi1 \<le> k \<longrightarrow> arr3 ! k = arr ! k"
    proof (intro allI impI)
      fix k assume k: "k < lo \<or> hi1 \<le> k"
      then have "arr3 ! k = arr2 ! k" using u3 pb by auto
      also have "\<dots> = arr1 ! k" using u2 k pb hi(4) by auto
      also have "\<dots> = arr ! k" using u1 k hi(4) by auto
      finally show "arr3 ! k = arr ! k" .
    qed
    have c2: "\<forall>a. lo \<le> a \<longrightarrow> a < hi1 \<longrightarrow> (\<exists>a'. lo \<le> a' \<and> a' < hi1 \<and> arr3 ! a = arr ! a')"
    proof (intro allI impI)
      fix a assume a: "lo \<le> a" "a < hi1"
      have "\<exists>a2. lo \<le> a2 \<and> a2 < hi1 \<and> arr3 ! a = arr2 ! a2"
      proof (cases "a < Suc p")
        case True
        then have "arr3 ! a = arr2 ! a" using u3 by simp
        with a show ?thesis by blast
      next
        case False
        with f3 a obtain a' where "Suc p \<le> a'" "a' < hi1" "arr3 ! a = arr2 ! a'"
          by (metis not_less)
        with pb show ?thesis by (intro exI [of _ a']) simp
      qed
      then obtain a2 where a2: "lo \<le> a2" "a2 < hi1" "arr3 ! a = arr2 ! a2" by blast
      have "\<exists>a1. lo \<le> a1 \<and> a1 < hi1 \<and> arr2 ! a2 = arr1 ! a1"
      proof (cases "a2 < p")
        case True
        with f2 a2 obtain a' where "lo \<le> a'" "a' < p" "arr2 ! a2 = arr1 ! a'" by blast
        with pb hi(4) show ?thesis by (intro exI [of _ a']) simp
      next
        case False
        then have "arr2 ! a2 = arr1 ! a2" using u2 by simp
        with a2 show ?thesis by blast
      qed
      then obtain a1 where a1: "lo \<le> a1" "a1 < hi1" "arr2 ! a2 = arr1 ! a1" by blast
      with f1 hi(4) obtain a0 where "lo \<le> a0" "a0 \<le> hi" "arr1 ! a1 = arr ! a0"
        by (metis less_Suc_eq_le)
      with a2(3) a1(3) hi(4) show "\<exists>a'. lo \<le> a' \<and> a' < hi1 \<and> arr3 ! a = arr ! a'"
        by (intro exI [of _ a0]) simp
    qed
    have c3: "\<forall>a b. lo \<le> a \<longrightarrow> a \<le> b \<longrightarrow> b < hi1 \<longrightarrow> val_at arr3 a \<le> val_at arr3 b"
    proof (intro allI impI)
      fix a b assume ab: "lo \<le> a" "a \<le> b" "b < hi1"
      consider "b < p" | "a < p" "b = p" | "a < p" "p < b" | "a = p" "b = p" | "a = p" "p < b" | "p < a"
        using ab(2) by linarith
      then show "val_at arr3 a \<le> val_at arr3 b"
      proof cases
        case 1
        then have "arr3 ! a = arr2 ! a" "arr3 ! b = arr2 ! b" using u3 ab(2) by simp_all
        with s2 ab 1 show ?thesis by (simp add: val_at_def)
      next
        case 2
        with low [OF ab(1)] vp show ?thesis by simp
      next
        case 3
        with low [OF ab(1)] high [OF _ ab(3)] show ?thesis by fastforce
      next
        case 4
        then show ?thesis by simp
      next
        case 5
        with high [OF _ ab(3)] vp show ?thesis by simp
      next
        case 6
        with s3 ab show ?thesis by simp
      qed
    qed
    have c0: "length arr3 = length arr" using l1 l2 l3 by simp
    from r c0 t3 c1 c2 c3 show ?thesis by blast
  qed
qed

lemma quickSort_replays_sorted: "replays_sorted quickSort input"
proof -
  from quickSortHelper_spec [OF _ le_refl tracks_initial, of 0 input]
  obtain arr' anims' where
    h: "quickSortHelper (input, []) (int 0) (int (length input) - 1) = (arr', anims')"
    and l: "length arr' = length input"
    and t: "tracks (map slot_of input) (arr', anims')"
    and so: "\<forall>a b. 0 \<le> a \<longrightarrow> a \<le> b \<longrightarrow> b < length input \<longrightarrow> val_at arr' a \<le> val_at arr' b"
    by auto
  have so': "sorted (map bar_value arr')" using sorted_val_at [of arr'] so l by simp
  have "quickSort input = anims' @ map (\<lambda>i. SortedEv [int i]) [0..<length arr']"
    using h by (simp add: quickSort_def)
  moreover have "filter is_move (map (\<lambda>i. SortedEv [int i]) [0..<length arr']) = []"
    by (induction "length arr'") (simp_all add: filter_empty_conv)
  ultimately have "tracks (map slot_of input) (arr', quickSort input)"
    using tracks_push [OF t] by simp
  from tracks_replays_sorted [where rec = quickSort and input = input, OF this so']
  show ?thesis .
qed

text \<open>
  C1. For every input array, replaying the swap and overwrite events of each of the four
  sorting recorders, in order, onto a copy of the input gives an array whose values are in
  non-decreasing order.
\<close>

theorem sorting_recorders_replay_sorted:
  "replays_sorted bubbleSort input \<and> replays_sorted mergeSort input
   \<and> replays_sorted quickSort input \<and> replays_sorted insertionSort input"
  by (intro conjI bubbleSort_replays_sorted mergeSort_replays_sorted
        quickSort_replays_sorted insertionSort_replays_sorted)

section \<open>The pathfinding recorders on a fresh grid\<close>

subsection \<open>Grids, cell by cell\<close>

text \<open>
  What a recorder must leave alone: the shape of the grid and the row, the column and the
  type of every cell.
\<close>

definition layout :: "Grid \<Rightarrow> (nat \<times> nat \<times> CellType) list list" where
  "layout g = map (map (\<lambda>c. (row c, col c, ctype c))) g"

text \<open>
  A well-formed grid is a non-empty rectangle whose cells carry their own place; a fresh
  grid is a well-formed grid as \<^verbatim>\<open>initializeGrid\<close> and the wall editor leave it, with the
  working fields of the recorders in their initial state.
\<close>

definition wf_grid :: "Grid \<Rightarrow> bool" where
  "wf_grid g \<longleftrightarrow>
     g \<noteq> [] \<and>
     list_all (\<lambda>r. length (g ! r) = length (g ! 0)
                  \<and> list_all (\<lambda>c. row (g ! r ! c) = r \<and> col (g ! r ! c) = c) [0..<length (g ! r)])
       [0..<length g]"

definition fresh_grid :: "Grid \<Rightarrow> bool" where
  "fresh_grid g \<longleftrightarrow>
     wf_grid g \<and>
     list_all (list_all (\<lambda>c. distance c = \<infinity> \<and> \<not> isVisited c \<and> previousNode c = None
                              \<and> gScore c = 0)) g"

lemma layout_lengths:
  assumes "layout g = layout g0"
  shows "length g = length g0" and "r < length g0 \<Longrightarrow> length (g ! r) = length (g0 ! r)"
proof -
  show l: "length g = length g0"
    using arg_cong [OF assms, of length] by (simp add: layout_def)
  assume r: "r < length g0"
  have "length (layout g ! r) = length (layout g0 ! r)" using assms by simp
  then show "length (g ! r) = length (g0 ! r)" using r l by (simp add: layout_def)
qed

lemma in_grid_layout:
  assumes "layout g = layout g0"
  shows "in_grid g p = in_grid g0 p"
  using layout_lengths(1) [OF assms] layout_lengths(2) [OF assms, of "fst p"]
  by (auto simp: in_grid_def)

lemma layout_nth:
  assumes "in_grid g p"
  shows "layout g ! fst p ! snd p = (row (cell_at g p), col (cell_at g p), ctype (cell_at g p))"
  using assms by (simp add: layout_def in_grid_def cell_at_def)

lemma cell_layout:
  assumes "layout g = layout g0" and "in_grid g0 p"
  shows "row (cell_at g p) = row (cell_at g0 p)" and "col (cell_at g p) = col (cell_at g0 p)"
    and "ctype (cell_at g p) = ctype (cell_at g0 p)"
proof -
  have "in_grid g p" using in_grid_layout [OF assms(1)] assms(2) by simp
  from layout_nth [OF this] layout_nth [OF assms(2)] assms(1)
  show "row (cell_at g p) = row (cell_at g0 p)" and "col (cell_at g p) = col (cell_at g0 p)"
    and "ctype (cell_at g p) = ctype (cell_at g0 p)" by simp_all
qed

lemma in_grid_set_cell [simp]: "in_grid (set_cell g p c) q = in_grid g q"
  by (cases "fst q = fst p") (auto simp: in_grid_def set_cell_def)

lemma cell_at_set_cell_same: "in_grid g p \<Longrightarrow> cell_at (set_cell g p c) p = c"
  by (simp add: in_grid_def set_cell_def cell_at_def)

lemma cell_at_set_cell_other: "q \<noteq> p \<Longrightarrow> cell_at (set_cell g p c) q = cell_at g q"
proof -
  assume qp: "q \<noteq> p"
  show ?thesis
  proof (cases "fst q = fst p")
    case True
    with qp have s: "snd q \<noteq> snd p" by (simp add: prod_eq_iff)
    show ?thesis
    proof (cases "fst p < length g")
      case True
      with \<open>fst q = fst p\<close> s show ?thesis by (simp add: set_cell_def cell_at_def)
    next
      case False
      then show ?thesis by (simp add: set_cell_def cell_at_def list_update_beyond)
    qed
  next
    case False
    then show ?thesis by (simp add: set_cell_def cell_at_def)
  qed
qed

lemma cell_at_set_cell:
  "in_grid g p \<Longrightarrow> cell_at (set_cell g p c) q = (if q = p then c else cell_at g q)"
  by (simp add: cell_at_set_cell_same cell_at_set_cell_other)

lemma layout_set_cell:
  assumes "row c = row (cell_at g p)" and "col c = col (cell_at g p)"
    and "ctype c = ctype (cell_at g p)"
  shows "layout (set_cell g p c) = layout g"
proof (cases "in_grid g p")
  case True
  then have r: "fst p < length g" and k: "snd p < length (g ! fst p)" by (simp_all add: in_grid_def)
  have "map (\<lambda>c. (row c, col c, ctype c)) ((g ! fst p)[snd p := c])
          = map (\<lambda>c. (row c, col c, ctype c)) (g ! fst p)"
    using assms k by (simp add: map_update cell_at_def list_update_same_conv)
  then show ?thesis
    using r by (simp add: layout_def set_cell_def map_update list_update_same_conv)
next
  case False
  then have "set_cell g p c = g"
    by (auto simp: in_grid_def set_cell_def not_less list_update_beyond)
  then show ?thesis by simp
qed

lemma wf_grid_nonempty: "wf_grid g \<Longrightarrow> g \<noteq> []"
  by (simp add: wf_grid_def)

lemma wf_grid_rows:
  assumes "wf_grid g" and "r < length g"
  shows "length (g ! r) = length (g ! 0)
         \<and> (\<forall>c\<in>set [0..<length (g ! r)]. row (g ! r ! c) = r \<and> col (g ! r ! c) = c)"
proof -
  have r: "r \<in> set [0..<length g]" using assms(2) by simp
  have "\<forall>r\<in>set [0..<length g]. length (g ! r) = length (g ! 0)
         \<and> (\<forall>c\<in>set [0..<length (g ! r)]. row (g ! r ! c) = r \<and> col (g ! r ! c) = c)"
    using assms(1) unfolding wf_grid_def list_all_iff by (rule conjunct2)
  from bspec [OF this r] show ?thesis .
qed

lemma wf_grid_row: "wf_grid g \<Longrightarrow> r < length g \<Longrightarrow> length (g ! r) = length (g ! 0)"
  using wf_grid_rows [of g r] by (rule conjunct1)

lemma wf_grid_cell:
  assumes "wf_grid g" and "in_grid g p"
  shows "row (cell_at g p) = fst p \<and> col (cell_at g p) = snd p"
proof -
  have r: "fst p < length g" and c: "snd p \<in> set [0..<length (g ! fst p)]"
    using assms(2) by (simp_all add: in_grid_def)
  from wf_grid_rows [OF assms(1) r] c show ?thesis
    unfolding cell_at_def by blast
qed

lemma wf_in_grid: "wf_grid g \<Longrightarrow> in_grid g p \<longleftrightarrow> fst p < length g \<and> snd p < length (g ! 0)"
  using wf_grid_row [of g "fst p"] by (auto simp: in_grid_def)

text \<open>The cells of a grid that keeps the layout of a well-formed grid carry their place.\<close>

lemma layout_cell:
  assumes "wf_grid g0" and "layout g = layout g0" and "in_grid g0 p"
  shows "row (cell_at g p) = fst p" and "col (cell_at g p) = snd p"
  using cell_layout [OF assms(2,3)] wf_grid_cell [OF assms(1,3)] by simp_all

lemma layout_wf:
  assumes "wf_grid g0" and "layout g = layout g0"
  shows "wf_grid g"
proof -
  have l: "length g = length g0" by (rule layout_lengths(1) [OF assms(2)])
  have ig: "in_grid g p = in_grid g0 p" for p by (rule in_grid_layout [OF assms(2)])
  have len: "length (g ! r) = length (g0 ! r)" if "r < length g0" for r
    using that by (rule layout_lengths(2) [OF assms(2)])
  have g0: "0 < length g0" using assms(1) by (simp add: wf_grid_def)
  have A: "length (g ! r) = length (g ! 0)" if "r < length g" for r
  proof -
    have r: "r < length g0" using that l by simp
    have "length (g ! r) = length (g0 ! r)" by (rule len [OF r])
    also have "\<dots> = length (g0 ! 0)" by (rule wf_grid_row [OF assms(1) r])
    also have "\<dots> = length (g ! 0)" by (rule len [OF g0, symmetric])
    finally show ?thesis .
  qed
  have B: "row (g ! r ! c) = r \<and> col (g ! r ! c) = c" if "r < length g" "c < length (g ! r)" for r c
  proof -
    have "in_grid g0 (r, c)" using that ig [of "(r, c)"] by (simp add: in_grid_def)
    from layout_cell [OF assms this] show ?thesis by (simp add: cell_at_def)
  qed
  have C: "g \<noteq> []" using l g0 by auto
  have "\<forall>r\<in>set [0..<length g]. length (g ! r) = length (g ! 0)
         \<and> (\<forall>c\<in>set [0..<length (g ! r)]. row (g ! r ! c) = r \<and> col (g ! r ! c) = c)"
  proof (intro ballI conjI)
    fix r assume "r \<in> set [0..<length g]"
    then have r: "r < length g" by simp
    show "length (g ! r) = length (g ! 0)" by (rule A [OF r])
    fix c assume "c \<in> set [0..<length (g ! r)]"
    then have c: "c < length (g ! r)" by simp
    from B [OF r c] show "row (g ! r ! c) = r" and "col (g ! r ! c) = c" by (rule conjunct1, rule conjunct2)
  qed
  with C show ?thesis unfolding wf_grid_def list_all_iff by (rule conjI)
qed

text \<open>The places next to a place, in the order in which \<^verbatim>\<open>getNeighbors\<close> lists them.\<close>

definition adjacent :: "pos \<Rightarrow> pos \<Rightarrow> bool" where
  "adjacent p q \<longleftrightarrow>
     (fst p = fst q \<and> (snd p = Suc (snd q) \<or> snd q = Suc (snd p)))
     \<or> (snd p = snd q \<and> (fst p = Suc (fst q) \<or> fst q = Suc (fst p)))"

definition nbrs :: "Grid \<Rightarrow> pos \<Rightarrow> pos list" where
  "nbrs g p =
     (if fst p > 0 then [(fst p - 1, snd p)] else []) @
     (if Suc (fst p) < length g then [(Suc (fst p), snd p)] else []) @
     (if snd p > 0 then [(fst p, snd p - 1)] else []) @
     (if Suc (snd p) < length (g ! 0) then [(fst p, Suc (snd p))] else [])"

lemma adjacent_sym: "adjacent p q \<Longrightarrow> adjacent q p"
  by (auto simp: adjacent_def)

lemma set_nbrs:
  assumes "wf_grid g" and "in_grid g p"
  shows "set (nbrs g p) = {q. in_grid g q \<and> adjacent p q}"
proof -
  have p: "fst p < length g" "snd p < length (g ! 0)"
    using assms by (simp_all add: wf_in_grid)
  show ?thesis
    unfolding nbrs_def using p
    by (auto simp: wf_in_grid [OF assms(1)] adjacent_def prod_eq_iff)
qed

lemma distinct_nbrs: "distinct (nbrs g p)"
  by (auto simp: nbrs_def)

lemma not_self_nbrs: "p \<notin> set (nbrs g p)"
  by (cases p) (auto simp: nbrs_def)

lemma getNeighbors_layout:
  assumes "wf_grid g0" and "layout g = layout g0" and "in_grid g0 p"
    and rc: "row cell = fst p" "col cell = snd p"
  shows "getNeighbors cell g = Inr (filter (\<lambda>q. \<not> isVisited (cell_at g q)) (nbrs g0 p))"
proof -
  have wf: "wf_grid g" by (rule layout_wf [OF assms(1,2)])
  have ig: "in_grid g q = in_grid g0 q" for q by (rule in_grid_layout [OF assms(2)])
  have l: "length g = length g0" by (rule layout_lengths(1) [OF assms(2)])
  have "0 < length g0" using wf_grid_nonempty [OF assms(1)] by simp
  then have l0: "length (g ! 0) = length (g0 ! 0)" by (rule layout_lengths(2) [OF assms(2)])
  have i: "(int a < int b - 1) = (Suc a < b)" for a b by auto
  have n: "(if fst p > 0 then [(fst p - 1, snd p)] else []) @
           (if int (fst p) < int (length g) - 1 then [(fst p + 1, snd p)] else []) @
           (if snd p > 0 then [(fst p, snd p - 1)] else []) @
           (if int (snd p) < int (length (g ! 0)) - 1 then [(fst p, snd p + 1)] else [])
           = nbrs g0 p"
    unfolding nbrs_def l l0 i by simp
  have "list_all (in_grid g) (nbrs g0 p)"
    using set_nbrs [OF assms(1,3)] ig by (simp add: list_all_iff)
  then show ?thesis
    unfolding getNeighbors_def Let_def rc n
    using wf_grid_nonempty [OF wf] by simp
qed


lemma set_getAllNodes: "set (getAllNodes g) = {p. in_grid g p}"
  by (auto simp: getAllNodes_def in_grid_def)

lemma finite_in_grid: "finite {p. in_grid g p}"
  using finite_set [of "getAllNodes g"] by (simp only: set_getAllNodes)

text \<open>Marking a cell as visited, as both recorders do with the cell they take.\<close>

definition mark_visited :: "Grid \<Rightarrow> pos \<Rightarrow> Grid" where
  "mark_visited g p = set_cell g p ((cell_at g p)\<lparr>isVisited := True\<rparr>)"

lemma layout_mark_visited: "layout (mark_visited g p) = layout g"
  by (simp add: mark_visited_def layout_set_cell)

lemma cell_at_mark_visited:
  "in_grid g p \<Longrightarrow>
   cell_at (mark_visited g p) q = (if q = p then (cell_at g p)\<lparr>isVisited := True\<rparr> else cell_at g q)"
  by (simp add: mark_visited_def cell_at_set_cell)

text \<open>The head of a sorted list is a least element.\<close>

lemma sort_key_Cons:
  assumes "sort_key f xs = z # rest"
  shows "set xs = insert z (set rest)" and "\<forall>p\<in>set xs. f z \<le> f p"
    and "distinct xs \<Longrightarrow> distinct rest \<and> z \<notin> set rest"
proof -
  have "set (sort_key f xs) = set xs" by simp
  with assms show s: "set xs = insert z (set rest)" by simp
  have "sorted (map f (sort_key f xs))" by (rule sorted_sort_key)
  with assms have "\<forall>p\<in>set rest. f z \<le> f p" by simp
  with s show "\<forall>p\<in>set xs. f z \<le> f p" by simp
  assume "distinct xs"
  then have "distinct (sort_key f xs)" by simp
  with assms show "distinct rest \<and> z \<notin> set rest" by simp
qed

subsection \<open>The loop of \<^verbatim>\<open>dijkstra\<close>, one round at a time\<close>

datatype loop_round = Done "js_error + (pos list \<times> Grid)" | Again Grid "pos list" "pos list"

definition dijkstra_round :: "pos \<Rightarrow> Grid \<Rightarrow> pos list \<Rightarrow> pos list \<Rightarrow> loop_round" where
  "dijkstra_round endNode g U V =
     (case sortNodesByDistance g U of
        [] \<Rightarrow> Done (Inr (V, g))
      | z # rest \<Rightarrow>
          if ctype (cell_at g z) = Wall then Again g rest V
          else if distance (cell_at g z) = \<infinity> then Done (Inr (V, g))
          else if row (cell_at g z) = row (cell_at g endNode)
                  \<and> col (cell_at g z) = col (cell_at g endNode)
          then Done (Inr (V @ [z], mark_visited g z))
          else (case updateUnvisitedNeighbors z (mark_visited g z) of
                  Inl er \<Rightarrow> Done (Inl er)
                | Inr g' \<Rightarrow> Again g' rest (V @ [z])))"

lemma dijkstra_loop_round:
  "dijkstra_loop endNode g U V =
     (case dijkstra_round endNode g U V of
        Done r \<Rightarrow> r
      | Again g' U' V' \<Rightarrow> dijkstra_loop endNode g' U' V')"
proof (cases "sortNodesByDistance g U")
  case Nil
  then show ?thesis
    by (simp add: dijkstra_loop.simps [of endNode g U V] dijkstra_round_def)
next
  case (Cons z rest)
  show ?thesis
    unfolding dijkstra_loop.simps [of endNode g U V] dijkstra_round_def Cons mark_visited_def
    by (simp split: sum.splits)
qed

lemma dijkstra_round_length:
  assumes "dijkstra_round endNode g U V = Again g' U' V'"
  shows "length U' < length U"
proof -
  have l: "length (sortNodesByDistance g U) = length U" by (simp add: sortNodesByDistance_def)
  have "length (sortNodesByDistance g U) = Suc (length U')"
  proof (cases "sortNodesByDistance g U")
    case Nil
    with assms show ?thesis by (simp add: dijkstra_round_def)
  next
    case (Cons z rest)
    with assms have "U' = rest"
      by (simp add: dijkstra_round_def split: if_splits sum.splits)
    with Cons show ?thesis by simp
  qed
  with l show ?thesis by simp
qed

text \<open>
  The rule of the loop: what holds before the first round, and is kept by every round
  that goes on, holds of the state in which the loop ends.
\<close>

lemma dijkstra_loop_rule:
  assumes "I g U V"
    and "\<And>g U V g' U' V'. I g U V \<Longrightarrow> dijkstra_round endNode g U V = Again g' U' V' \<Longrightarrow> I g' U' V'"
    and "\<And>g U V r. I g U V \<Longrightarrow> dijkstra_round endNode g U V = Done r \<Longrightarrow> Q r"
  shows "Q (dijkstra_loop endNode g U V)"
  using assms(1)
proof (induction "length U" arbitrary: g U V rule: less_induct)
  case less
  show ?case
  proof (cases "dijkstra_round endNode g U V")
    case (Done r)
    with assms(3) [OF less.prems Done] show ?thesis
      by (simp add: dijkstra_loop_round [of endNode g U V])
  next
    case (Again g' U' V')
    from less.hyps [OF dijkstra_round_length [OF Again] assms(2) [OF less.prems Again]] Again
    show ?thesis by (simp add: dijkstra_loop_round [of endNode g U V])
  qed
qed

text \<open>What \<^verbatim>\<open>updateUnvisitedNeighbors\<close> leaves in the cells.\<close>

definition relax :: "Grid \<Rightarrow> pos \<Rightarrow> pos \<Rightarrow> Cell" where
  "relax g z q = (cell_at g q)\<lparr>distance := distance (cell_at g z) + 1, previousNode := Some z\<rparr>"

lemma fold_relax:
  assumes "z \<notin> set ns" and "\<forall>n\<in>set ns. in_grid g n"
  shows "layout (fold (\<lambda>n g. set_cell g n (relax g z n)) ns g) = layout g
         \<and> (\<forall>q. cell_at (fold (\<lambda>n g. set_cell g n (relax g z n)) ns g) q
                 = (if q \<in> set ns then relax g z q else cell_at g q))"
  using assms
proof (induction ns arbitrary: g)
  case Nil
  show ?case by simp
next
  case (Cons n ns)
  define g1 where "g1 = set_cell g n (relax g z n)"
  have n: "in_grid g n" "n \<noteq> z" using Cons.prems by auto
  have l1: "layout g1 = layout g" by (simp add: g1_def layout_set_cell relax_def)
  have c1: "cell_at g1 q = (if q = n then relax g z n else cell_at g q)" for q
    by (simp add: g1_def cell_at_set_cell [OF n(1)])
  have z1: "cell_at g1 z = cell_at g z" using n(2) by (simp add: c1)
  have r1: "relax g1 z q = (if q = n then relax g z n else relax g z q)" for q
    using n(2) by (simp add: relax_def c1)
  have "z \<notin> set ns" "\<forall>n\<in>set ns. in_grid g1 n" using Cons.prems by (simp_all add: g1_def)
  from Cons.IH [OF this] l1
  have "layout (fold (\<lambda>n g. set_cell g n (relax g z n)) ns g1) = layout g
         \<and> (\<forall>q. cell_at (fold (\<lambda>n g. set_cell g n (relax g z n)) ns g1) q
                 = (if q \<in> set (n # ns) then relax g z q else cell_at g q))"
    by (simp add: r1 c1)
  then show ?case by (simp add: g1_def)
qed

lemma updateUnvisitedNeighbors_layout:
  assumes "wf_grid g0" and "layout g = layout g0" and "in_grid g0 z"
  shows "\<exists>g'. updateUnvisitedNeighbors z g = Inr g' \<and> layout g' = layout g0
           \<and> (\<forall>q. cell_at g' q = (if q \<in> set (nbrs g0 z) \<and> \<not> isVisited (cell_at g q)
                                   then relax g z q else cell_at g q))"
proof -
  let ?ns = "filter (\<lambda>q. \<not> isVisited (cell_at g q)) (nbrs g0 z)"
  have rc: "row (cell_at g z) = fst z" "col (cell_at g z) = snd z"
    using layout_cell [OF assms] by simp_all
  have gn: "getNeighbors (cell_at g z) g = Inr ?ns"
    by (rule getNeighbors_layout [OF assms rc])
  have rz: "(row (cell_at ga z), col (cell_at ga z)) = z" if "layout ga = layout g0" for ga
    using layout_cell [OF assms(1) that assms(3)] by simp
  have ns: "z \<notin> set ?ns" "\<forall>n\<in>set ?ns. in_grid g n"
    using not_self_nbrs [of z g0] set_nbrs [OF assms(1,3)] in_grid_layout [OF assms(2)]
    by auto
  have fl: "fold (\<lambda>neighbor ga. set_cell ga neighbor
              ((cell_at ga neighbor)
                 \<lparr>distance := distance (cell_at ga z) + 1,
                  previousNode := Some (row (cell_at ga z), col (cell_at ga z))\<rparr>)) xs ga
            = fold (\<lambda>n ga. set_cell ga n (relax ga z n)) xs ga"
    if "layout ga = layout g0" for xs ga
    using that
  proof (induction xs arbitrary: ga)
    case Nil
    show ?case by simp
  next
    case (Cons x xs)
    have "layout (set_cell ga x (relax ga z x)) = layout g0"
      using Cons.prems by (simp add: layout_set_cell relax_def)
    from Cons.IH [OF this] show ?case
      by (simp add: relax_def rz [OF Cons.prems])
  qed
  from fold_relax [OF ns]
  have "layout (fold (\<lambda>n g. set_cell g n (relax g z n)) ?ns g) = layout g0"
    and "\<forall>q. cell_at (fold (\<lambda>n g. set_cell g n (relax g z n)) ?ns g) q
                 = (if q \<in> set (nbrs g0 z) \<and> \<not> isVisited (cell_at g q)
                    then relax g z q else cell_at g q)"
    using assms(2) by simp_all
  then show ?thesis
    by (simp add: updateUnvisitedNeighbors_def gn fl [OF assms(2)])
qed

subsection \<open>What every round of \<^verbatim>\<open>dijkstra\<close> keeps\<close>

text \<open>
  The layout is that of the grid at the start; the cells still to be taken are cells of the
  grid and count every cell that is neither a wall nor visited; the visited cells are in
  the list that is returned; and a cell with a predecessor has a finite distance.
\<close>

definition dijkstra_inv :: "Grid \<Rightarrow> Grid \<Rightarrow> pos list \<Rightarrow> pos list \<Rightarrow> bool" where
  "dijkstra_inv g0 g U V \<longleftrightarrow>
     layout g = layout g0
     \<and> (\<forall>p\<in>set U. in_grid g0 p)
     \<and> (\<forall>p. in_grid g0 p \<longrightarrow> isVisited (cell_at g p) \<longrightarrow> p \<in> set V)
     \<and> (\<forall>p. in_grid g0 p \<longrightarrow> previousNode (cell_at g p) \<noteq> None \<longrightarrow> distance (cell_at g p) \<noteq> \<infinity>)
     \<and> (\<forall>p. in_grid g0 p \<longrightarrow> \<not> isVisited (cell_at g p) \<longrightarrow> ctype (cell_at g0 p) \<noteq> Wall
            \<longrightarrow> p \<in> set U)"

lemma dijkstra_invD:
  assumes "dijkstra_inv g0 g U V"
  shows "layout g = layout g0"
    and "p \<in> set U \<Longrightarrow> in_grid g0 p"
    and "in_grid g0 p \<Longrightarrow> isVisited (cell_at g p) \<Longrightarrow> p \<in> set V"
    and "in_grid g0 p \<Longrightarrow> previousNode (cell_at g p) \<noteq> None \<Longrightarrow> distance (cell_at g p) \<noteq> \<infinity>"
    and "in_grid g0 p \<Longrightarrow> \<not> isVisited (cell_at g p) \<Longrightarrow> ctype (cell_at g0 p) \<noteq> Wall \<Longrightarrow> p \<in> set U"
  using assms unfolding dijkstra_inv_def by blast+

lemma same_place:
  assumes "wf_grid g0" and "layout g = layout g0" and "in_grid g0 p" and "in_grid g0 q"
    and "row (cell_at g p) = row (cell_at g q)" and "col (cell_at g p) = col (cell_at g q)"
  shows "p = q"
  using layout_cell [OF assms(1,2,3)] layout_cell [OF assms(1,2,4)] assms(5,6)
  by (simp add: prod_eq_iff)

lemma dijkstra_inv_round:
  assumes wf: "wf_grid g0" and inv: "dijkstra_inv g0 g U V"
    and rd: "dijkstra_round e g U V = Again g' U' V'"
  shows "dijkstra_inv g0 g' U' V'"
proof (cases "sortNodesByDistance g U")
  case Nil
  with rd show ?thesis by (simp add: dijkstra_round_def)
next
  case (Cons z rest)
  note I = dijkstra_invD [OF inv]
  have sk: "sort_key (\<lambda>p. distance (cell_at g p)) U = z # rest"
    using Cons by (simp add: sortNodesByDistance_def)
  have U: "set U = insert z (set rest)" by (rule sort_key_Cons(1) [OF sk])
  have zin: "in_grid g0 z" using I(2) [of z] U by simp
  have zg: "in_grid g z" using zin in_grid_layout [OF I(1)] by simp
  have zt: "ctype (cell_at g z) = ctype (cell_at g0 z)" by (rule cell_layout(3) [OF I(1) zin])
  show ?thesis
  proof (cases "ctype (cell_at g z) = Wall")
    case True
    with rd Cons have e: "g' = g" "U' = rest" "V' = V" by (simp_all add: dijkstra_round_def)
    have "p \<in> set rest" if "in_grid g0 p" "\<not> isVisited (cell_at g p)" "ctype (cell_at g0 p) \<noteq> Wall" for p
    proof -
      have "p \<in> set U" using that by (rule I(5))
      moreover have "p \<noteq> z" using that(3) True zt by auto
      ultimately show ?thesis using U by simp
    qed
    then show ?thesis
      unfolding dijkstra_inv_def e using I(1,3,4) I(2) U by auto
  next
    case False
    let ?g1 = "mark_visited g z"
    have l1: "layout ?g1 = layout g0" using I(1) by (simp add: layout_mark_visited)
    from updateUnvisitedNeighbors_layout [OF wf l1 zin] obtain g2 where
      u: "updateUnvisitedNeighbors z ?g1 = Inr g2" and l2: "layout g2 = layout g0"
      and c2: "\<forall>q. cell_at g2 q = (if q \<in> set (nbrs g0 z) \<and> \<not> isVisited (cell_at ?g1 q)
                                   then relax ?g1 z q else cell_at ?g1 q)"
      by blast
    from rd Cons False u have fin: "distance (cell_at g z) \<noteq> \<infinity>"
      and e: "g' = g2" "U' = rest" "V' = V @ [z]"
      by (simp_all add: dijkstra_round_def split: if_splits)
    have c1: "cell_at ?g1 q = (if q = z then (cell_at g z)\<lparr>isVisited := True\<rparr> else cell_at g q)" for q
      by (rule cell_at_mark_visited [OF zg])
    have c2': "cell_at g2 q = (if q \<in> set (nbrs g0 z) \<and> \<not> isVisited (cell_at ?g1 q)
                                   then relax ?g1 z q else cell_at ?g1 q)" for q
      using c2 by (rule spec)
    have vis: "isVisited (cell_at g2 q) \<longleftrightarrow> q = z \<or> isVisited (cell_at g q)" for q
      unfolding c2' by (simp add: c1 relax_def)
    have dz: "distance (cell_at ?g1 z) = distance (cell_at g z)" by (simp add: c1)
    have dp: "distance (cell_at g2 q) \<noteq> \<infinity>"
      if "in_grid g0 q" "previousNode (cell_at g2 q) \<noteq> None" for q
    proof (cases "q \<in> set (nbrs g0 z) \<and> \<not> isVisited (cell_at ?g1 q)")
      case True
      have "cell_at g2 q = relax ?g1 z q" unfolding c2' [of q] by (rule if_P [OF True])
      then have "distance (cell_at g2 q) = distance (cell_at g z) + 1"
        by (simp add: relax_def dz)
      with fin show ?thesis by (simp add: plus_eq_infty_iff_enat)
    next
      case False
      have "cell_at g2 q = cell_at ?g1 q" unfolding c2' [of q] by (rule if_not_P [OF False])
      then have "previousNode (cell_at g2 q) = previousNode (cell_at g q)"
        and "distance (cell_at g2 q) = distance (cell_at g q)"
        by (simp_all add: c1)
      with I(4) [OF that(1)] that(2) show ?thesis by simp
    qed
    have un: "p \<in> set rest" if "in_grid g0 p" "\<not> isVisited (cell_at g2 p)" "ctype (cell_at g0 p) \<noteq> Wall" for p
    proof -
      from that(2) have "p \<noteq> z" "\<not> isVisited (cell_at g p)" by (simp_all add: vis)
      with I(5) [OF that(1) _ that(3)] U show ?thesis by simp
    qed
    have vs: "p \<in> set (V @ [z])" if "in_grid g0 p" "isVisited (cell_at g2 p)" for p
      using that I(3) [of p] by (auto simp: vis)
    have ur: "\<forall>p\<in>set rest. in_grid g0 p" using I(2) U by simp
    show ?thesis
      unfolding dijkstra_inv_def e using l2 ur vs dp un by blast
  qed
qed

lemma dijkstra_inv_done:
  assumes wf: "wf_grid g0" and ein: "in_grid g0 e" and inv: "dijkstra_inv g0 g U V"
    and rd: "dijkstra_round e g U V = Done r"
  shows "\<exists>V' g'. r = Inr (V', g') \<and> layout g' = layout g0
           \<and> (ctype (cell_at g0 e) \<noteq> Wall \<longrightarrow> e \<notin> set V' \<longrightarrow> previousNode (cell_at g' e) = None)"
proof (cases "sortNodesByDistance g U")
  case Nil
  note I = dijkstra_invD [OF inv]
  from Nil have "U = []"
    by (metis length_0_conv length_sort sortNodesByDistance_def)
  then have "e \<in> set V" if "ctype (cell_at g0 e) \<noteq> Wall"
    using I(5) [OF ein _ that] I(3) [OF ein] by auto
  moreover from rd Nil have "r = Inr (V, g)" by (simp add: dijkstra_round_def)
  ultimately show ?thesis using I(1) by auto
next
  case (Cons z rest)
  note I = dijkstra_invD [OF inv]
  have sk: "sort_key (\<lambda>p. distance (cell_at g p)) U = z # rest"
    using Cons by (simp add: sortNodesByDistance_def)
  have U: "set U = insert z (set rest)" by (rule sort_key_Cons(1) [OF sk])
  have mn: "\<forall>p\<in>set U. distance (cell_at g z) \<le> distance (cell_at g p)"
    by (rule sort_key_Cons(2) [OF sk])
  have zin: "in_grid g0 z" using I(2) [of z] U by simp
  have zg: "in_grid g z" using zin in_grid_layout [OF I(1)] by simp
  from rd Cons have nw: "ctype (cell_at g z) \<noteq> Wall"
    by (auto simp: dijkstra_round_def)
  show ?thesis
  proof (cases "distance (cell_at g z) = \<infinity>")
    case True
    with rd Cons nw have r: "r = Inr (V, g)" by (simp add: dijkstra_round_def)
    have "previousNode (cell_at g e) = None" if "ctype (cell_at g0 e) \<noteq> Wall" "e \<notin> set V"
    proof -
      have "\<not> isVisited (cell_at g e)" using I(3) [OF ein] that(2) by auto
      then have "e \<in> set U" using I(5) [OF ein _ that(1)] by simp
      with mn True have "distance (cell_at g e) = \<infinity>" by auto
      with I(4) [OF ein] show ?thesis by (cases "previousNode (cell_at g e)") simp_all
    qed
    with r I(1) show ?thesis by auto
  next
    case False
    let ?g1 = "mark_visited g z"
    have l1: "layout ?g1 = layout g0" using I(1) by (simp add: layout_mark_visited)
    from updateUnvisitedNeighbors_layout [OF wf l1 zin] obtain g2 where
      u: "updateUnvisitedNeighbors z ?g1 = Inr g2" by blast
    from rd Cons nw False u
    have r: "r = Inr (V @ [z], ?g1)"
      and eq: "row (cell_at g z) = row (cell_at g e)" "col (cell_at g z) = col (cell_at g e)"
      by (simp_all add: dijkstra_round_def split: if_splits)
    have "z = e" by (rule same_place [OF wf I(1) zin ein eq])
    with r l1 show ?thesis by auto
  qed
qed

text \<open>
  \<^verbatim>\<open>dijkstra\<close> on a fresh grid returns; the grid it leaves has the layout of the grid it
  was given; and when the end cell is not among the visited cells, the end cell has no
  predecessor.
\<close>

lemma fresh_gridD:
  assumes "fresh_grid g" and "in_grid g p"
  shows "distance (cell_at g p) = \<infinity>" and "\<not> isVisited (cell_at g p)"
    and "previousNode (cell_at g p) = None" and "gScore (cell_at g p) = 0"
proof -
  have r: "g ! fst p \<in> set g" and c: "g ! fst p ! snd p \<in> set (g ! fst p)"
    using assms(2) by (simp_all add: in_grid_def)
  from assms(1) have "\<forall>r\<in>set g. \<forall>c\<in>set r. distance c = \<infinity> \<and> \<not> isVisited c
      \<and> previousNode c = None \<and> gScore c = 0"
    unfolding fresh_grid_def list_all_iff by (rule conjunct2)
  with r c have "distance (cell_at g p) = \<infinity> \<and> \<not> isVisited (cell_at g p)
      \<and> previousNode (cell_at g p) = None \<and> gScore (cell_at g p) = 0"
    unfolding cell_at_def by blast
  then show "distance (cell_at g p) = \<infinity>" and "\<not> isVisited (cell_at g p)"
    and "previousNode (cell_at g p) = None" and "gScore (cell_at g p) = 0" by simp_all
qed

lemma fresh_wf: "fresh_grid g \<Longrightarrow> wf_grid g"
  by (simp add: fresh_grid_def)

lemma dijkstra_fresh:
  assumes fr: "fresh_grid g0" and sin: "in_grid g0 s" and ein: "in_grid g0 e"
  shows "\<exists>V g. dijkstra g0 s e = Inr (V, g) \<and> layout g = layout g0
           \<and> (ctype (cell_at g0 e) \<noteq> Wall \<longrightarrow> e \<notin> set V \<longrightarrow> previousNode (cell_at g e) = None)"
proof -
  note wf = fresh_wf [OF fr]
  let ?g1 = "set_cell g0 s ((cell_at g0 s)\<lparr>distance := 0\<rparr>)"
  have l1: "layout ?g1 = layout g0" by (simp add: layout_set_cell)
  have c1: "cell_at ?g1 q = (if q = s then (cell_at g0 s)\<lparr>distance := 0\<rparr> else cell_at g0 q)" for q
    by (rule cell_at_set_cell [OF sin])
  have i1: "in_grid ?g1 p = in_grid g0 p" for p by simp
  have inv: "dijkstra_inv g0 ?g1 (getAllNodes ?g1) []"
    unfolding dijkstra_inv_def set_getAllNodes i1
    using l1 fresh_gridD [OF fr] by (auto simp: c1)
  have "\<exists>V g. dijkstra_loop e ?g1 (getAllNodes ?g1) [] = Inr (V, g) \<and> layout g = layout g0
           \<and> (ctype (cell_at g0 e) \<noteq> Wall \<longrightarrow> e \<notin> set V \<longrightarrow> previousNode (cell_at g e) = None)"
    by (rule dijkstra_loop_rule [where I = "dijkstra_inv g0", OF inv])
       (erule (1) dijkstra_inv_round [OF wf], erule (1) dijkstra_inv_done [OF wf ein])
  then show ?thesis by (simp add: dijkstra_def Let_def)
qed

subsection \<open>The loop of \<^verbatim>\<open>aStar\<close>, one round at a time\<close>

definition aStar_round :: "pos \<Rightarrow> Grid \<Rightarrow> pos list \<Rightarrow> pos list \<Rightarrow> loop_round" where
  "aStar_round endNode g F V =
     (case sortNodesByF g F of
        [] \<Rightarrow> Done (Inr (V, g))
      | c # rest \<Rightarrow>
          if ctype (cell_at g c) = Wall then Again g rest V
          else if row (cell_at g c) = row (cell_at g endNode)
                  \<and> col (cell_at g c) = col (cell_at g endNode)
          then Done (Inr (V @ [c], mark_visited g c))
          else (case getNeighbors (cell_at g c) (mark_visited g c) of
                  Inl er \<Rightarrow> Done (Inl er)
                | Inr ns \<Rightarrow>
                    (case aStar_neighbors c endNode ns (mark_visited g c, rest) of
                       (g', F') \<Rightarrow> Again g' F' (V @ [c]))))"

lemma aStar_loop_round:
  "aStar_loop endNode g F V =
     (case aStar_round endNode g F V of
        Done r \<Rightarrow> Some r
      | Again g' F' V' \<Rightarrow> aStar_loop endNode g' F' V')"
proof (cases "sortNodesByF g F")
  case Nil
  then show ?thesis
    by (simp add: aStar_loop.simps [of endNode g F V] aStar_round_def)
next
  case (Cons z rest)
  show ?thesis
    unfolding aStar_loop.simps [of endNode g F V] aStar_round_def Cons mark_visited_def
    by (simp split: sum.splits prod.splits)
qed

text \<open>
  The rule of the loop. Nothing in the code bounds the number of rounds, so the rule asks
  for a well-founded relation in which every round that goes on descends.
\<close>

lemma aStar_loop_rule:
  assumes "wf R" and "I g F V"
    and "\<And>g F V g' F' V'. I g F V \<Longrightarrow> aStar_round endNode g F V = Again g' F' V'
           \<Longrightarrow> I g' F' V' \<and> ((g', F'), (g, F)) \<in> R"
    and "\<And>g F V r. I g F V \<Longrightarrow> aStar_round endNode g F V = Done r \<Longrightarrow> Q r"
  shows "\<exists>r. aStar_loop endNode g F V = Some r \<and> Q r"
  using assms(1,2)
proof (induction "(g, F)" arbitrary: g F V rule: wf_induct_rule)
  case less
  show ?case
  proof (cases "aStar_round endNode g F V")
    case (Done r)
    with assms(4) [OF less.prems Done] show ?thesis
      by (simp add: aStar_loop_round [of endNode g F V])
  next
    case (Again g' F' V')
    from assms(3) [OF less.prems Again]
    have i: "I g' F' V'" and r: "((g', F'), (g, F)) \<in> R" by simp_all
    from less.hyps [OF r i] Again show ?thesis
      by (simp add: aStar_loop_round [of endNode g F V])
  qed
qed

text \<open>What the loop over the neighbours leaves in the cells and in the open set.\<close>

definition improvable :: "Grid \<Rightarrow> pos \<Rightarrow> pos \<Rightarrow> bool" where
  "improvable g c q \<longleftrightarrow>
     \<not> isVisited (cell_at g q) \<and> ctype (cell_at g q) \<noteq> Wall
     \<and> (gScore (cell_at g q) = 0 \<or> gScore (cell_at g c) + 1 < gScore (cell_at g q))"

definition relabel :: "Grid \<Rightarrow> pos \<Rightarrow> pos \<Rightarrow> pos \<Rightarrow> Cell" where
  "relabel g c e q =
     (cell_at g q)
       \<lparr>previousNode := Some c,
        fScore := gScore (cell_at g c) + 1 + heuristic (cell_at g q) (cell_at g e),
        gScore := gScore (cell_at g c) + 1,
        hScore := heuristic (cell_at g q) (cell_at g e)\<rparr>"

lemma aStar_neighbors_spec:
  assumes wf: "wf_grid g0" and l: "layout g = layout g0" and cin: "in_grid g0 c"
    and ns: "\<forall>n\<in>set ns. in_grid g0 n" "c \<notin> set ns" "distinct ns"
    and Fin: "\<forall>p\<in>set F. in_grid g0 p"
  shows "\<exists>g' F'. aStar_neighbors c e ns (g, F) = (g', F') \<and> layout g' = layout g0
           \<and> (\<forall>q. cell_at g' q = (if q \<in> set ns \<and> improvable g c q then relabel g c e q
                                   else cell_at g q))
           \<and> set F' = set F \<union> {q \<in> set ns. improvable g c q}
           \<and> (distinct F \<longrightarrow> distinct F')"
  using l ns Fin
proof (induction ns arbitrary: g F)
  case Nil
  then show ?case by simp
next
  case (Cons n ns)
  have nin: "in_grid g0 n" and nc: "n \<noteq> c" and nn: "n \<notin> set ns"
    using Cons.prems by auto
  have p': "\<forall>n\<in>set ns. in_grid g0 n" "c \<notin> set ns" "distinct ns"
    using Cons.prems by simp_all
  show ?case
  proof (cases "improvable g c n")
    case False
    then have eq: "aStar_neighbors c e (n # ns) (g, F) = aStar_neighbors c e ns (g, F)"
      by (auto simp: improvable_def)
    from Cons.IH [OF Cons.prems(1) p' Cons.prems(5)] obtain g' F' where
      a: "aStar_neighbors c e ns (g, F) = (g', F')" and b: "layout g' = layout g0"
      and c: "\<forall>q. cell_at g' q = (if q \<in> set ns \<and> improvable g c q then relabel g c e q
                                   else cell_at g q)"
      and d: "set F' = set F \<union> {q \<in> set ns. improvable g c q}"
      and f: "distinct F \<longrightarrow> distinct F'"
      by blast
    have c': "\<forall>q. cell_at g' q = (if q \<in> set (n # ns) \<and> improvable g c q then relabel g c e q
                                   else cell_at g q)"
      using c False by auto
    have d': "set F' = set F \<union> {q \<in> set (n # ns). improvable g c q}"
      using d False by auto
    from a b c' d' f show ?thesis unfolding eq by blast
  next
    case True
    define g1 where "g1 = set_cell g n (relabel g c e n)"
    define F1 where "F1 = (if n \<in> set F then F else F @ [n])"
    have ng: "in_grid g n" using nin in_grid_layout [OF Cons.prems(1)] by simp
    have rc: "(row (cell_at g c), col (cell_at g c)) = c"
      using layout_cell [OF wf Cons.prems(1) cin] by simp
    have ex: "list_ex (\<lambda>node. row (cell_at g node) = row (cell_at g n)
                                \<and> col (cell_at g node) = col (cell_at g n)) F \<longleftrightarrow> n \<in> set F"
    proof -
      have "(row (cell_at g p) = row (cell_at g n) \<and> col (cell_at g p) = col (cell_at g n))
              \<longleftrightarrow> p = n" if "p \<in> set F" for p
      proof -
        have "in_grid g0 p" using Cons.prems(5) that by simp
        from same_place [OF wf Cons.prems(1) this nin] show ?thesis by auto
      qed
      then show ?thesis unfolding list_ex_iff by auto
    qed
    have eq: "aStar_neighbors c e (n # ns) (g, F) = aStar_neighbors c e ns (g1, F1)"
      using True unfolding g1_def F1_def relabel_def
      by (simp add: improvable_def rc ex)
    have l1: "layout g1 = layout g0"
      using Cons.prems(1) by (simp add: g1_def layout_set_cell relabel_def)
    have c1: "cell_at g1 q = (if q = n then relabel g c e n else cell_at g q)" for q
      by (simp add: g1_def cell_at_set_cell [OF ng])
    have F1: "\<forall>p\<in>set F1. in_grid g0 p" using Cons.prems(5) nin by (simp add: F1_def)
    from Cons.IH [OF l1 p' F1] obtain g' F' where
      a: "aStar_neighbors c e ns (g1, F1) = (g', F')" and b: "layout g' = layout g0"
      and c: "\<forall>q. cell_at g' q = (if q \<in> set ns \<and> improvable g1 c q then relabel g1 c e q
                                   else cell_at g1 q)"
      and d: "set F' = set F1 \<union> {q \<in> set ns. improvable g1 c q}"
      and f: "distinct F1 \<longrightarrow> distinct F'"
      by blast
    have rw: "row (cell_at g1 x) = row (cell_at g x)" "col (cell_at g1 x) = col (cell_at g x)" for x
      by (simp_all add: c1 relabel_def)
    have h1: "heuristic (cell_at g1 x) (cell_at g1 y) = heuristic (cell_at g x) (cell_at g y)" for x y
      by (simp add: heuristic_def rw)
    have cc: "cell_at g1 c = cell_at g c" using nc by (simp add: c1)
    have i1: "improvable g1 c q = improvable g c q" if "q \<in> set ns" for q
    proof -
      have "q \<noteq> n" using that nn by auto
      then have "cell_at g1 q = cell_at g q" by (simp add: c1)
      then show ?thesis by (simp add: improvable_def cc)
    qed
    have r1: "relabel g1 c e q = relabel g c e q" if "q \<in> set ns" for q
    proof -
      have "q \<noteq> n" using that nn by auto
      then have "cell_at g1 q = cell_at g q" by (simp add: c1)
      then show ?thesis
        using h1 [of q e] by (simp add: relabel_def cc)
    qed
    have c': "\<forall>q. cell_at g' q = (if q \<in> set (n # ns) \<and> improvable g c q then relabel g c e q
                                   else cell_at g q)"
    proof
      fix q
      show "cell_at g' q = (if q \<in> set (n # ns) \<and> improvable g c q then relabel g c e q
                                   else cell_at g q)"
      proof (cases "q \<in> set ns")
        case True
        with spec [OF c, of q] i1 [OF True] r1 [OF True] nn show ?thesis
          by (auto simp: c1)
      next
        case False
        with spec [OF c, of q] \<open>improvable g c n\<close> show ?thesis
          by (auto simp: c1)
      qed
    qed
    have d': "set F' = set F \<union> {q \<in> set (n # ns). improvable g c q}"
      using d i1 \<open>improvable g c n\<close> by (auto simp: F1_def)
    have f': "distinct F \<longrightarrow> distinct F'" using f by (simp add: F1_def)
    from a b c' d' f' show ?thesis unfolding eq by blast
  qed
qed

subsection \<open>What every round of \<^verbatim>\<open>aStar\<close> keeps\<close>

text \<open>
  The layout is that of the grid at the start; the open set has no cell twice and holds
  unvisited cells of the grid, among them every unvisited cell with a score \<^verbatim>\<open>g\<close>; the
  visited cells are in the list that is returned; a cell with a predecessor has a score
  \<^verbatim>\<open>g\<close>, and a cell with a score \<^verbatim>\<open>g\<close> is no wall.
\<close>

definition aStar_inv :: "Grid \<Rightarrow> Grid \<Rightarrow> pos list \<Rightarrow> pos list \<Rightarrow> bool" where
  "aStar_inv g0 g F V \<longleftrightarrow>
     layout g = layout g0
     \<and> distinct F
     \<and> (\<forall>p\<in>set F. in_grid g0 p \<and> \<not> isVisited (cell_at g p))
     \<and> (\<forall>p. in_grid g0 p \<longrightarrow> isVisited (cell_at g p) \<longrightarrow> p \<in> set V)
     \<and> (\<forall>p. in_grid g0 p \<longrightarrow> previousNode (cell_at g p) \<noteq> None \<longrightarrow> 0 < gScore (cell_at g p))
     \<and> (\<forall>p. in_grid g0 p \<longrightarrow> 0 < gScore (cell_at g p) \<longrightarrow>
            ctype (cell_at g0 p) \<noteq> Wall \<and> (\<not> isVisited (cell_at g p) \<longrightarrow> p \<in> set F))"

lemma aStar_invD:
  assumes "aStar_inv g0 g F V"
  shows "layout g = layout g0"
    and "distinct F"
    and "p \<in> set F \<Longrightarrow> in_grid g0 p"
    and "p \<in> set F \<Longrightarrow> \<not> isVisited (cell_at g p)"
    and "in_grid g0 p \<Longrightarrow> isVisited (cell_at g p) \<Longrightarrow> p \<in> set V"
    and "in_grid g0 p \<Longrightarrow> previousNode (cell_at g p) \<noteq> None \<Longrightarrow> 0 < gScore (cell_at g p)"
    and "in_grid g0 p \<Longrightarrow> 0 < gScore (cell_at g p) \<Longrightarrow> ctype (cell_at g0 p) \<noteq> Wall"
    and "in_grid g0 p \<Longrightarrow> 0 < gScore (cell_at g p) \<Longrightarrow> \<not> isVisited (cell_at g p) \<Longrightarrow> p \<in> set F"
  using assms unfolding aStar_inv_def by blast+

text \<open>The rounds descend: a cell is visited, or the grid stays and the open set shrinks.\<close>

definition unvisited :: "Grid \<Rightarrow> Grid \<Rightarrow> pos set" where
  "unvisited g0 g = {p. in_grid g0 p \<and> \<not> isVisited (cell_at g p)}"

definition aStar_rel :: "Grid \<Rightarrow> ((Grid \<times> pos list) \<times> (Grid \<times> pos list)) set" where
  "aStar_rel g0 =
     inv_image (less_than <*lex*> less_than) (\<lambda>(g, F). (card (unvisited g0 g), length F))"

lemma wf_aStar_rel: "wf (aStar_rel g0)"
  unfolding aStar_rel_def by (intro wf_inv_image wf_lex_prod wf_less_than)

lemma finite_unvisited: "finite (unvisited g0 g)"
  by (rule finite_subset [OF _ finite_in_grid [of g0]]) (auto simp: unvisited_def)

lemma aStar_inv_round:
  assumes wf: "wf_grid g0" and inv: "aStar_inv g0 g F V"
    and rd: "aStar_round e g F V = Again g' F' V'"
  shows "aStar_inv g0 g' F' V' \<and> ((g', F'), (g, F)) \<in> aStar_rel g0"
proof (cases "sortNodesByF g F")
  case Nil
  with rd show ?thesis by (simp add: aStar_round_def)
next
  case (Cons c rest)
  note I = aStar_invD [OF inv]
  have sk: "sort_key (\<lambda>p. fScore (cell_at g p)) F = c # rest"
    using Cons by (simp add: sortNodesByF_def)
  have S: "set F = insert c (set rest)" by (rule sort_key_Cons(1) [OF sk])
  have dr: "distinct rest" "c \<notin> set rest" using sort_key_Cons(3) [OF sk I(2)] by simp_all
  have lr: "length F = Suc (length rest)"
    using arg_cong [OF sk, of length] by simp
  have cF: "c \<in> set F" using S by simp
  have cin: "in_grid g0 c" by (rule I(3) [OF cF])
  have cg: "in_grid g c" using cin in_grid_layout [OF I(1)] by simp
  have cu: "\<not> isVisited (cell_at g c)" by (rule I(4) [OF cF])
  have ct: "ctype (cell_at g c) = ctype (cell_at g0 c)" by (rule cell_layout(3) [OF I(1) cin])
  show ?thesis
  proof (cases "ctype (cell_at g c) = Wall")
    case True
    with rd Cons have e: "g' = g" "F' = rest" "V' = V" by (simp_all add: aStar_round_def)
    have "p \<in> set rest" if "in_grid g0 p" "0 < gScore (cell_at g p)" "\<not> isVisited (cell_at g p)" for p
    proof -
      have "p \<in> set F" using that by (rule I(8))
      moreover have "p \<noteq> c" using I(7) [OF that(1,2)] True ct by auto
      ultimately show ?thesis using S by simp
    qed
    then have "aStar_inv g0 g rest V"
      unfolding aStar_inv_def using I(1,5,6,7) I(3,4) S dr(1) by auto
    moreover have "((g, rest), (g, F)) \<in> aStar_rel g0"
      by (simp add: aStar_rel_def lr)
    ultimately show ?thesis unfolding e by simp
  next
    case False
    let ?g1 = "mark_visited g c"
    let ?ns = "filter (\<lambda>q. \<not> isVisited (cell_at ?g1 q)) (nbrs g0 c)"
    have l1: "layout ?g1 = layout g0" using I(1) by (simp add: layout_mark_visited)
    have rc: "row (cell_at g c) = fst c" "col (cell_at g c) = snd c"
      using layout_cell [OF wf I(1) cin] by simp_all
    have gn: "getNeighbors (cell_at g c) ?g1 = Inr ?ns"
      by (rule getNeighbors_layout [OF wf l1 cin rc])
    have nsp: "\<forall>n\<in>set ?ns. in_grid g0 n" "c \<notin> set ?ns" "distinct ?ns"
      using set_nbrs [OF wf cin] not_self_nbrs [of c g0] distinct_nbrs [of g0 c] by auto
    have rin: "\<forall>p\<in>set rest. in_grid g0 p" using I(3) S by simp
    from aStar_neighbors_spec [OF wf l1 cin nsp rin, of e] obtain g2 F2 where
      a: "aStar_neighbors c e ?ns (?g1, rest) = (g2, F2)" and l2: "layout g2 = layout g0"
      and c2: "\<forall>q. cell_at g2 q = (if q \<in> set ?ns \<and> improvable ?g1 c q then relabel ?g1 c e q
                                   else cell_at ?g1 q)"
      and s2: "set F2 = set rest \<union> {q \<in> set ?ns. improvable ?g1 c q}"
      and d2: "distinct rest \<longrightarrow> distinct F2"
      by blast
    from rd Cons False gn a have e: "g' = g2" "F' = F2" "V' = V @ [c]"
      by (simp_all add: aStar_round_def split: if_splits)
    have c1: "cell_at ?g1 q = (if q = c then (cell_at g c)\<lparr>isVisited := True\<rparr> else cell_at g q)" for q
      by (rule cell_at_mark_visited [OF cg])
    have c2': "cell_at g2 q = (if q \<in> set ?ns \<and> improvable ?g1 c q then relabel ?g1 c e q
                                   else cell_at ?g1 q)" for q
      using c2 by (rule spec)
    have vis: "isVisited (cell_at g2 q) \<longleftrightarrow> q = c \<or> isVisited (cell_at g q)" for q
      unfolding c2' by (simp add: c1 relabel_def)
    have upd: "0 < gScore (cell_at g2 q) \<and> ctype (cell_at g0 q) \<noteq> Wall \<and> q \<in> set F2"
      if "q \<in> set ?ns" "improvable ?g1 c q" for q
    proof -
      have "cell_at g2 q = relabel ?g1 c e q" unfolding c2' using that by simp
      then have "0 < gScore (cell_at g2 q)" by (simp add: relabel_def)
      moreover have "in_grid g0 q" using nsp(1) that(1) by blast
      then have "ctype (cell_at ?g1 q) = ctype (cell_at g0 q)" by (rule cell_layout(3) [OF l1])
      with that(2) have "ctype (cell_at g0 q) \<noteq> Wall" by (simp add: improvable_def)
      moreover have "q \<in> set F2" using s2 that by simp
      ultimately show ?thesis by simp
    qed
    have same: "previousNode (cell_at g2 q) = previousNode (cell_at g q)
                \<and> gScore (cell_at g2 q) = gScore (cell_at g q)"
      if "\<not> (q \<in> set ?ns \<and> improvable ?g1 c q)" for q
    proof -
      have "cell_at g2 q = cell_at ?g1 q" unfolding c2' by (rule if_not_P [OF that])
      then show ?thesis by (simp add: c1)
    qed
    have i3: "in_grid g0 p \<and> \<not> isVisited (cell_at g2 p)" if "p \<in> set F2" for p
    proof (cases "p \<in> set rest")
      case True
      then have "p \<noteq> c" "p \<in> set F" using dr(2) S by auto
      with I(3,4) [of p] show ?thesis by (simp add: vis)
    next
      case False
      with that s2 have p: "p \<in> set ?ns" by auto
      then have "in_grid g0 p" using nsp(1) by blast
      moreover have "\<not> isVisited (cell_at ?g1 p)" using p by simp
      then have "\<not> isVisited (cell_at g2 p)" by (simp add: vis c1 split: if_splits)
      ultimately show ?thesis by simp
    qed
    have i4: "p \<in> set (V @ [c])" if "in_grid g0 p" "isVisited (cell_at g2 p)" for p
      using that I(5) [of p] by (auto simp: vis)
    have i5: "0 < gScore (cell_at g2 p)" if "in_grid g0 p" "previousNode (cell_at g2 p) \<noteq> None" for p
    proof (cases "p \<in> set ?ns \<and> improvable ?g1 c p")
      case True
      with upd [of p] show ?thesis by simp
    next
      case False
      from same [OF False] I(6) [OF that(1)] that(2) show ?thesis by simp
    qed
    have i6: "ctype (cell_at g0 p) \<noteq> Wall \<and> (\<not> isVisited (cell_at g2 p) \<longrightarrow> p \<in> set F2)"
      if "in_grid g0 p" "0 < gScore (cell_at g2 p)" for p
    proof (cases "p \<in> set ?ns \<and> improvable ?g1 c p")
      case True
      with upd [of p] show ?thesis by simp
    next
      case False
      from same [OF False] that(2) have g: "0 < gScore (cell_at g p)" by simp
      have "p \<in> set F2" if u: "\<not> isVisited (cell_at g2 p)"
      proof -
        from u have "p \<noteq> c" "\<not> isVisited (cell_at g p)" by (simp_all add: vis)
        with I(8) [OF \<open>in_grid g0 p\<close> g] S s2 show ?thesis by auto
      qed
      with I(7) [OF that(1) g] show ?thesis by simp
    qed
    have inv': "aStar_inv g0 g2 F2 (V @ [c])"
      unfolding aStar_inv_def using l2 d2 dr(1) i3 i4 i5 i6 by blast
    have ue: "unvisited g0 g2 = unvisited g0 g - {c}"
      by (auto simp: unvisited_def vis)
    have "c \<in> unvisited g0 g" using cin cu by (simp add: unvisited_def)
    then have "card (unvisited g0 g2) < card (unvisited g0 g)"
      unfolding ue by (rule card_Diff1_less [OF finite_unvisited])
    then have "((g2, F2), (g, F)) \<in> aStar_rel g0" by (simp add: aStar_rel_def)
    with inv' show ?thesis unfolding e by simp
  qed
qed

lemma aStar_inv_done:
  assumes wf: "wf_grid g0" and ein: "in_grid g0 e" and inv: "aStar_inv g0 g F V"
    and rd: "aStar_round e g F V = Done r"
  shows "\<exists>V' g'. r = Inr (V', g') \<and> layout g' = layout g0
           \<and> (e \<notin> set V' \<longrightarrow> previousNode (cell_at g' e) = None)"
proof (cases "sortNodesByF g F")
  case Nil
  note I = aStar_invD [OF inv]
  from Nil have F: "F = []"
    by (metis length_0_conv length_sort sortNodesByF_def)
  have "previousNode (cell_at g e) = None" if "e \<notin> set V"
  proof (rule ccontr)
    assume "previousNode (cell_at g e) \<noteq> None"
    then have "0 < gScore (cell_at g e)" by (rule I(6) [OF ein])
    moreover have "\<not> isVisited (cell_at g e)" using I(5) [OF ein] that by auto
    ultimately have "e \<in> set F" by (rule I(8) [OF ein])
    with F show False by simp
  qed
  moreover from rd Nil have "r = Inr (V, g)" by (simp add: aStar_round_def)
  ultimately show ?thesis using I(1) by auto
next
  case (Cons c rest)
  note I = aStar_invD [OF inv]
  have sk: "sort_key (\<lambda>p. fScore (cell_at g p)) F = c # rest"
    using Cons by (simp add: sortNodesByF_def)
  have S: "set F = insert c (set rest)" by (rule sort_key_Cons(1) [OF sk])
  have cin: "in_grid g0 c" using I(3) [of c] S by simp
  let ?g1 = "mark_visited g c"
  have l1: "layout ?g1 = layout g0" using I(1) by (simp add: layout_mark_visited)
  have rc: "row (cell_at g c) = fst c" "col (cell_at g c) = snd c"
    using layout_cell [OF wf I(1) cin] by simp_all
  have gn: "getNeighbors (cell_at g c) ?g1
              = Inr (filter (\<lambda>q. \<not> isVisited (cell_at ?g1 q)) (nbrs g0 c))"
    by (rule getNeighbors_layout [OF wf l1 cin rc])
  from rd Cons gn
  have r: "r = Inr (V @ [c], ?g1)"
    and eq: "row (cell_at g c) = row (cell_at g e)" "col (cell_at g c) = col (cell_at g e)"
    by (simp_all add: aStar_round_def split: if_splits prod.splits)
  have "c = e" by (rule same_place [OF wf I(1) cin ein eq])
  with r l1 show ?thesis by auto
qed

text \<open>
  \<^verbatim>\<open>aStar\<close> on a fresh grid returns; the grid it leaves has the layout of the grid it was
  given; and when the end cell is not among the visited cells, the end cell has no
  predecessor.
\<close>

lemma aStar_fresh:
  assumes fr: "fresh_grid g0" and sin: "in_grid g0 s" and ein: "in_grid g0 e"
  shows "\<exists>V g. aStar g0 s e = Some (Inr (V, g)) \<and> layout g = layout g0
           \<and> (e \<notin> set V \<longrightarrow> previousNode (cell_at g e) = None)"
proof -
  note wf = fresh_wf [OF fr]
  define g1 where "g1 = set_cell g0 s
     ((cell_at g0 s)\<lparr>gScore := 0, hScore := heuristic (cell_at g0 s) (cell_at g0 e),
                      fScore := heuristic (cell_at g0 s) (cell_at g0 e)\<rparr>)"
  have l1: "layout g1 = layout g0" by (simp add: g1_def layout_set_cell)
  have c1: "cell_at g1 q = (if q = s
       then (cell_at g0 s)\<lparr>gScore := 0, hScore := heuristic (cell_at g0 s) (cell_at g0 e),
                          fScore := heuristic (cell_at g0 s) (cell_at g0 e)\<rparr>
       else cell_at g0 q)" for q
    unfolding g1_def by (rule cell_at_set_cell [OF sin])
  have inv: "aStar_inv g0 g1 [s] []"
    unfolding aStar_inv_def using l1 sin fresh_gridD [OF fr] by (auto simp: c1)
  have "\<exists>r. aStar_loop e g1 [s] [] = Some r
          \<and> (\<exists>V g. r = Inr (V, g) \<and> layout g = layout g0
                \<and> (e \<notin> set V \<longrightarrow> previousNode (cell_at g e) = None))"
    by (rule aStar_loop_rule [where I = "aStar_inv g0", OF wf_aStar_rel inv])
       (erule (1) aStar_inv_round [OF wf], erule (1) aStar_inv_done [OF wf ein])
  then show ?thesis by (auto simp: aStar_def Let_def g1_def)
qed

subsection \<open>The recorders and the grid of the caller\<close>

text \<open>A grid of three rows and three columns with two walls between start and end.\<close>

definition add_wall :: "pos \<Rightarrow> Grid \<Rightarrow> Grid" where
  "add_wall p g = set_cell g p ((cell_at g p)\<lparr>ctype := Wall\<rparr>)"

definition detour :: Grid where
  "detour = add_wall (1, 1) (add_wall (0, 1) (initializeGrid 3 3 (0, 0) (0, 2)))"

text \<open>
  C9, amended. On every fresh grid, with start and end in the grid, \<^verbatim>\<open>dijkstra\<close> and
  \<^verbatim>\<open>aStar\<close> return, and the grid of the caller keeps its shape and every cell of it keeps
  its row, its column and its type: the recorders write the working fields
  \<^verbatim>\<open>distance\<close>, \<^verbatim>\<open>isVisited\<close>, \<^verbatim>\<open>previousNode\<close>, \<^verbatim>\<open>f\<close>, \<^verbatim>\<open>g\<close> and \<^verbatim>\<open>h\<close> and nothing else.
\<close>

theorem pathfinding_recorders_keep_layout:
  assumes "fresh_grid grid" and "in_grid grid startNode" and "in_grid grid endNode"
  shows "\<exists>vd gd va ga.
           dijkstra grid startNode endNode = Inr (vd, gd)
           \<and> aStar grid startNode endNode = Some (Inr (va, ga))
           \<and> layout gd = layout grid \<and> layout ga = layout grid"
proof -
  from dijkstra_fresh [OF assms] obtain vd gd where
    d: "dijkstra grid startNode endNode = Inr (vd, gd)" "layout gd = layout grid" by blast
  from aStar_fresh [OF assms] obtain va ga where
    a: "aStar grid startNode endNode = Some (Inr (va, ga))" "layout ga = layout grid" by blast
  from d a show ?thesis by blast
qed

theorem pathfinding_recorders_keep_layout_witness:
  "fresh_grid detour \<and> in_grid detour (0, 0) \<and> in_grid detour (0, 2)
   \<and> (\<exists>vd gd va ga.
         dijkstra detour (0, 0) (0, 2) = Inr (vd, gd)
         \<and> aStar detour (0, 0) (0, 2) = Some (Inr (va, ga))
         \<and> layout gd = layout detour \<and> layout ga = layout detour)"
proof -
  have h: "fresh_grid detour" "in_grid detour (0, 0)" "in_grid detour (0, 2)" by code_simp+
  from pathfinding_recorders_keep_layout [OF h] h show ?thesis by (intro conjI)
qed



section \<open>Shortest paths on the grid\<close>

subsection \<open>Wall-avoiding paths\<close>

text \<open>
  A path is a list of cells of the grid, none of them a wall, each next to the one before.
  Its length is the number of its cells.
\<close>

definition passable :: "Grid \<Rightarrow> pos \<Rightarrow> bool" where
  "passable g p \<longleftrightarrow> in_grid g p \<and> ctype (cell_at g p) \<noteq> Wall"

fun walk :: "Grid \<Rightarrow> pos list \<Rightarrow> bool" where
  "walk g [] = False"
| "walk g [p] = passable g p"
| "walk g (p # q # ps) = (passable g p \<and> adjacent p q \<and> walk g (q # ps))"

definition path_between :: "Grid \<Rightarrow> pos \<Rightarrow> pos \<Rightarrow> pos list \<Rightarrow> bool" where
  "path_between g s e ps \<longleftrightarrow> ps \<noteq> [] \<and> hd ps = s \<and> last ps = e \<and> walk g ps"

text \<open>\<open>reach g s n p\<close>: some path from \<open>s\<close> to \<open>p\<close> has \<open>n\<close> steps.\<close>

inductive reach :: "Grid \<Rightarrow> pos \<Rightarrow> nat \<Rightarrow> pos \<Rightarrow> bool" for g :: Grid and s :: pos where
  reach_0: "passable g s \<Longrightarrow> reach g s 0 s"
| reach_Suc: "reach g s n p \<Longrightarrow> adjacent p q \<Longrightarrow> passable g q \<Longrightarrow> reach g s (Suc n) q"

lemma reach_passable: "reach g s n p \<Longrightarrow> passable g p \<and> passable g s"
  by (induction rule: reach.induct) simp_all

lemma reach_zero: "reach g s 0 p \<Longrightarrow> p = s"
  by (erule reach.cases) simp_all

lemma reach_trans: "reach g p m q \<Longrightarrow> reach g s n p \<Longrightarrow> reach g s (n + m) q"
proof (induction rule: reach.induct)
  case reach_0
  then show ?case by simp
next
  case (reach_Suc m q r)
  from reach.reach_Suc [OF reach_Suc.IH [OF reach_Suc.prems] reach_Suc.hyps(2,3)]
  show ?case by simp
qed

lemma path_reach:
  assumes "path_between g s e ps"
  shows "reach g s (length ps - 1) e"
proof -
  have "walk g ps \<Longrightarrow> reach g (hd ps) (length ps - 1) (last ps)" for ps
  proof (induction ps rule: walk.induct)
    case (1 g)
    then show ?case by simp
  next
    case (2 g p)
    then show ?case by (simp add: reach_0)
  next
    case (3 g p q ps)
    then have a: "passable g p" "adjacent p q" and w: "walk g (q # ps)" by simp_all
    from 3(1) [OF w] have r: "reach g q (length ps) (last (q # ps))" by simp
    from reach_passable [OF r] have "passable g q" by simp
    from reach_Suc [OF reach_0 [OF a(1)] a(2) this] have "reach g p (Suc 0) q" .
    from reach_trans [OF r this] show ?case by simp
  qed
  from this [of ps] assms show ?thesis by (simp add: path_between_def)
qed

lemma walk_append:
  assumes "walk g ps" and "adjacent (last ps) q" and "passable g q"
  shows "walk g (ps @ [q])"
  using assms
proof (induction ps rule: walk.induct)
  case (1 g)
  then show ?case by simp
next
  case (2 g p)
  then show ?case by simp
next
  case (3 g p r ps)
  then show ?case by simp
qed

text \<open>A step changes the sum of row and column by one: all paths to a cell have the same parity.\<close>

lemma reach_parity:
  "reach g s n p \<Longrightarrow> even (n + (fst s + snd s)) \<longleftrightarrow> even (fst p + snd p)"
proof (induction rule: reach.induct)
  case reach_0
  show ?case by simp
next
  case (reach_Suc n p q)
  from reach_Suc.hyps(2) have "even (fst q + snd q) \<longleftrightarrow> \<not> even (fst p + snd p)"
    unfolding adjacent_def by (elim disjE conjE) simp_all
  with reach_Suc.IH show ?case by simp
qed

lemma reach_same_parity:
  assumes "reach g s n p" and "reach g s m p"
  shows "even n \<longleftrightarrow> even m"
proof -
  have "even (n + (fst s + snd s)) \<longleftrightarrow> even (m + (fst s + snd s))"
    using reach_parity [OF assms(1)] reach_parity [OF assms(2)] by (rule trans [OF _ sym])
  then show ?thesis by (simp only: even_add) blast
qed

text \<open>The Manhattan distance to a fixed cell changes by at most one with a step.\<close>

definition manhattan :: "pos \<Rightarrow> pos \<Rightarrow> nat" where
  "manhattan p e = nat \<bar>int (fst p) - int (fst e)\<bar> + nat \<bar>int (snd p) - int (snd e)\<bar>"

lemma manhattan_adjacent: "adjacent p q \<Longrightarrow> manhattan p e \<le> Suc (manhattan q e)"
  unfolding adjacent_def manhattan_def by (elim disjE conjE) simp_all

lemma manhattan_reach: "reach g y k v \<Longrightarrow> manhattan y e \<le> k + manhattan v e"
proof (induction rule: reach.induct)
  case reach_0
  show ?case by simp
next
  case (reach_Suc n p q)
  from manhattan_adjacent [OF reach_Suc.hyps(2), of e] reach_Suc.IH show ?case by simp
qed

text \<open>\<open>dist_is g s p n\<close>: the shortest paths from \<open>s\<close> to \<open>p\<close> have \<open>n\<close> steps.\<close>

definition dist_is :: "Grid \<Rightarrow> pos \<Rightarrow> pos \<Rightarrow> nat \<Rightarrow> bool" where
  "dist_is g s p n \<longleftrightarrow> reach g s n p \<and> (\<forall>m. reach g s m p \<longrightarrow> n \<le> m)"

lemma dist_is_reach: "dist_is g s p n \<Longrightarrow> reach g s n p"
  by (simp add: dist_is_def)

lemma dist_is_le: "dist_is g s p n \<Longrightarrow> reach g s m p \<Longrightarrow> n \<le> m"
  by (simp add: dist_is_def)

lemma dist_is_start: "passable g s \<Longrightarrow> dist_is g s s 0"
  by (simp add: dist_is_def reach_0)

lemma dist_is_unique: "dist_is g s p n \<Longrightarrow> dist_is g s p m \<Longrightarrow> n = m"
  by (meson dist_is_le dist_is_reach le_antisym)

lemma dist_is_zero: "dist_is g s p 0 \<Longrightarrow> p = s"
  by (rule reach_zero [OF dist_is_reach])

text \<open>
  A path to a cell outside a set of cells enters the complement somewhere: at the start, or
  by a step from a cell of the set.
\<close>

lemma reach_frontier:
  assumes "reach g s n v" and "\<not> M v"
  shows "\<exists>i y. i \<le> n \<and> \<not> M y \<and> reach g s i y \<and> reach g y (n - i) v
           \<and> (i = 0 \<and> y = s \<or> (\<exists>x j. i = Suc j \<and> M x \<and> reach g s j x \<and> adjacent x y))"
  using assms
proof (induction rule: reach.induct)
  case reach_0
  from reach.reach_0 [OF reach_0.hyps] reach_0.prems show ?case
    by (intro exI [of _ 0] exI [of _ s]) simp
next
  case (reach_Suc n p q)
  show ?case
  proof (cases "M p")
    case True
    have "reach g s (Suc n) q" by (rule reach.reach_Suc [OF reach_Suc.hyps])
    moreover have "reach g q 0 q" by (rule reach.reach_0 [OF reach_Suc.hyps(3)])
    moreover have "\<exists>x j. Suc n = Suc j \<and> M x \<and> reach g s j x \<and> adjacent x q"
      using True reach_Suc.hyps(1,2) by blast
    ultimately show ?thesis
      using reach_Suc.prems
      by (intro exI [of _ "Suc n"] exI [of _ q]) simp
  next
    case False
    from reach_Suc.IH [OF False] obtain i y where
      a: "i \<le> n" "\<not> M y" "reach g s i y" "reach g y (n - i) p"
      and b: "i = 0 \<and> y = s \<or> (\<exists>x j. i = Suc j \<and> M x \<and> reach g s j x \<and> adjacent x y)"
      by blast
    from reach.reach_Suc [OF a(4) reach_Suc.hyps(2,3)] a(1)
    have "reach g y (Suc n - i) q" by (simp add: Suc_diff_le)
    with a b show ?thesis
      by (intro exI [of _ i] exI [of _ y]) simp
  qed
qed


subsection \<open>Reading the path off the predecessors\<close>

text \<open>
  What the recorders leave, as far as the walk along \<^verbatim>\<open>previousNode\<close> needs it: the start
  has no predecessor; a visited cell has a label, the number of steps of the shortest
  paths to it; and the predecessor of a visited cell other than the start is a visited
  cell next to it, with a label smaller by one.
\<close>

definition chain :: "Grid \<Rightarrow> pos \<Rightarrow> Grid \<Rightarrow> (pos \<Rightarrow> nat) \<Rightarrow> bool" where
  "chain g0 s g L \<longleftrightarrow>
     layout g = layout g0 \<and> previousNode (cell_at g s) = None
     \<and> (\<forall>p. in_grid g0 p \<longrightarrow> isVisited (cell_at g p) \<longrightarrow> dist_is g0 s p (L p))
     \<and> (\<forall>p. in_grid g0 p \<longrightarrow> isVisited (cell_at g p) \<longrightarrow> p \<noteq> s \<longrightarrow>
           (\<exists>q. previousNode (cell_at g p) = Some q \<and> in_grid g0 q \<and> isVisited (cell_at g q)
                \<and> adjacent q p \<and> L p = Suc (L q)))"

lemma chain_path:
  assumes ch: "chain g0 s g L" and "in_grid g0 p" and "isVisited (cell_at g p)"
  shows "\<exists>ps. shortestPath_loop g p acc = Some (Inr (ps @ acc)) \<and> path_between g0 s p ps
            \<and> length ps = Suc (L p)"
  using assms(2,3)
proof (induction "L p" arbitrary: p acc rule: less_induct)
  case less
  from ch have l: "layout g = layout g0" and ps: "previousNode (cell_at g s) = None"
    and d: "\<And>p. in_grid g0 p \<Longrightarrow> isVisited (cell_at g p) \<Longrightarrow> dist_is g0 s p (L p)"
    and pr: "\<And>p. in_grid g0 p \<Longrightarrow> isVisited (cell_at g p) \<Longrightarrow> p \<noteq> s \<Longrightarrow>
           (\<exists>q. previousNode (cell_at g p) = Some q \<and> in_grid g0 q \<and> isVisited (cell_at g q)
                \<and> adjacent q p \<and> L p = Suc (L q))"
    unfolding chain_def by blast+
  have dp: "dist_is g0 s p (L p)" by (rule d [OF less.prems])
  have pp: "passable g0 p" and sp: "passable g0 s"
    using reach_passable [OF dist_is_reach [OF dp]] by simp_all
  show ?case
  proof (cases "p = s")
    case True
    have "L s = 0" using dist_is_unique [OF dp [unfolded True] dist_is_start [OF sp]] .
    moreover have "shortestPath_loop g s acc = Some (Inr ([s] @ acc))"
      using ps by (simp add: shortestPath_loop.simps [of g s acc])
    moreover have "path_between g0 s s [s]" using sp by (simp add: path_between_def)
    ultimately show ?thesis unfolding True by (intro exI [of _ "[s]"]) simp
  next
    case False
    from pr [OF less.prems False] obtain q where
      q: "previousNode (cell_at g p) = Some q" "in_grid g0 q" "isVisited (cell_at g q)"
         "adjacent q p" "L p = Suc (L q)"
      by blast
    have qg: "fst q < length g" "snd q < length (g ! fst q)"
      using q(2) in_grid_layout [OF l, of q] by (simp_all add: in_grid_def)
    have "L q < L p" using q(5) by simp
    from less.hyps [OF this q(2,3), of "p # acc"] obtain qs where
      a: "shortestPath_loop g q (p # acc) = Some (Inr (qs @ p # acc))"
      and b: "path_between g0 s q qs" and c: "length qs = Suc (L q)"
      by blast
    have "shortestPath_loop g p acc = Some (Inr ((qs @ [p]) @ acc))"
      using q(1) qg a by (simp add: shortestPath_loop.simps [of g p acc])
    moreover have "path_between g0 s p (qs @ [p])"
      using b walk_append [of g0 qs p] q(4) pp by (simp add: path_between_def)
    moreover have "length (qs @ [p]) = Suc (L p)" using c q(5) by simp
    ultimately show ?thesis by blast
  qed
qed

subsection \<open>The distances that \<^verbatim>\<open>dijkstra\<close> writes\<close>

text \<open>
  The start has distance 0 and no predecessor. A cell that is no wall and has a finite
  distance has the number of steps of the shortest paths to it as its distance, and, when it
  is not the start, a visited cell next to it as its predecessor, with a distance smaller
  by one. The cells next to a visited cell have a finite distance, and a visited cell is
  no wall and has a finite distance.
\<close>

definition dijkstra_dist_inv :: "Grid \<Rightarrow> pos \<Rightarrow> Grid \<Rightarrow> bool" where
  "dijkstra_dist_inv g0 s g \<longleftrightarrow>
     distance (cell_at g s) = 0 \<and> previousNode (cell_at g s) = None
     \<and> (\<forall>p. passable g0 p \<longrightarrow> distance (cell_at g p) \<noteq> \<infinity> \<longrightarrow>
            dist_is g0 s p (the_enat (distance (cell_at g p))))
     \<and> (\<forall>u v. in_grid g0 u \<longrightarrow> isVisited (cell_at g u) \<longrightarrow> passable g0 v \<longrightarrow> adjacent u v \<longrightarrow>
            distance (cell_at g v) \<noteq> \<infinity>)
     \<and> (\<forall>p. in_grid g0 p \<longrightarrow> isVisited (cell_at g p) \<longrightarrow>
            passable g0 p \<and> distance (cell_at g p) \<noteq> \<infinity>)
     \<and> (\<forall>p. passable g0 p \<longrightarrow> distance (cell_at g p) \<noteq> \<infinity> \<longrightarrow> p \<noteq> s \<longrightarrow>
            (\<exists>q. previousNode (cell_at g p) = Some q \<and> in_grid g0 q \<and> isVisited (cell_at g q)
                 \<and> adjacent q p \<and> distance (cell_at g p) = distance (cell_at g q) + 1))"

lemma dijkstra_dist_invD:
  assumes "dijkstra_dist_inv g0 s g"
  shows "distance (cell_at g s) = 0"
    and "previousNode (cell_at g s) = None"
    and "passable g0 p \<Longrightarrow> distance (cell_at g p) \<noteq> \<infinity> \<Longrightarrow>
           dist_is g0 s p (the_enat (distance (cell_at g p)))"
    and "in_grid g0 u \<Longrightarrow> isVisited (cell_at g u) \<Longrightarrow> passable g0 v \<Longrightarrow> adjacent u v \<Longrightarrow>
           distance (cell_at g v) \<noteq> \<infinity>"
    and "in_grid g0 p \<Longrightarrow> isVisited (cell_at g p) \<Longrightarrow> passable g0 p"
    and "in_grid g0 p \<Longrightarrow> isVisited (cell_at g p) \<Longrightarrow> distance (cell_at g p) \<noteq> \<infinity>"
    and "passable g0 p \<Longrightarrow> distance (cell_at g p) \<noteq> \<infinity> \<Longrightarrow> p \<noteq> s \<Longrightarrow>
           (\<exists>q. previousNode (cell_at g p) = Some q \<and> in_grid g0 q \<and> isVisited (cell_at g q)
                \<and> adjacent q p \<and> distance (cell_at g p) = distance (cell_at g q) + 1)"
  using assms unfolding dijkstra_dist_inv_def by blast+

text \<open>
  The cell that a round takes is not farther from the start than any unvisited cell that
  is no wall: a path to such a cell leaves the visited cells at a cell that is still to be
  taken and has its true distance.
\<close>

lemma dijkstra_least:
  assumes inv: "dijkstra_inv g0 g U V" and dinv: "dijkstra_dist_inv g0 s g"
    and mn: "\<forall>p\<in>set U. distance (cell_at g z) \<le> distance (cell_at g p)"
    and r: "reach g0 s m v" and v: "\<not> isVisited (cell_at g v)"
  shows "distance (cell_at g z) \<le> enat m"
proof -
  note I = dijkstra_invD [OF inv]
  note D = dijkstra_dist_invD [OF dinv]
  let ?M = "\<lambda>p. in_grid g0 p \<and> isVisited (cell_at g p)"
  have "\<not> ?M v" using v by simp
  from reach_frontier [of g0 s m v ?M, OF r this] obtain i y where
    i: "i \<le> m" and y: "\<not> ?M y" and ry: "reach g0 s i y"
    and c: "i = 0 \<and> y = s \<or> (\<exists>x j. i = Suc j \<and> ?M x \<and> reach g0 s j x \<and> adjacent x y)"
    by blast
  have py: "passable g0 y" using reach_passable [OF ry] by simp
  then have yin: "in_grid g0 y" and yw: "ctype (cell_at g0 y) \<noteq> Wall"
    by (simp_all add: passable_def)
  have yu: "\<not> isVisited (cell_at g y)" using y yin by simp
  have "y \<in> set U" by (rule I(5) [OF yin yu yw])
  with mn have le: "distance (cell_at g z) \<le> distance (cell_at g y)" by simp
  from c show ?thesis
  proof
    assume "i = 0 \<and> y = s"
    with le D(1) show ?thesis by (simp add: zero_enat_def [symmetric])
  next
    assume "\<exists>x j. i = Suc j \<and> ?M x \<and> reach g0 s j x \<and> adjacent x y"
    then obtain x where x: "in_grid g0 x" "isVisited (cell_at g x)" "adjacent x y" by blast
    have fin: "distance (cell_at g y) \<noteq> \<infinity>" by (rule D(4) [OF x(1,2) py x(3)])
    from dist_is_le [OF D(3) [OF py fin] ry] have "the_enat (distance (cell_at g y)) \<le> i" .
    with fin have "distance (cell_at g y) \<le> enat i" by (cases "distance (cell_at g y)") simp_all
    with le i show ?thesis by (meson enat_ord_simps(1) order_trans)
  qed
qed

lemma dijkstra_dist_inv_round:
  assumes wf: "wf_grid g0" and sp: "passable g0 s"
    and inv: "dijkstra_inv g0 g U V" and dinv: "dijkstra_dist_inv g0 s g"
    and rd: "dijkstra_round e g U V = Again g' U' V'"
  shows "dijkstra_dist_inv g0 s g'"
proof (cases "sortNodesByDistance g U")
  case Nil
  with rd show ?thesis by (simp add: dijkstra_round_def)
next
  case (Cons z rest)
  note I = dijkstra_invD [OF inv]
  note D = dijkstra_dist_invD [OF dinv]
  have sk: "sort_key (\<lambda>p. distance (cell_at g p)) U = z # rest"
    using Cons by (simp add: sortNodesByDistance_def)
  have U: "set U = insert z (set rest)" by (rule sort_key_Cons(1) [OF sk])
  have mn: "\<forall>p\<in>set U. distance (cell_at g z) \<le> distance (cell_at g p)"
    by (rule sort_key_Cons(2) [OF sk])
  have zin: "in_grid g0 z" using I(2) [of z] U by simp
  have zg: "in_grid g z" using zin in_grid_layout [OF I(1)] by simp
  have zt: "ctype (cell_at g z) = ctype (cell_at g0 z)" by (rule cell_layout(3) [OF I(1) zin])
  show ?thesis
  proof (cases "ctype (cell_at g z) = Wall")
    case True
    with rd Cons have "g' = g" by (simp add: dijkstra_round_def)
    with dinv show ?thesis by simp
  next
    case False
    let ?g1 = "mark_visited g z"
    have zp: "passable g0 z" using zin False zt by (simp add: passable_def)
    have l1: "layout ?g1 = layout g0" using I(1) by (simp add: layout_mark_visited)
    from updateUnvisitedNeighbors_layout [OF wf l1 zin] obtain g2 where
      u: "updateUnvisitedNeighbors z ?g1 = Inr g2"
      and c2: "\<forall>q. cell_at g2 q = (if q \<in> set (nbrs g0 z) \<and> \<not> isVisited (cell_at ?g1 q)
                                   then relax ?g1 z q else cell_at ?g1 q)"
      by blast
    from rd Cons False u have fin: "distance (cell_at g z) \<noteq> \<infinity>" and e: "g' = g2"
      by (simp_all add: dijkstra_round_def split: if_splits)
    from fin obtain n where n: "distance (cell_at g z) = enat n" by (cases "distance (cell_at g z)") auto
    have dz: "dist_is g0 s z n" using D(3) [OF zp fin] n by simp
    have c1: "cell_at ?g1 q = (if q = z then (cell_at g z)\<lparr>isVisited := True\<rparr> else cell_at g q)" for q
      by (rule cell_at_mark_visited [OF zg])
    define R where "R q \<longleftrightarrow> q \<in> set (nbrs g0 z) \<and> \<not> isVisited (cell_at g q)" for q
    have zn: "z \<notin> set (nbrs g0 z)" by (rule not_self_nbrs)
    have nb: "q \<in> set (nbrs g0 z) \<longleftrightarrow> in_grid g0 q \<and> adjacent z q" for q
      using set_nbrs [OF wf zin] by auto
    have cR: "(q \<in> set (nbrs g0 z) \<and> \<not> isVisited (cell_at ?g1 q)) \<longleftrightarrow> R q" for q
      using zn by (auto simp: R_def c1)
    have c2': "cell_at g2 q = (if R q then relax ?g1 z q else cell_at ?g1 q)" for q
      using spec [OF c2, of q] unfolding cR .
    have Rz: "\<not> R z" using zn by (simp add: R_def)
    have lab: "distance (cell_at g2 q) = (if R q then enat (Suc n) else distance (cell_at g q))" for q
      unfolding c2' by (simp add: relax_def c1 n eSuc_enat [symmetric] plus_1_eSuc(2))
    have prv: "previousNode (cell_at g2 q) = (if R q then Some z else previousNode (cell_at g q))" for q
      unfolding c2' by (simp add: relax_def c1)
    have vis: "isVisited (cell_at g2 q) \<longleftrightarrow> q = z \<or> isVisited (cell_at g q)" for q
      unfolding c2' by (simp add: relax_def c1)
    have least: "n \<le> m" if "reach g0 s m v" "\<not> isVisited (cell_at g v)" for m v
      using dijkstra_least [OF inv dinv mn that] n by simp
    have Rs: "\<not> R s"
    proof
      assume "R s"
      then have "\<not> isVisited (cell_at g s)" and a: "s \<in> set (nbrs g0 z)" by (simp_all add: R_def)
      from least [OF reach_0 [OF sp] this(1)] have "n = 0" by simp
      with dz have "z = s" by (simp add: dist_is_zero)
      with a zn show False by simp
    qed
    have s1: "distance (cell_at g2 s) = 0" "previousNode (cell_at g2 s) = None"
      using Rs D(1,2) by (simp_all add: lab prv)
    have s2: "dist_is g0 s p (the_enat (distance (cell_at g2 p)))"
      if "passable g0 p" "distance (cell_at g2 p) \<noteq> \<infinity>" for p
    proof (cases "R p")
      case True
      then have ad: "adjacent z p" and pu: "\<not> isVisited (cell_at g p)"
        by (simp_all add: R_def nb)
      have r: "reach g0 s (Suc n) p"
        by (rule reach_Suc [OF dist_is_reach [OF dz] ad that(1)])
      have "Suc n \<le> m" if rm: "reach g0 s m p" for m
      proof -
        have "n \<le> m" by (rule least [OF rm pu])
        moreover have "even m \<longleftrightarrow> even (Suc n)" by (rule reach_same_parity [OF rm r])
        then have "m \<noteq> n" by auto
        ultimately show ?thesis by simp
      qed
      with r True show ?thesis by (simp add: lab dist_is_def)
    next
      case False
      with D(3) [OF that(1)] that(2) show ?thesis by (simp add: lab)
    qed
    have s3: "distance (cell_at g2 v) \<noteq> \<infinity>"
      if "in_grid g0 u" "isVisited (cell_at g2 u)" "passable g0 v" "adjacent u v" for u v
    proof (cases "R v")
      case True
      then show ?thesis by (simp add: lab)
    next
      case False
      have "distance (cell_at g v) \<noteq> \<infinity>"
      proof (cases "u = z")
        case True
        have vin: "in_grid g0 v" using that(3) by (simp add: passable_def)
        with that(4) True have "v \<in> set (nbrs g0 z)" by (simp add: nb)
        with False have "isVisited (cell_at g v)" by (simp add: R_def)
        then show ?thesis by (rule D(6) [OF vin])
      next
        case False
        with that(2) have "isVisited (cell_at g u)" by (simp add: vis)
        then show ?thesis by (rule D(4) [OF that(1) _ that(3,4)])
      qed
      with False show ?thesis by (simp add: lab)
    qed
    have s4: "passable g0 p \<and> distance (cell_at g2 p) \<noteq> \<infinity>"
      if "in_grid g0 p" "isVisited (cell_at g2 p)" for p
    proof (cases "p = z")
      case True
      with zp fin Rz show ?thesis by (simp add: lab)
    next
      case False
      with that(2) have v: "isVisited (cell_at g p)" by (simp add: vis)
      then have "\<not> R p" by (simp add: R_def)
      with D(5,6) [OF that(1) v] show ?thesis by (simp add: lab)
    qed
    have s5: "\<exists>q. previousNode (cell_at g2 p) = Some q \<and> in_grid g0 q \<and> isVisited (cell_at g2 q)
                 \<and> adjacent q p \<and> distance (cell_at g2 p) = distance (cell_at g2 q) + 1"
      if "passable g0 p" "distance (cell_at g2 p) \<noteq> \<infinity>" "p \<noteq> s" for p
    proof (cases "R p")
      case True
      then have ad: "adjacent z p" by (simp add: R_def nb)
      have "distance (cell_at g2 p) = distance (cell_at g2 z) + 1"
        using True Rz by (simp add: lab n eSuc_enat [symmetric] plus_1_eSuc(2))
      with True ad zin show ?thesis
        by (intro exI [of _ z]) (simp add: prv vis)
    next
      case False
      with that(2) have "distance (cell_at g p) \<noteq> \<infinity>" by (simp add: lab)
      from D(7) [OF that(1) this that(3)] obtain q where
        q: "previousNode (cell_at g p) = Some q" "in_grid g0 q" "isVisited (cell_at g q)"
           "adjacent q p" "distance (cell_at g p) = distance (cell_at g q) + 1"
        by blast
      have "\<not> R q" using q(3) by (simp add: R_def)
      with q False show ?thesis
        by (intro exI [of _ q]) (simp add: prv vis lab)
    qed
    show ?thesis
      unfolding e dijkstra_dist_inv_def using s1 s2 s3 s4 s5 by blast
  qed
qed

text \<open>When the loop of \<^verbatim>\<open>dijkstra\<close> ends, a reachable end cell has been visited.\<close>

lemma dijkstra_chain:
  assumes l: "layout g' = layout g0" and dinv: "dijkstra_dist_inv g0 s g"
    and same: "\<And>q. distance (cell_at g' q) = distance (cell_at g q)"
              "\<And>q. previousNode (cell_at g' q) = previousNode (cell_at g q)"
    and v1: "\<And>q. isVisited (cell_at g q) \<Longrightarrow> isVisited (cell_at g' q)"
    and v2: "\<And>q. in_grid g0 q \<Longrightarrow> isVisited (cell_at g' q) \<Longrightarrow>
               isVisited (cell_at g q) \<or> (passable g0 q \<and> distance (cell_at g q) \<noteq> \<infinity>)"
  shows "chain g0 s g' (\<lambda>p. the_enat (distance (cell_at g' p)))"
proof -
  note D = dijkstra_dist_invD [OF dinv]
  have pf: "passable g0 q \<and> distance (cell_at g q) \<noteq> \<infinity>"
    if "in_grid g0 q" "isVisited (cell_at g' q)" for q
    using v2 [OF that] D(5,6) [OF that(1)] by blast
  have a: "dist_is g0 s p (the_enat (distance (cell_at g' p)))"
    if "in_grid g0 p" "isVisited (cell_at g' p)" for p
    using pf [OF that] D(3) [of p] by (simp add: same)
  have b: "\<exists>q. previousNode (cell_at g' p) = Some q \<and> in_grid g0 q \<and> isVisited (cell_at g' q)
               \<and> adjacent q p
               \<and> the_enat (distance (cell_at g' p)) = Suc (the_enat (distance (cell_at g' q)))"
    if "in_grid g0 p" "isVisited (cell_at g' p)" "p \<noteq> s" for p
  proof -
    from pf [OF that(1,2)] have "passable g0 p" "distance (cell_at g p) \<noteq> \<infinity>" by simp_all
    from D(7) [OF this that(3)] obtain q where
      q: "previousNode (cell_at g p) = Some q" "in_grid g0 q" "isVisited (cell_at g q)"
         "adjacent q p" "distance (cell_at g p) = distance (cell_at g q) + 1"
      by blast
    from D(6) [OF q(2,3)] obtain k where k: "distance (cell_at g q) = enat k"
      by (cases "distance (cell_at g q)") auto
    have "the_enat (distance (cell_at g p)) = Suc (the_enat (distance (cell_at g q)))"
      unfolding q(5) k by (simp add: one_enat_def)
    with q v1 [OF q(3)] show ?thesis
      by (intro exI [of _ q]) (simp add: same)
  qed
  show ?thesis
    unfolding chain_def using l D(2) a b by (simp add: same)
qed

lemma dijkstra_dist_inv_done:
  assumes wf: "wf_grid g0" and sp: "passable g0 s" and ein: "in_grid g0 e"
    and re: "reach g0 s m e"
    and inv: "dijkstra_inv g0 g U V" and dinv: "dijkstra_dist_inv g0 s g"
    and rd: "dijkstra_round e g U V = Done r"
  shows "\<exists>V' g'. r = Inr (V', g') \<and> isVisited (cell_at g' e)
           \<and> chain g0 s g' (\<lambda>p. the_enat (distance (cell_at g' p)))"
proof -
  note I = dijkstra_invD [OF inv]
  note D = dijkstra_dist_invD [OF dinv]
  have ep: "passable g0 e" using reach_passable [OF re] by simp
  then have ew: "ctype (cell_at g0 e) \<noteq> Wall" by (simp add: passable_def)
  have same: "chain g0 s g (\<lambda>p. the_enat (distance (cell_at g p)))"
    by (rule dijkstra_chain [OF I(1) dinv]) simp_all
  show ?thesis
  proof (cases "sortNodesByDistance g U")
    case Nil
    then have "U = []" by (metis length_0_conv length_sort sortNodesByDistance_def)
    then have "isVisited (cell_at g e)" using I(5) [OF ein _ ew] by auto
    moreover from rd Nil have "r = Inr (V, g)" by (simp add: dijkstra_round_def)
    ultimately show ?thesis using same by blast
  next
    case (Cons z rest)
    have sk: "sort_key (\<lambda>p. distance (cell_at g p)) U = z # rest"
      using Cons by (simp add: sortNodesByDistance_def)
    have U: "set U = insert z (set rest)" by (rule sort_key_Cons(1) [OF sk])
    have mn: "\<forall>p\<in>set U. distance (cell_at g z) \<le> distance (cell_at g p)"
      by (rule sort_key_Cons(2) [OF sk])
    have zin: "in_grid g0 z" using I(2) [of z] U by simp
    have zg: "in_grid g z" using zin in_grid_layout [OF I(1)] by simp
    have zt: "ctype (cell_at g z) = ctype (cell_at g0 z)" by (rule cell_layout(3) [OF I(1) zin])
    from rd Cons have nw: "ctype (cell_at g z) \<noteq> Wall"
      by (auto simp: dijkstra_round_def)
    have zp: "passable g0 z" using zin nw zt by (simp add: passable_def)
    show ?thesis
    proof (cases "distance (cell_at g z) = \<infinity>")
      case True
      with rd Cons nw have r: "r = Inr (V, g)" by (simp add: dijkstra_round_def)
      have "isVisited (cell_at g e)"
      proof (rule ccontr)
        assume "\<not> isVisited (cell_at g e)"
        from dijkstra_least [OF inv dinv mn re this] True show False by simp
      qed
      with r same show ?thesis by blast
    next
      case False
      let ?g1 = "mark_visited g z"
      have l1: "layout ?g1 = layout g0" using I(1) by (simp add: layout_mark_visited)
      from updateUnvisitedNeighbors_layout [OF wf l1 zin] obtain g2 where
        u: "updateUnvisitedNeighbors z ?g1 = Inr g2" by blast
      from rd Cons nw False u
      have r: "r = Inr (V @ [z], ?g1)"
        and eq: "row (cell_at g z) = row (cell_at g e)" "col (cell_at g z) = col (cell_at g e)"
        by (simp_all add: dijkstra_round_def split: if_splits)
      have ze: "z = e" by (rule same_place [OF wf I(1) zin ein eq])
      have c1: "cell_at ?g1 q = (if q = z then (cell_at g z)\<lparr>isVisited := True\<rparr> else cell_at g q)" for q
        by (rule cell_at_mark_visited [OF zg])
      have "chain g0 s ?g1 (\<lambda>p. the_enat (distance (cell_at ?g1 p)))"
      proof (rule dijkstra_chain [OF l1 dinv])
        fix q
        show "distance (cell_at ?g1 q) = distance (cell_at g q)" by (simp add: c1)
        show "previousNode (cell_at ?g1 q) = previousNode (cell_at g q)" by (simp add: c1)
        show "isVisited (cell_at g q) \<Longrightarrow> isVisited (cell_at ?g1 q)" by (simp add: c1)
        show "in_grid g0 q \<Longrightarrow> isVisited (cell_at ?g1 q) \<Longrightarrow>
               isVisited (cell_at g q) \<or> (passable g0 q \<and> distance (cell_at g q) \<noteq> \<infinity>)"
          using zp False by (simp add: c1 split: if_splits)
      qed
      moreover have "isVisited (cell_at ?g1 e)" unfolding ze [symmetric] by (simp add: c1)
      ultimately show ?thesis using r by blast
    qed
  qed
qed

text \<open>
  \<^verbatim>\<open>dijkstra\<close> on a fresh grid in which the end can be reached from the start: the walk
  along \<^verbatim>\<open>previousNode\<close> from the end returns a path from the start to the end, and no
  path from the start to the end has fewer cells.
\<close>

lemma dijkstra_shortest:
  assumes fr: "fresh_grid g0" and pth: "path_between g0 s e ps0"
  shows "\<exists>V g ps d. dijkstra g0 s e = Inr (V, g)
           \<and> getNodesInShortestPathOrder g e = Some (Inr ps)
           \<and> path_between g0 s e ps \<and> length ps = Suc d \<and> dist_is g0 s e d"
proof -
  note wf = fresh_wf [OF fr]
  from path_reach [OF pth] have re: "reach g0 s (length ps0 - 1) e" .
  from reach_passable [OF re] have ep: "passable g0 e" and sp: "passable g0 s" by simp_all
  then have ein: "in_grid g0 e" and sin: "in_grid g0 s" by (simp_all add: passable_def)
  define g1 where "g1 = set_cell g0 s ((cell_at g0 s)\<lparr>distance := 0\<rparr>)"
  have l1: "layout g1 = layout g0" by (simp add: g1_def layout_set_cell)
  have c1: "cell_at g1 q = (if q = s then (cell_at g0 s)\<lparr>distance := 0\<rparr> else cell_at g0 q)" for q
    unfolding g1_def by (rule cell_at_set_cell [OF sin])
  have i1: "in_grid g1 p = in_grid g0 p" for p by (simp add: g1_def)
  have F: "distance (cell_at g0 p) = \<infinity>" "\<not> isVisited (cell_at g0 p)"
    "previousNode (cell_at g0 p) = None" if "in_grid g0 p" for p
    using fresh_gridD [OF fr that] by simp_all
  have inv: "dijkstra_inv g0 g1 (getAllNodes g1) []"
    unfolding dijkstra_inv_def set_getAllNodes i1
    using l1 F by (auto simp: c1)
  have dinv: "dijkstra_dist_inv g0 s g1"
    unfolding dijkstra_dist_inv_def
    using F sin dist_is_start [OF sp] by (auto simp: c1 passable_def zero_enat_def)
  have "\<exists>V' g'. dijkstra_loop e g1 (getAllNodes g1) [] = Inr (V', g') \<and> isVisited (cell_at g' e)
           \<and> chain g0 s g' (\<lambda>p. the_enat (distance (cell_at g' p)))"
  proof (rule dijkstra_loop_rule
      [where I = "\<lambda>g U V. dijkstra_inv g0 g U V \<and> dijkstra_dist_inv g0 s g"])
    show "dijkstra_inv g0 g1 (getAllNodes g1) [] \<and> dijkstra_dist_inv g0 s g1"
      using inv dinv by simp
  next
    fix g U V g' U' V'
    assume "dijkstra_inv g0 g U V \<and> dijkstra_dist_inv g0 s g"
      and "dijkstra_round e g U V = Again g' U' V'"
    then show "dijkstra_inv g0 g' U' V' \<and> dijkstra_dist_inv g0 s g'"
      using dijkstra_inv_round [OF wf, of g U V e g' U' V']
        dijkstra_dist_inv_round [OF wf sp, of g U V e g' U' V'] by blast
  next
    fix g U V r
    assume "dijkstra_inv g0 g U V \<and> dijkstra_dist_inv g0 s g"
      and "dijkstra_round e g U V = Done r"
    then show "\<exists>V' g'. r = Inr (V', g') \<and> isVisited (cell_at g' e)
           \<and> chain g0 s g' (\<lambda>p. the_enat (distance (cell_at g' p)))"
      using dijkstra_dist_inv_done [OF wf sp ein re, of g U V r] by blast
  qed
  then obtain V g where
    d: "dijkstra_loop e g1 (getAllNodes g1) [] = Inr (V, g)" and ve: "isVisited (cell_at g e)"
    and ch: "chain g0 s g (\<lambda>p. the_enat (distance (cell_at g p)))"
    by blast
  from chain_path [OF ch ein ve, of "[]"] obtain ps where
    p: "shortestPath_loop g e [] = Some (Inr ps)" "path_between g0 s e ps"
       "length ps = Suc (the_enat (distance (cell_at g e)))"
    by auto
  from ch ein ve have "dist_is g0 s e (the_enat (distance (cell_at g e)))"
    unfolding chain_def by blast
  with d p show ?thesis
    by (simp add: dijkstra_def Let_def g1_def getNodesInShortestPathOrder_def)
qed

subsection \<open>The scores that \<^verbatim>\<open>aStar\<close> writes\<close>

text \<open>
  A cell has a score when it is the start or its \<^verbatim>\<open>g\<close> is positive. The start keeps \<^verbatim>\<open>g\<close>
  zero and no predecessor, and is visited in the first round. For a cell with a score,
  \<^verbatim>\<open>f\<close> is \<^verbatim>\<open>g\<close> plus the Manhattan distance to the end, and some path from the start has
  \<^verbatim>\<open>g\<close> steps. The \<^verbatim>\<open>g\<close> of a visited cell is the number of steps of the shortest paths
  to it, and the cells next to it have a score that is larger by one at most. The
  predecessor of a cell with positive \<^verbatim>\<open>g\<close> is a visited cell next to it whose \<^verbatim>\<open>g\<close> is
  smaller by one.
\<close>

definition scored :: "Grid \<Rightarrow> pos \<Rightarrow> pos \<Rightarrow> bool" where
  "scored g s p \<longleftrightarrow> p = s \<or> 0 < gScore (cell_at g p)"

definition aStar_dist_inv :: "Grid \<Rightarrow> pos \<Rightarrow> pos \<Rightarrow> Grid \<Rightarrow> pos list \<Rightarrow> bool" where
  "aStar_dist_inv g0 s e g F \<longleftrightarrow>
     gScore (cell_at g s) = 0 \<and> previousNode (cell_at g s) = None
     \<and> (isVisited (cell_at g s) \<or> F = [s])
     \<and> (\<forall>p\<in>set F. scored g s p)
     \<and> (\<forall>p. in_grid g0 p \<longrightarrow> scored g s p \<longrightarrow>
            fScore (cell_at g p) = gScore (cell_at g p) + manhattan p e)
     \<and> (\<forall>p. passable g0 p \<longrightarrow> scored g s p \<longrightarrow> reach g0 s (gScore (cell_at g p)) p)
     \<and> (\<forall>p. in_grid g0 p \<longrightarrow> isVisited (cell_at g p) \<longrightarrow>
            scored g s p \<and> dist_is g0 s p (gScore (cell_at g p)))
     \<and> (\<forall>u v. in_grid g0 u \<longrightarrow> isVisited (cell_at g u) \<longrightarrow> passable g0 v \<longrightarrow> adjacent u v \<longrightarrow>
            scored g s v \<and> gScore (cell_at g v) \<le> Suc (gScore (cell_at g u)))
     \<and> (\<forall>p. in_grid g0 p \<longrightarrow> 0 < gScore (cell_at g p) \<longrightarrow>
            (\<exists>q. previousNode (cell_at g p) = Some q \<and> in_grid g0 q \<and> isVisited (cell_at g q)
                 \<and> adjacent q p \<and> gScore (cell_at g p) = Suc (gScore (cell_at g q))))"

lemma aStar_dist_invD:
  assumes "aStar_dist_inv g0 s e g F"
  shows "gScore (cell_at g s) = 0"
    and "previousNode (cell_at g s) = None"
    and "isVisited (cell_at g s) \<or> F = [s]"
    and "p \<in> set F \<Longrightarrow> scored g s p"
    and "in_grid g0 p \<Longrightarrow> scored g s p \<Longrightarrow>
           fScore (cell_at g p) = gScore (cell_at g p) + manhattan p e"
    and "passable g0 p \<Longrightarrow> scored g s p \<Longrightarrow> reach g0 s (gScore (cell_at g p)) p"
    and "in_grid g0 p \<Longrightarrow> isVisited (cell_at g p) \<Longrightarrow> scored g s p"
    and "in_grid g0 p \<Longrightarrow> isVisited (cell_at g p) \<Longrightarrow> dist_is g0 s p (gScore (cell_at g p))"
    and "in_grid g0 u \<Longrightarrow> isVisited (cell_at g u) \<Longrightarrow> passable g0 v \<Longrightarrow> adjacent u v \<Longrightarrow>
           scored g s v"
    and "in_grid g0 u \<Longrightarrow> isVisited (cell_at g u) \<Longrightarrow> passable g0 v \<Longrightarrow> adjacent u v \<Longrightarrow>
           gScore (cell_at g v) \<le> Suc (gScore (cell_at g u))"
    and "in_grid g0 p \<Longrightarrow> 0 < gScore (cell_at g p) \<Longrightarrow>
           (\<exists>q. previousNode (cell_at g p) = Some q \<and> in_grid g0 q \<and> isVisited (cell_at g q)
                \<and> adjacent q p \<and> gScore (cell_at g p) = Suc (gScore (cell_at g q)))"
  using assms unfolding aStar_dist_inv_def by blast+

text \<open>An unvisited cell with a score is in the open set.\<close>

lemma aStar_open:
  assumes inv: "aStar_inv g0 g F V" and dinv: "aStar_dist_inv g0 s e g F"
    and "in_grid g0 y" and "\<not> isVisited (cell_at g y)" and "scored g s y"
  shows "y \<in> set F"
proof (cases "0 < gScore (cell_at g y)")
  case True
  from aStar_invD(8) [OF inv assms(3) True assms(4)] show ?thesis .
next
  case False
  with assms(5) have "y = s" by (simp add: scored_def)
  with aStar_dist_invD(3) [OF dinv] assms(4) show ?thesis by auto
qed

text \<open>
  The cell that a round takes has its true distance as \<^verbatim>\<open>g\<close>: a path to it leaves the
  visited cells at a cell of the open set whose \<^verbatim>\<open>f\<close> is not larger than the number of
  steps of the path plus the Manhattan distance from the cell taken to the end.
\<close>

lemma aStar_least:
  assumes inv: "aStar_inv g0 g F V" and dinv: "aStar_dist_inv g0 s e g F"
    and cF: "c \<in> set F"
    and mn: "\<forall>p\<in>set F. fScore (cell_at g c) \<le> fScore (cell_at g p)"
    and r: "reach g0 s m c"
  shows "gScore (cell_at g c) \<le> m"
proof -
  note I = aStar_invD [OF inv]
  note D = aStar_dist_invD [OF dinv]
  let ?M = "\<lambda>p. in_grid g0 p \<and> isVisited (cell_at g p)"
  have cin: "in_grid g0 c" by (rule I(3) [OF cF])
  have "\<not> ?M c" using I(4) [OF cF] by simp
  from reach_frontier [of g0 s m c ?M, OF r this] obtain i y where
    i: "i \<le> m" and y: "\<not> ?M y" and ry: "reach g0 s i y" and yc: "reach g0 y (m - i) c"
    and cs: "i = 0 \<and> y = s \<or> (\<exists>x j. i = Suc j \<and> ?M x \<and> reach g0 s j x \<and> adjacent x y)"
    by blast
  have py: "passable g0 y" using reach_passable [OF ry] by simp
  then have yin: "in_grid g0 y" by (simp add: passable_def)
  have yu: "\<not> isVisited (cell_at g y)" using y yin by simp
  from cs show ?thesis
  proof
    assume a: "i = 0 \<and> y = s"
    with yu D(3) have "F = [s]" by auto
    with cF have "c = s" by simp
    with D(1) show ?thesis by simp
  next
    assume "\<exists>x j. i = Suc j \<and> ?M x \<and> reach g0 s j x \<and> adjacent x y"
    then obtain x j where x: "i = Suc j" "in_grid g0 x" "isVisited (cell_at g x)"
      "reach g0 s j x" "adjacent x y" by blast
    have sy: "scored g s y" by (rule D(9) [OF x(2,3) py x(5)])
    have "gScore (cell_at g x) \<le> j" by (rule dist_is_le [OF D(8) [OF x(2,3)] x(4)])
    with D(10) [OF x(2,3) py x(5)] x(1) have gy: "gScore (cell_at g y) \<le> i" by simp
    have "y \<in> set F" by (rule aStar_open [OF inv dinv yin yu sy])
    with mn have "fScore (cell_at g c) \<le> fScore (cell_at g y)" by simp
    with D(5) [OF cin D(4) [OF cF]] D(5) [OF yin sy]
    have "gScore (cell_at g c) + manhattan c e \<le> gScore (cell_at g y) + manhattan y e" by simp
    with manhattan_reach [OF yc, of e] gy i show ?thesis by simp
  qed
qed

lemma heuristic_manhattan:
  assumes "wf_grid g0" and "layout g = layout g0" and "in_grid g0 p" and "in_grid g0 e"
  shows "heuristic (cell_at g p) (cell_at g e) = manhattan p e"
  using layout_cell [OF assms(1,2,3)] layout_cell [OF assms(1,2,4)]
  by (simp add: heuristic_def manhattan_def)

lemma aStar_dist_inv_round:
  assumes wf: "wf_grid g0" and sp: "passable g0 s" and ein: "in_grid g0 e"
    and inv: "aStar_inv g0 g F V" and dinv: "aStar_dist_inv g0 s e g F"
    and rd: "aStar_round e g F V = Again g' F' V'"
  shows "aStar_dist_inv g0 s e g' F'"
proof (cases "sortNodesByF g F")
  case Nil
  with rd show ?thesis by (simp add: aStar_round_def)
next
  case (Cons c rest)
  note I = aStar_invD [OF inv]
  note D = aStar_dist_invD [OF dinv]
  have sk: "sort_key (\<lambda>p. fScore (cell_at g p)) F = c # rest"
    using Cons by (simp add: sortNodesByF_def)
  have S: "set F = insert c (set rest)" by (rule sort_key_Cons(1) [OF sk])
  have mn: "\<forall>p\<in>set F. fScore (cell_at g c) \<le> fScore (cell_at g p)"
    by (rule sort_key_Cons(2) [OF sk])
  have cF: "c \<in> set F" using S by simp
  have cin: "in_grid g0 c" by (rule I(3) [OF cF])
  have cg: "in_grid g c" using cin in_grid_layout [OF I(1)] by simp
  have cu: "\<not> isVisited (cell_at g c)" by (rule I(4) [OF cF])
  have ct: "ctype (cell_at g c) = ctype (cell_at g0 c)" by (rule cell_layout(3) [OF I(1) cin])
  show ?thesis
  proof (cases "ctype (cell_at g c) = Wall")
    case True
    with rd Cons have e: "g' = g" "F' = rest" by (simp_all add: aStar_round_def)
    have "c \<noteq> s" using True ct sp by (auto simp: passable_def)
    with cF D(3) have vs: "isVisited (cell_at g s)" by auto
    have "\<forall>p\<in>set rest. scored g s p" using D(4) S by simp
    with dinv vs show ?thesis
      unfolding e aStar_dist_inv_def by simp
  next
    case False
    let ?g1 = "mark_visited g c"
    let ?ns = "filter (\<lambda>q. \<not> isVisited (cell_at ?g1 q)) (nbrs g0 c)"
    have cp: "passable g0 c" using cin False ct by (simp add: passable_def)
    have l1: "layout ?g1 = layout g0" using I(1) by (simp add: layout_mark_visited)
    have rc: "row (cell_at g c) = fst c" "col (cell_at g c) = snd c"
      using layout_cell [OF wf I(1) cin] by simp_all
    have gn: "getNeighbors (cell_at g c) ?g1 = Inr ?ns"
      by (rule getNeighbors_layout [OF wf l1 cin rc])
    have nsp: "\<forall>n\<in>set ?ns. in_grid g0 n" "c \<notin> set ?ns" "distinct ?ns"
      using set_nbrs [OF wf cin] not_self_nbrs [of c g0] distinct_nbrs [of g0 c] by auto
    have rin: "\<forall>p\<in>set rest. in_grid g0 p" using I(3) S by simp
    from aStar_neighbors_spec [OF wf l1 cin nsp rin, of e] obtain g2 F2 where
      a: "aStar_neighbors c e ?ns (?g1, rest) = (g2, F2)"
      and c2: "\<forall>q. cell_at g2 q = (if q \<in> set ?ns \<and> improvable ?g1 c q then relabel ?g1 c e q
                                   else cell_at ?g1 q)"
      and s2: "set F2 = set rest \<union> {q \<in> set ?ns. improvable ?g1 c q}"
      by blast
    from rd Cons False gn a have e: "g' = g2" "F' = F2"
      by (simp_all add: aStar_round_def split: if_splits)
    define k where "k = gScore (cell_at g c)"
    have sc: "scored g s c" by (rule D(4) [OF cF])
    have rk: "reach g0 s k c" unfolding k_def by (rule D(6) [OF cp sc])
    have dk: "dist_is g0 s c k"
      unfolding dist_is_def k_def
      using rk [unfolded k_def] aStar_least [OF inv dinv cF mn] by blast
    have c1: "cell_at ?g1 q = (if q = c then (cell_at g c)\<lparr>isVisited := True\<rparr> else cell_at g q)" for q
      by (rule cell_at_mark_visited [OF cg])
    define R where "R q \<longleftrightarrow> q \<in> set (nbrs g0 c) \<and> \<not> isVisited (cell_at g q)
        \<and> ctype (cell_at g0 q) \<noteq> Wall
        \<and> (gScore (cell_at g q) = 0 \<or> Suc k < gScore (cell_at g q))" for q
    have cn: "c \<notin> set (nbrs g0 c)" by (rule not_self_nbrs)
    have nb: "q \<in> set (nbrs g0 c) \<longleftrightarrow> in_grid g0 q \<and> adjacent c q" for q
      using set_nbrs [OF wf cin] by auto
    have cR: "(q \<in> set ?ns \<and> improvable ?g1 c q) \<longleftrightarrow> R q" for q
    proof (cases "q \<in> set (nbrs g0 c)")
      case True
      then have qc: "q \<noteq> c" and qin: "in_grid g0 q" using cn by (auto simp: nb)
      have "ctype (cell_at g q) = ctype (cell_at g0 q)" by (rule cell_layout(3) [OF I(1) qin])
      with True qc show ?thesis
        by (simp add: R_def improvable_def c1 k_def)
    next
      case False
      then show ?thesis by (simp add: R_def)
    qed
    have c2': "cell_at g2 q = (if R q then relabel ?g1 c e q else cell_at ?g1 q)" for q
      using spec [OF c2, of q] unfolding cR .
    have Rc: "\<not> R c" using cn by (simp add: R_def)
    have Rin: "in_grid g0 q" and Rad: "adjacent c q" and Rp: "passable g0 q" if "R q" for q
      using that by (simp_all add: R_def nb passable_def)
    have hq: "heuristic (cell_at ?g1 q) (cell_at ?g1 e) = manhattan q e" if "R q" for q
      by (rule heuristic_manhattan [OF wf l1 Rin [OF that] ein])
    have gsc: "gScore (cell_at ?g1 c) = k" by (simp add: c1 k_def)
    have gs: "gScore (cell_at g2 q) = (if R q then Suc k else gScore (cell_at g q))" for q
      unfolding c2' by (simp add: relabel_def gsc) (simp add: c1)
    have fs: "fScore (cell_at g2 q) = (if R q then Suc k + manhattan q e else fScore (cell_at g q))" for q
      unfolding c2' using hq [of q] by (simp add: relabel_def gsc) (simp add: c1)
    have prv: "previousNode (cell_at g2 q) = (if R q then Some c else previousNode (cell_at g q))" for q
      unfolding c2' by (simp add: relabel_def) (simp add: c1)
    have vis: "isVisited (cell_at g2 q) \<longleftrightarrow> q = c \<or> isVisited (cell_at g q)" for q
      unfolding c2' by (simp add: relabel_def) (simp add: c1)
    have F2: "set F2 = set rest \<union> {q. R q}"
      unfolding s2 using cR by auto
    have Rs: "\<not> R s"
    proof
      assume "R s"
      then have "\<not> isVisited (cell_at g s)" and ns: "s \<in> set (nbrs g0 c)" by (simp_all add: R_def)
      with D(3) have "F = [s]" by simp
      with cF have "c = s" by simp
      with ns cn show False by simp
    qed
    have sc2: "scored g2 s q \<longleftrightarrow> R q \<or> scored g s q" for q
      using Rs by (auto simp: scored_def gs)
    have a1: "gScore (cell_at g2 s) = 0" "previousNode (cell_at g2 s) = None"
      using Rs D(1,2) by (simp_all add: gs prv)
    have a1': "isVisited (cell_at g2 s) \<or> F2 = [s]"
    proof (cases "c = s")
      case True
      then show ?thesis by (simp add: vis)
    next
      case False
      with cF D(3) show ?thesis by (auto simp: vis)
    qed
    have a8: "\<forall>p\<in>set F2. scored g2 s p"
      using D(4) S by (auto simp: F2 sc2)
    have a2: "fScore (cell_at g2 p) = gScore (cell_at g2 p) + manhattan p e"
      if "in_grid g0 p" "scored g2 s p" for p
      using that D(5) [OF that(1)] by (auto simp: sc2 gs fs)
    have a3: "reach g0 s (gScore (cell_at g2 p)) p" if "passable g0 p" "scored g2 s p" for p
    proof (cases "R p")
      case True
      from reach_Suc [OF rk Rad [OF True] that(1)] True show ?thesis by (simp add: gs)
    next
      case False
      with that D(6) [OF that(1)] show ?thesis by (simp add: sc2 gs)
    qed
    have a4: "scored g2 s p \<and> dist_is g0 s p (gScore (cell_at g2 p))"
      if "in_grid g0 p" "isVisited (cell_at g2 p)" for p
    proof (cases "p = c")
      case True
      with sc dk Rc show ?thesis by (simp add: sc2 gs k_def)
    next
      case False
      with that(2) have v: "isVisited (cell_at g p)" by (simp add: vis)
      then have "\<not> R p" by (simp add: R_def)
      with D(7,8) [OF that(1) v] show ?thesis by (simp add: sc2 gs)
    qed
    have a5: "scored g2 s v \<and> gScore (cell_at g2 v) \<le> Suc (gScore (cell_at g2 u))"
      if "in_grid g0 u" "isVisited (cell_at g2 u)" "passable g0 v" "adjacent u v" for u v
    proof -
      have Ru: "\<not> R u" using that(2) Rc by (auto simp: vis R_def)
      have vin: "in_grid g0 v" using that(3) by (simp add: passable_def)
      show ?thesis
      proof (cases "u = c")
        case True
        have vn: "v \<in> set (nbrs g0 c)" using that(4) vin True by (simp add: nb)
        show ?thesis
        proof (cases "R v")
          case True
          with \<open>u = c\<close> Rc show ?thesis by (simp add: sc2 gs k_def)
        next
          case False
          show ?thesis
          proof (cases "isVisited (cell_at g v)")
            case True
            from reach_Suc [OF rk] that(3,4) \<open>u = c\<close> have "reach g0 s (Suc k) v" by simp
            from dist_is_le [OF D(8) [OF vin True] this] D(7) [OF vin True] False \<open>u = c\<close> Rc
            show ?thesis by (simp add: sc2 gs k_def)
          next
            case nv: False
            from False vn nv that(3)
            have "0 < gScore (cell_at g v) \<and> gScore (cell_at g v) \<le> Suc k"
              by (auto simp: R_def passable_def)
            with False \<open>u = c\<close> Rc show ?thesis by (simp add: sc2 gs k_def scored_def)
          qed
        qed
      next
        case False
        with that(2) have uv: "isVisited (cell_at g u)" by (simp add: vis)
        note o = D(9,10) [OF that(1) uv that(3,4)]
        show ?thesis
        proof (cases "R v")
          case True
          then have "gScore (cell_at g v) = 0 \<or> Suc k < gScore (cell_at g v)" by (simp add: R_def)
          moreover have "gScore (cell_at g v) \<noteq> 0"
          proof
            assume "gScore (cell_at g v) = 0"
            with o(1) have "v = s" by (simp add: scored_def)
            with True Rs show False by simp
          qed
          ultimately have "Suc k < gScore (cell_at g v)" by simp
          with o(2) True Ru show ?thesis by (simp add: sc2 gs)
        next
          case False
          with o Ru show ?thesis by (simp add: sc2 gs)
        qed
      qed
    qed
    have a7: "\<exists>q. previousNode (cell_at g2 p) = Some q \<and> in_grid g0 q \<and> isVisited (cell_at g2 q)
                 \<and> adjacent q p \<and> gScore (cell_at g2 p) = Suc (gScore (cell_at g2 q))"
      if "in_grid g0 p" "0 < gScore (cell_at g2 p)" for p
    proof (cases "R p")
      case True
      with Rad [OF True] cin Rc show ?thesis
        by (intro exI [of _ c]) (simp add: prv vis gs k_def)
    next
      case False
      with that(2) have "0 < gScore (cell_at g p)" by (simp add: gs)
      from D(11) [OF that(1) this] obtain q where
        q: "previousNode (cell_at g p) = Some q" "in_grid g0 q" "isVisited (cell_at g q)"
           "adjacent q p" "gScore (cell_at g p) = Suc (gScore (cell_at g q))"
        by blast
      have "\<not> R q" using q(3) by (simp add: R_def)
      with q False show ?thesis
        by (intro exI [of _ q]) (simp add: prv vis gs)
    qed
    show ?thesis
      unfolding e aStar_dist_inv_def using a1 a1' a8 a2 a3 a4 a5 a7 by blast
  qed
qed

text \<open>When the loop of \<^verbatim>\<open>aStar\<close> ends, a reachable end cell has been visited.\<close>

lemma aStar_chain:
  assumes l: "layout g' = layout g0" and dinv: "aStar_dist_inv g0 s e g F"
    and same: "\<And>q. gScore (cell_at g' q) = gScore (cell_at g q)"
              "\<And>q. previousNode (cell_at g' q) = previousNode (cell_at g q)"
    and v1: "\<And>q. isVisited (cell_at g q) \<Longrightarrow> isVisited (cell_at g' q)"
    and v2: "\<And>q. in_grid g0 q \<Longrightarrow> isVisited (cell_at g' q) \<Longrightarrow>
               isVisited (cell_at g q) \<or> (scored g s q \<and> dist_is g0 s q (gScore (cell_at g q)))"
  shows "chain g0 s g' (\<lambda>p. gScore (cell_at g' p))"
proof -
  note D = aStar_dist_invD [OF dinv]
  have pf: "scored g s q \<and> dist_is g0 s q (gScore (cell_at g q))"
    if "in_grid g0 q" "isVisited (cell_at g' q)" for q
    using v2 [OF that] D(7,8) [OF that(1)] by blast
  have a: "dist_is g0 s p (gScore (cell_at g' p))"
    if "in_grid g0 p" "isVisited (cell_at g' p)" for p
    using pf [OF that] by (simp add: same)
  have b: "\<exists>q. previousNode (cell_at g' p) = Some q \<and> in_grid g0 q \<and> isVisited (cell_at g' q)
               \<and> adjacent q p \<and> gScore (cell_at g' p) = Suc (gScore (cell_at g' q))"
    if "in_grid g0 p" "isVisited (cell_at g' p)" "p \<noteq> s" for p
  proof -
    from pf [OF that(1,2)] that(3) have "0 < gScore (cell_at g p)" by (simp add: scored_def)
    from D(11) [OF that(1) this] obtain q where
      q: "previousNode (cell_at g p) = Some q" "in_grid g0 q" "isVisited (cell_at g q)"
         "adjacent q p" "gScore (cell_at g p) = Suc (gScore (cell_at g q))"
      by blast
    with v1 [OF q(3)] show ?thesis
      by (intro exI [of _ q]) (simp add: same)
  qed
  show ?thesis
    unfolding chain_def using l D(2) a b by (simp add: same)
qed

lemma aStar_dist_inv_done:
  assumes wf: "wf_grid g0" and sp: "passable g0 s" and ein: "in_grid g0 e"
    and re: "reach g0 s m e"
    and inv: "aStar_inv g0 g F V" and dinv: "aStar_dist_inv g0 s e g F"
    and rd: "aStar_round e g F V = Done r"
  shows "\<exists>V' g'. r = Inr (V', g') \<and> isVisited (cell_at g' e)
           \<and> chain g0 s g' (\<lambda>p. gScore (cell_at g' p))"
proof (cases "sortNodesByF g F")
  case Nil
  note I = aStar_invD [OF inv]
  note D = aStar_dist_invD [OF dinv]
  from Nil have F: "F = []" by (metis length_0_conv length_sort sortNodesByF_def)
  have same: "chain g0 s g (\<lambda>p. gScore (cell_at g p))"
    by (rule aStar_chain [OF I(1) dinv]) simp_all
  have "isVisited (cell_at g e)"
  proof (rule ccontr)
    assume ne: "\<not> isVisited (cell_at g e)"
    let ?M = "\<lambda>p. in_grid g0 p \<and> isVisited (cell_at g p)"
    have "\<not> ?M e" using ne by simp
    from reach_frontier [of g0 s m e ?M, OF re this] obtain i y where
      y: "\<not> ?M y" and ry: "reach g0 s i y"
      and cs: "i = 0 \<and> y = s \<or> (\<exists>x j. i = Suc j \<and> ?M x \<and> reach g0 s j x \<and> adjacent x y)"
      by blast
    have py: "passable g0 y" using reach_passable [OF ry] by simp
    then have yin: "in_grid g0 y" by (simp add: passable_def)
    have yu: "\<not> isVisited (cell_at g y)" using y yin by simp
    have "scored g s y"
      using cs
    proof
      assume "i = 0 \<and> y = s"
      then show ?thesis by (simp add: scored_def)
    next
      assume "\<exists>x j. i = Suc j \<and> ?M x \<and> reach g0 s j x \<and> adjacent x y"
      then obtain x where "in_grid g0 x" "isVisited (cell_at g x)" "adjacent x y" by blast
      then show ?thesis using D(9) py by blast
    qed
    from aStar_open [OF inv dinv yin yu this] F show False by simp
  qed
  moreover from rd Nil have "r = Inr (V, g)" by (simp add: aStar_round_def)
  ultimately show ?thesis using same by blast
next
  case (Cons c rest)
  note I = aStar_invD [OF inv]
  note D = aStar_dist_invD [OF dinv]
  have sk: "sort_key (\<lambda>p. fScore (cell_at g p)) F = c # rest"
    using Cons by (simp add: sortNodesByF_def)
  have S: "set F = insert c (set rest)" by (rule sort_key_Cons(1) [OF sk])
  have mn: "\<forall>p\<in>set F. fScore (cell_at g c) \<le> fScore (cell_at g p)"
    by (rule sort_key_Cons(2) [OF sk])
  have cF: "c \<in> set F" using S by simp
  have cin: "in_grid g0 c" by (rule I(3) [OF cF])
  have cg: "in_grid g c" using cin in_grid_layout [OF I(1)] by simp
  have ct: "ctype (cell_at g c) = ctype (cell_at g0 c)" by (rule cell_layout(3) [OF I(1) cin])
  let ?g1 = "mark_visited g c"
  have l1: "layout ?g1 = layout g0" using I(1) by (simp add: layout_mark_visited)
  have rc: "row (cell_at g c) = fst c" "col (cell_at g c) = snd c"
    using layout_cell [OF wf I(1) cin] by simp_all
  have gn: "getNeighbors (cell_at g c) ?g1
              = Inr (filter (\<lambda>q. \<not> isVisited (cell_at ?g1 q)) (nbrs g0 c))"
    by (rule getNeighbors_layout [OF wf l1 cin rc])
  from rd Cons gn
  have nw: "ctype (cell_at g c) \<noteq> Wall" and r: "r = Inr (V @ [c], ?g1)"
    and eq: "row (cell_at g c) = row (cell_at g e)" "col (cell_at g c) = col (cell_at g e)"
    by (simp_all add: aStar_round_def split: if_splits prod.splits)
  have ce: "c = e" by (rule same_place [OF wf I(1) cin ein eq])
  have cp: "passable g0 c" using cin nw ct by (simp add: passable_def)
  have sc: "scored g s c" by (rule D(4) [OF cF])
  have dk: "dist_is g0 s c (gScore (cell_at g c))"
    unfolding dist_is_def
    using D(6) [OF cp sc] aStar_least [OF inv dinv cF mn] by blast
  have c1: "cell_at ?g1 q = (if q = c then (cell_at g c)\<lparr>isVisited := True\<rparr> else cell_at g q)" for q
    by (rule cell_at_mark_visited [OF cg])
  have "chain g0 s ?g1 (\<lambda>p. gScore (cell_at ?g1 p))"
  proof (rule aStar_chain [OF l1 dinv])
    fix q
    show "gScore (cell_at ?g1 q) = gScore (cell_at g q)" by (simp add: c1)
    show "previousNode (cell_at ?g1 q) = previousNode (cell_at g q)" by (simp add: c1)
    show "isVisited (cell_at g q) \<Longrightarrow> isVisited (cell_at ?g1 q)" by (simp add: c1)
    show "in_grid g0 q \<Longrightarrow> isVisited (cell_at ?g1 q) \<Longrightarrow>
           isVisited (cell_at g q) \<or> (scored g s q \<and> dist_is g0 s q (gScore (cell_at g q)))"
      using sc dk by (simp add: c1 split: if_splits)
  qed
  moreover have "isVisited (cell_at ?g1 e)" unfolding ce [symmetric] by (simp add: c1)
  ultimately show ?thesis using r by blast
qed

text \<open>
  \<^verbatim>\<open>aStar\<close> on a fresh grid in which the end can be reached from the start: it returns,
  the walk along \<^verbatim>\<open>previousNode\<close> from the end returns a path from the start to the end,
  and no path from the start to the end has fewer cells.
\<close>

lemma aStar_shortest:
  assumes fr: "fresh_grid g0" and pth: "path_between g0 s e ps0"
  shows "\<exists>V g ps d. aStar g0 s e = Some (Inr (V, g))
           \<and> getNodesInShortestPathOrder g e = Some (Inr ps)
           \<and> path_between g0 s e ps \<and> length ps = Suc d \<and> dist_is g0 s e d"
proof -
  note wf = fresh_wf [OF fr]
  from path_reach [OF pth] have re: "reach g0 s (length ps0 - 1) e" .
  from reach_passable [OF re] have ep: "passable g0 e" and sp: "passable g0 s" by simp_all
  then have ein: "in_grid g0 e" and sin: "in_grid g0 s" by (simp_all add: passable_def)
  define g1 where "g1 = set_cell g0 s
     ((cell_at g0 s)\<lparr>gScore := 0, hScore := heuristic (cell_at g0 s) (cell_at g0 e),
                      fScore := heuristic (cell_at g0 s) (cell_at g0 e)\<rparr>)"
  have l1: "layout g1 = layout g0" by (simp add: g1_def layout_set_cell)
  have c1: "cell_at g1 q = (if q = s
       then (cell_at g0 s)\<lparr>gScore := 0, hScore := heuristic (cell_at g0 s) (cell_at g0 e),
                          fScore := heuristic (cell_at g0 s) (cell_at g0 e)\<rparr>
       else cell_at g0 q)" for q
    unfolding g1_def by (rule cell_at_set_cell [OF sin])
  have F: "\<not> isVisited (cell_at g0 p)" "previousNode (cell_at g0 p) = None"
    "gScore (cell_at g0 p) = 0" if "in_grid g0 p" for p
    using fresh_gridD [OF fr that] by simp_all
  have hs: "heuristic (cell_at g0 s) (cell_at g0 e) = manhattan s e"
    by (rule heuristic_manhattan [OF wf refl sin ein])
  have inv: "aStar_inv g0 g1 [s] []"
    unfolding aStar_inv_def using l1 sin F by (auto simp: c1)
  have g0s: "gScore (cell_at g1 p) = 0" if "in_grid g0 p" for p
    using F(3) [OF that] by (simp add: c1)
  have dinv: "aStar_dist_inv g0 s e g1 [s]"
    unfolding aStar_dist_inv_def scored_def
    using F sin g0s reach_0 [OF sp] hs by (auto simp: c1 passable_def)
  have "\<exists>r. aStar_loop e g1 [s] [] = Some r
          \<and> (\<exists>V' g'. r = Inr (V', g') \<and> isVisited (cell_at g' e)
                \<and> chain g0 s g' (\<lambda>p. gScore (cell_at g' p)))"
  proof (rule aStar_loop_rule
      [where I = "\<lambda>g F V. aStar_inv g0 g F V \<and> aStar_dist_inv g0 s e g F", OF wf_aStar_rel])
    show "aStar_inv g0 g1 [s] [] \<and> aStar_dist_inv g0 s e g1 [s]"
      using inv dinv by simp
  next
    fix g F V g' F' V'
    assume "aStar_inv g0 g F V \<and> aStar_dist_inv g0 s e g F"
      and "aStar_round e g F V = Again g' F' V'"
    then show "(aStar_inv g0 g' F' V' \<and> aStar_dist_inv g0 s e g' F')
                 \<and> ((g', F'), (g, F)) \<in> aStar_rel g0"
      using aStar_inv_round [OF wf, of g F V e g' F' V']
        aStar_dist_inv_round [OF wf sp ein, of g F V g' F' V'] by blast
  next
    fix g F V r
    assume "aStar_inv g0 g F V \<and> aStar_dist_inv g0 s e g F"
      and "aStar_round e g F V = Done r"
    then show "\<exists>V' g'. r = Inr (V', g') \<and> isVisited (cell_at g' e)
           \<and> chain g0 s g' (\<lambda>p. gScore (cell_at g' p))"
      using aStar_dist_inv_done [OF wf sp ein re, of g F V r] by blast
  qed
  then obtain V g where
    d: "aStar_loop e g1 [s] [] = Some (Inr (V, g))" and ve: "isVisited (cell_at g e)"
    and ch: "chain g0 s g (\<lambda>p. gScore (cell_at g p))"
    by blast
  from chain_path [OF ch ein ve, of "[]"] obtain ps where
    p: "shortestPath_loop g e [] = Some (Inr ps)" "path_between g0 s e ps"
       "length ps = Suc (gScore (cell_at g e))"
    by auto
  from ch ein ve have "dist_is g0 s e (gScore (cell_at g e))"
    unfolding chain_def by blast
  with d p show ?thesis
    by (simp add: aStar_def Let_def g1_def getNodesInShortestPathOrder_def)
qed

subsection \<open>Both recorders find a shortest path on a fresh grid\<close>

text \<open>
  On every fresh grid in which some wall-avoiding path leads from the start cell to the end
  cell, \<^verbatim>\<open>dijkstra\<close> and \<^verbatim>\<open>aStar\<close> both return, the walk along the \<^verbatim>\<open>previousNode\<close>
  fields from the end cell gives for each of them a wall-avoiding path from start to end,
  the two paths have the same length, and no wall-avoiding path from start to end is
  shorter.
\<close>

theorem dijkstra_aStar_shortest_paths:
  assumes "fresh_grid grid" and "path_between grid startNode endNode ps"
  shows "\<exists>vd gd va ga pd pa.
           dijkstra grid startNode endNode = Inr (vd, gd)
           \<and> aStar grid startNode endNode = Some (Inr (va, ga))
           \<and> getNodesInShortestPathOrder gd endNode = Some (Inr pd)
           \<and> getNodesInShortestPathOrder ga endNode = Some (Inr pa)
           \<and> path_between grid startNode endNode pd
           \<and> path_between grid startNode endNode pa
           \<and> length pd = length pa \<and> length pd \<le> length ps"
proof -
  from dijkstra_shortest [OF assms] obtain vd gd pd d where
    d: "dijkstra grid startNode endNode = Inr (vd, gd)"
       "getNodesInShortestPathOrder gd endNode = Some (Inr pd)"
       "path_between grid startNode endNode pd" "length pd = Suc d"
       "dist_is grid startNode endNode d"
    by blast
  from aStar_shortest [OF assms] obtain va ga pa a where
    a: "aStar grid startNode endNode = Some (Inr (va, ga))"
       "getNodesInShortestPathOrder ga endNode = Some (Inr pa)"
       "path_between grid startNode endNode pa" "length pa = Suc a"
       "dist_is grid startNode endNode a"
    by blast
  have "d = a" by (rule dist_is_unique [OF d(5) a(5)])
  then have e: "length pd = length pa" using d(4) a(4) by simp
  have "d \<le> length ps - 1" by (rule dist_is_le [OF d(5) path_reach [OF assms(2)]])
  moreover have "ps \<noteq> []" using assms(2) by (simp add: path_between_def)
  ultimately have "length pd \<le> length ps" using d(4) by (cases ps) simp_all
  with d a e show ?thesis by blast
qed

theorem dijkstra_aStar_shortest_paths_witness:
  "fresh_grid detour
   \<and> path_between detour (0, 0) (0, 2)
       [(0, 0), (1, 0), (2, 0), (2, 1), (2, 2), (1, 2), (0, 2)]
   \<and> (\<exists>vd gd va ga pd pa.
         dijkstra detour (0, 0) (0, 2) = Inr (vd, gd)
         \<and> aStar detour (0, 0) (0, 2) = Some (Inr (va, ga))
         \<and> getNodesInShortestPathOrder gd (0, 2) = Some (Inr pd)
         \<and> getNodesInShortestPathOrder ga (0, 2) = Some (Inr pa)
         \<and> path_between detour (0, 0) (0, 2) pd
         \<and> path_between detour (0, 0) (0, 2) pa
         \<and> length pd = length pa \<and> length pd \<le> 7)"
proof -
  have h1: "fresh_grid detour" by code_simp
  have h2: "path_between detour (0, 0) (0, 2)
       [(0, 0), (1, 0), (2, 0), (2, 1), (2, 2), (1, 2), (0, 2)]" by code_simp
  have len: "length [(0, 0), (1, 0), (2, 0), (2, 1), (2, 2), (1, 2), (0 :: nat, 2 :: nat)] = 7"
    by simp
  have "\<exists>vd gd va ga pd pa.
         dijkstra detour (0, 0) (0, 2) = Inr (vd, gd)
         \<and> aStar detour (0, 0) (0, 2) = Some (Inr (va, ga))
         \<and> getNodesInShortestPathOrder gd (0, 2) = Some (Inr pd)
         \<and> getNodesInShortestPathOrder ga (0, 2) = Some (Inr pa)
         \<and> path_between detour (0, 0) (0, 2) pd
         \<and> path_between detour (0, 0) (0, 2) pa
         \<and> length pd = length pa \<and> length pd \<le> 7"
    using dijkstra_aStar_shortest_paths [OF h1 h2] unfolding len .
  with h1 h2 show ?thesis by (intro conjI)
qed

subsection \<open>The grids of the editor are fresh\<close>

text \<open>
  \<^verbatim>\<open>initializeGrid\<close> makes a fresh grid, and \<^verbatim>\<open>toggleWall\<close> keeps a grid fresh: it changes
  the type of one cell and nothing else.
\<close>

lemma fresh_gridI:
  assumes "g \<noteq> []" and "\<And>r. r < length g \<Longrightarrow> length (g ! r) = length (g ! 0)"
    and "\<And>r c. r < length g \<Longrightarrow> c < length (g ! r) \<Longrightarrow>
           row (g ! r ! c) = r \<and> col (g ! r ! c) = c \<and> distance (g ! r ! c) = \<infinity>
           \<and> \<not> isVisited (g ! r ! c) \<and> previousNode (g ! r ! c) = None \<and> gScore (g ! r ! c) = 0"
  shows "fresh_grid g"
proof -
  have w: "\<forall>r\<in>set [0..<length g]. length (g ! r) = length (g ! 0)
         \<and> (\<forall>c\<in>set [0..<length (g ! r)]. row (g ! r ! c) = r \<and> col (g ! r ! c) = c)"
  proof (intro ballI conjI)
    fix r assume "r \<in> set [0..<length g]"
    then have r: "r < length g" by simp
    show "length (g ! r) = length (g ! 0)" by (rule assms(2) [OF r])
    fix c assume "c \<in> set [0..<length (g ! r)]"
    then have c: "c < length (g ! r)" by simp
    from assms(3) [OF r c] show "row (g ! r ! c) = r" and "col (g ! r ! c) = c" by simp_all
  qed
  have f: "\<forall>rw\<in>set g. \<forall>x\<in>set rw. distance x = \<infinity> \<and> \<not> isVisited x
      \<and> previousNode x = None \<and> gScore x = 0"
  proof (intro ballI)
    fix rw x assume "rw \<in> set g" "x \<in> set rw"
    then obtain r c where "r < length g" "rw = g ! r" "c < length rw" "x = rw ! c"
      by (metis in_set_conv_nth)
    with assms(3) [of r c] show "distance x = \<infinity> \<and> \<not> isVisited x
      \<and> previousNode x = None \<and> gScore x = 0" by simp
  qed
  from assms(1) w have "wf_grid g" unfolding wf_grid_def list_all_iff by (rule conjI)
  then show ?thesis unfolding fresh_grid_def list_all_iff using f by (rule conjI)
qed

lemma initializeGrid_fresh:
  assumes "0 < rows"
  shows "fresh_grid (initializeGrid rows cols startNode endNode)"
proof (rule fresh_gridI)
  show "initializeGrid rows cols startNode endNode \<noteq> []"
    using assms by (simp add: initializeGrid_def)
next
  fix r assume "r < length (initializeGrid rows cols startNode endNode)"
  then show "length (initializeGrid rows cols startNode endNode ! r)
               = length (initializeGrid rows cols startNode endNode ! 0)"
    using assms by (simp add: initializeGrid_def)
next
  fix r c
  assume "r < length (initializeGrid rows cols startNode endNode)"
    and "c < length (initializeGrid rows cols startNode endNode ! r)"
  then show "row (initializeGrid rows cols startNode endNode ! r ! c) = r
      \<and> col (initializeGrid rows cols startNode endNode ! r ! c) = c
      \<and> distance (initializeGrid rows cols startNode endNode ! r ! c) = \<infinity>
      \<and> \<not> isVisited (initializeGrid rows cols startNode endNode ! r ! c)
      \<and> previousNode (initializeGrid rows cols startNode endNode ! r ! c) = None
      \<and> gScore (initializeGrid rows cols startNode endNode ! r ! c) = 0"
    by (simp add: initializeGrid_def createNode_def)
qed

lemma toggleWall_fresh:
  assumes fr: "fresh_grid g" and t: "toggleWall g r c = Inr g'"
  shows "fresh_grid g'"
proof -
  from t have rc: "r < length g" "c < length (g ! r)"
    by (simp_all add: toggleWall_def split: if_splits)
  then have ig: "in_grid g (r, c)" by (simp add: in_grid_def)
  have "\<exists>ty. g' = set_cell g (r, c) ((cell_at g (r, c))\<lparr>ctype := ty\<rparr>)"
  proof (cases "ctype (g ! r ! c) \<noteq> Start \<and> ctype (g ! r ! c) \<noteq> End")
    case True
    with t rc have "g' = set_cell g (r, c)
        ((cell_at g (r, c))\<lparr>ctype := (if ctype (g ! r ! c) = Wall then Empty else Wall)\<rparr>)"
      by (simp add: toggleWall_def Let_def set_cell_def cell_at_def)
    then show ?thesis by (rule exI)
  next
    case False
    with t rc have "g' = g" by (auto simp: toggleWall_def Let_def)
    moreover have "set_cell g (r, c) ((cell_at g (r, c))\<lparr>ctype := ctype (cell_at g (r, c))\<rparr>) = g"
      by (simp add: set_cell_def cell_at_def)
    ultimately show ?thesis by (intro exI [of _ "ctype (cell_at g (r, c))"]) simp
  qed
  then obtain ty where g': "g' = set_cell g (r, c) ((cell_at g (r, c))\<lparr>ctype := ty\<rparr>)" ..
  note wf = fresh_wf [OF fr]
  have len: "length g' = length g" by (simp add: g' set_cell_def)
  have ing: "in_grid g' p = in_grid g p" for p by (simp add: g')
  have lr: "length (g' ! k) = length (g ! k)" if "k < length g" for k
    using that by (cases "k = r") (simp_all add: g' set_cell_def)
  have cell: "cell_at g' p = (if p = (r, c) then (cell_at g (r, c))\<lparr>ctype := ty\<rparr> else cell_at g p)" for p
    unfolding g' by (rule cell_at_set_cell [OF ig])
  show ?thesis
  proof (rule fresh_gridI)
    show "g' \<noteq> []" using len wf_grid_nonempty [OF wf] by auto
  next
    fix k assume k: "k < length g'"
    have z: "0 < length g" using wf_grid_nonempty [OF wf] by simp
    from k len have k': "k < length g" by simp
    show "length (g' ! k) = length (g' ! 0)"
      unfolding lr [OF k'] lr [OF z] by (rule wf_grid_row [OF wf k'])
  next
    fix k j assume k: "k < length g'" and j: "j < length (g' ! k)"
    from k len have k': "k < length g" by simp
    with j lr have j': "j < length (g ! k)" by simp
    have p: "in_grid g (k, j)" using k' j' by (simp add: in_grid_def)
    from wf_grid_cell [OF wf p] fresh_gridD [OF fr p] wf_grid_cell [OF wf ig] fresh_gridD [OF fr ig]
    have "row (cell_at g' (k, j)) = k \<and> col (cell_at g' (k, j)) = j
      \<and> distance (cell_at g' (k, j)) = \<infinity> \<and> \<not> isVisited (cell_at g' (k, j))
      \<and> previousNode (cell_at g' (k, j)) = None \<and> gScore (cell_at g' (k, j)) = 0"
      by (auto simp: cell)
    then show "row (g' ! k ! j) = k \<and> col (g' ! k ! j) = j \<and> distance (g' ! k ! j) = \<infinity>
      \<and> \<not> isVisited (g' ! k ! j) \<and> previousNode (g' ! k ! j) = None \<and> gScore (g' ! k ! j) = 0"
      by (simp add: cell_at_def)
  qed
qed

subsection \<open>A second run on the cells of the first\<close>

text \<open>
  The recorders write their working fields into the cells of the grid of the component and
  never restore them; only \<^verbatim>\<open>resetGrid\<close> does. The effect that starts a run asks for
  \<^verbatim>\<open>!isVisualizing && !isPathFound\<close>, which holds again after a pause, and the wall editor
  is open whenever \<^verbatim>\<open>isVisualizing\<close> is false. So play, pause, a click on a wall and play
  run a recorder a second time, on the grid that its first run left on \<open>detour\<close>, with the
  wall at row 0, column 1 removed by \<^verbatim>\<open>toggleWall\<close>. Choosing another algorithm resets
  the grid, so the second run is a run of the same recorder.
\<close>

definition used_by_dijkstra :: Grid where
  "used_by_dijkstra = projr (toggleWall (snd (projr (dijkstra detour (0, 0) (0, 2)))) 0 1)"

definition used_by_aStar :: Grid where
  "used_by_aStar = projr (toggleWall (snd (projr (the (aStar detour (0, 0) (0, 2))))) 0 1)"

text \<open>
  C2 fails on the code. On both grids the three cells of row 0 are a wall-avoiding path
  from start to end. \<^verbatim>\<open>dijkstra\<close> and \<^verbatim>\<open>aStar\<close> both return, and for both the walk along
  \<^verbatim>\<open>previousNode\<close> from the end cell gives the path of seven cells that the first run
  found around the wall: the end cell is still marked visited and keeps its predecessor.
\<close>

theorem second_run_not_shortest:
  "map (map ctype) used_by_dijkstra
     = [[Start, Empty, End], [Empty, Wall, Empty], [Empty, Empty, Empty]]
   \<and> map (map ctype) used_by_aStar
       = [[Start, Empty, End], [Empty, Wall, Empty], [Empty, Empty, Empty]]
   \<and> path_between used_by_dijkstra (0, 0) (0, 2) [(0, 0), (0, 1), (0, 2)]
   \<and> path_between used_by_aStar (0, 0) (0, 2) [(0, 0), (0, 1), (0, 2)]
   \<and> map_sum id (\<lambda>r. getNodesInShortestPathOrder (snd r) (0, 2))
         (dijkstra used_by_dijkstra (0, 0) (0, 2))
       = Inr (Some (Inr [(0, 0), (1, 0), (2, 0), (2, 1), (2, 2), (1, 2), (0, 2)]))
   \<and> map_option (map_sum id (\<lambda>r. getNodesInShortestPathOrder (snd r) (0, 2)))
         (aStar used_by_aStar (0, 0) (0, 2))
       = Some (Inr (Some (Inr [(0, 0), (1, 0), (2, 0), (2, 1), (2, 2), (1, 2), (0, 2)])))"
  by code_simp

end
